(* ===== verification/Kprelude.thy ===== *)
theory Kprelude
  imports Main "HOL-Library.Word" "HOL-Library.Monad_Syntax"
begin

text \<open>
  The prelude of the development: the integer types of \<^verbatim>\<open>include/types.h\<close>, the
  error numbers of \<^verbatim>\<open>include/errno.h\<close>, spin locks and atomic counters of
  \<^verbatim>\<open>include/asm/atomic.h\<close>, the rounding macros and page constants of
  \<^verbatim>\<open>include/mm\<close>, and the generic lemmas the component theories share.

  Conventions. A kernel function that can stop the machine returns an \<open>option\<close>: \<open>None\<close>
  means that control never comes back, because \<^verbatim>\<open>panic\<close> or a failed \<^verbatim>\<open>assert\<close>
  halts, because a spin lock that is already held is taken again, or because the C
  program dereferences memory outside its objects. Error returns (\<open>-ENOMEM\<close> and the
  like) are ordinary values.
\<close>

unbundle bit_operations_syntax

named_theorems klayout \<open>page and address-space constants\<close>
named_theorems ksync \<open>definitions of locks and atomic counters\<close>

section \<open>Types\<close>

type_synonym u8 = "8 word"
type_synonym u16 = "16 word"
type_synonym u32 = "32 word"
type_synonym u64 = "64 word"

section \<open>Error numbers\<close>

datatype (plugins only: code) errno =
    SUCCESS | EPERM | ENOENT | ESRCH | EINTR | EIO | ENXIO | E2BIG | ENOEXEC | EBADF
  | ECHILD | EAGAIN | ENOMEM | EACCES | EFAULT | ENOTBLK | EBUSY | EEXIST | EXDEV | ENODEV
  | ENOTDIR | EISDIR | EINVAL | ENFILE | EMFILE | ENOTTY | ETXTBSY | EFBIG | ENOSPC | ESPIPE
  | EROFS | EMLINK | EPIPE | EDOM | ERANGE | EBADP | ENOTHING | EMPROC | EEOF | EPEMPTY | ERROR

fun errno_val :: "errno \<Rightarrow> int" where
  "errno_val SUCCESS = 0" | "errno_val EPERM = 1" | "errno_val ENOENT = 2"
| "errno_val ESRCH = 3" | "errno_val EINTR = 4" | "errno_val EIO = 5"
| "errno_val ENXIO = 6" | "errno_val E2BIG = 7" | "errno_val ENOEXEC = 8"
| "errno_val EBADF = 9" | "errno_val ECHILD = 10" | "errno_val EAGAIN = 11"
| "errno_val ENOMEM = 12" | "errno_val EACCES = 13" | "errno_val EFAULT = 14"
| "errno_val ENOTBLK = 15" | "errno_val EBUSY = 16" | "errno_val EEXIST = 17"
| "errno_val EXDEV = 18" | "errno_val ENODEV = 19" | "errno_val ENOTDIR = 20"
| "errno_val EISDIR = 21" | "errno_val EINVAL = 22" | "errno_val ENFILE = 23"
| "errno_val EMFILE = 24" | "errno_val ENOTTY = 25" | "errno_val ETXTBSY = 26"
| "errno_val EFBIG = 27" | "errno_val ENOSPC = 28" | "errno_val ESPIPE = 29"
| "errno_val EROFS = 30" | "errno_val EMLINK = 31" | "errno_val EPIPE = 32"
| "errno_val EDOM = 33" | "errno_val ERANGE = 34" | "errno_val EBADP = 35"
| "errno_val ENOTHING = 36" | "errno_val EMPROC = 37" | "errno_val EEOF = 38"
| "errno_val EPEMPTY = 39" | "errno_val ERROR = 99"

section \<open>Halting, spin locks, atomic counters\<close>

text \<open>\<open>kassert b\<close> is \<^verbatim>\<open>assert(b)\<close>: a failed assertion panics and never returns.\<close>

definition kassert :: "bool \<Rightarrow> unit option" where
  "kassert b = (if b then Some () else None)"

text \<open>
  A lock is its word \<^verbatim>\<open>locked\<close>. On the one processor that runs a kernel path,
  \<^verbatim>\<open>spin_lock\<close> on a held lock spins for ever.
\<close>

type_synonym spinlock = u32

definition SPIN_LOCK_INIT :: spinlock where
  "SPIN_LOCK_INIT = 0"

definition spin_lock :: "spinlock \<Rightarrow> spinlock option" where
  "spin_lock lk = (if lk \<noteq> 0 then None else Some 1)"

definition spin_unlock :: "spinlock \<Rightarrow> spinlock" where
  "spin_unlock lk = 0"

definition spin_trylock :: "spinlock \<Rightarrow> bool \<times> spinlock" where
  "spin_trylock lk = (lk = 0, 1)"

type_synonym atomic = u32

definition atomic_inc :: "atomic \<Rightarrow> atomic" where
  "atomic_inc v = v + 1"

definition atomic_dec :: "atomic \<Rightarrow> atomic" where
  "atomic_dec v = v - 1"

definition atomic_dec_and_test :: "atomic \<Rightarrow> bool \<times> atomic" where
  "atomic_dec_and_test v = (v - 1 = 0, v - 1)"

section \<open>Pages and the address space\<close>

definition PAGE_SHIFT :: nat where
  "PAGE_SHIFT = 12"

definition PAGE_SIZE :: u32 where
  "PAGE_SIZE = push_bit PAGE_SHIFT 1"

definition KERNEL_BASE_ADDR :: u32 where
  "KERNEL_BASE_ADDR = 0xC0000000"

definition KERNEL_NORMAL :: u32 where
  "KERNEL_NORMAL = 0xF0000000"

definition NORMAL_ADDR :: u32 where
  "NORMAL_ADDR = KERNEL_NORMAL - KERNEL_BASE_ADDR"

definition USER_UNNAME_ZONE :: u32 where
  "USER_UNNAME_ZONE = 0x40000000"

definition USER_STACKTOP :: u32 where
  "USER_STACKTOP = 0xBF800000"

definition USER_STACKBOTT :: u32 where
  "USER_STACKBOTT = 0xBF400000"

definition USER_TEMPBOTT :: u32 where
  "USER_TEMPBOTT = 0xBF800000"

definition PT_SIZE :: u32 where
  "PT_SIZE = push_bit 10 PAGE_SIZE"

definition ROUNDDOWN :: "u32 \<Rightarrow> u32 \<Rightarrow> u32" where
  "ROUNDDOWN a n = a - a mod n"

definition ROUNDUP :: "u32 \<Rightarrow> u32 \<Rightarrow> u32" where
  "ROUNDUP a n = ROUNDDOWN (a + n - 1) n"

section \<open>Shared lemmas\<close>

lemma kassert_Some [simp]: "kassert b = Some u \<longleftrightarrow> b"
  by (simp add: kassert_def)

lemma kassert_bind [simp]: "Option.bind (kassert b) f = (if b then f () else None)"
  by (simp add: kassert_def)

declare spin_unlock_def [ksync] spin_lock_def [ksync] spin_trylock_def [ksync]
  SPIN_LOCK_INIT_def [ksync] atomic_inc_def [ksync] atomic_dec_def [ksync]
  atomic_dec_and_test_def [ksync]

lemma spin_lock_free [simp]: "spin_lock 0 = Some 1"
  by (simp add: spin_lock_def)

lemma spin_unlock_zero [simp]: "spin_unlock lk = 0"
  by (simp add: spin_unlock_def)

lemma PAGE_SIZE_val [klayout]: "PAGE_SIZE = 4096"
  by (simp add: PAGE_SIZE_def PAGE_SHIFT_def)

lemma NORMAL_ADDR_val [klayout]: "NORMAL_ADDR = 0x30000000"
  by (simp add: NORMAL_ADDR_def KERNEL_NORMAL_def KERNEL_BASE_ADDR_def)

declare PAGE_SHIFT_def [klayout] KERNEL_BASE_ADDR_def [klayout] KERNEL_NORMAL_def [klayout]
  USER_UNNAME_ZONE_def [klayout] USER_STACKTOP_def [klayout] USER_STACKBOTT_def [klayout]
  USER_TEMPBOTT_def [klayout]

lemma errno_val_nonneg [simp]: "0 \<le> errno_val e"
  by (cases e) simp_all

subsection \<open>Bits\<close>

lemma and_mask_mod: "(x::nat) AND (2 ^ n - 1) = x mod 2 ^ n"
  by (metis take_bit_eq_mask take_bit_eq_mod mask_eq_exp_minus_1)

lemma and_mask_mod_int: "(x::int) AND (2 ^ n - 1) = x mod 2 ^ n"
  by (metis take_bit_eq_mask take_bit_eq_mod mask_eq_exp_minus_1)

text \<open>Testing, setting and clearing one bit of a word with a shifted 1.\<close>

lemma word_bit_test:
  fixes w :: "'a::len word"
  assumes "k < LENGTH('a)"
  shows "w AND push_bit k 1 \<noteq> 0 \<longleftrightarrow> bit w k"
    and "NOT w AND push_bit k 1 \<noteq> 0 \<longleftrightarrow> \<not> bit w k"
    and "bit (w OR push_bit k 1) j \<longleftrightarrow> bit w j \<or> j = k"
    and "bit (w AND NOT (push_bit k 1)) j \<longleftrightarrow> bit w j \<and> j \<noteq> k"
  using assms bit_imp_le_length [of w j]
  by (auto simp: and_exp_eq_0_iff_not_bit bit_simps push_bit_of_1)

subsection \<open>Rounding\<close>

text \<open>Rounding down never wraps; rounding up does exactly when \<open>a + n - 1\<close> does.\<close>

lemma unat_ROUNDDOWN: "unat (ROUNDDOWN a n) = unat a - unat a mod unat n"
proof -
  have "unat (a mod n) = unat a mod unat n" by (simp add: unat_mod)
  moreover have "a mod n \<le> a"
    by (metis calculation mod_less_eq_dividend word_le_nat_alt)
  ultimately show ?thesis by (simp add: ROUNDDOWN_def unat_sub)
qed

lemma ROUNDDOWN_le: "ROUNDDOWN a n \<le> a"
  by (simp add: word_le_nat_alt unat_ROUNDDOWN)

lemma ROUNDDOWN_dvd: "unat n dvd unat (ROUNDDOWN a n)"
  by (simp add: unat_ROUNDDOWN minus_mod_eq_mult_div)

lemma unat_ROUNDUP:
  assumes "0 < n" and "unat a + unat n \<le> 2 ^ 32"
  shows "unat (ROUNDUP a n) = (unat a + unat n - 1) div unat n * unat n"
proof -
  have n: "0 < unat n" using assms(1) by (simp add: word_less_nat_alt)
  have one: "unat (n - 1) = unat n - 1"
    using n by (subst unat_minus_one) (auto simp: unat_eq_0)
  have "unat (a + (n - 1)) = unat a + (unat n - 1)"
    using assms(2) n one by (subst unat_add_lem [THEN iffD1]) auto
  then have "unat (a + n - 1) = unat a + unat n - 1"
    using n by (simp add: add_diff_eq [symmetric])
  then show ?thesis
    by (simp add: ROUNDUP_def unat_ROUNDDOWN minus_mod_eq_div_mult)
qed

end
