(* ===== verification/Klist.thy ===== *)
theory Klist
  imports Kprelude
begin

text \<open>
  The intrusive lists of \<^verbatim>\<open>include/fuckOS/list.h\<close>. A \<^verbatim>\<open>struct list_head\<close> is a node
  with a \<^verbatim>\<open>next\<close> and a \<^verbatim>\<open>prev\<close> pointer; the heap of all nodes is a record of two
  functions on node names. \<open>clist h head xs\<close> says that the circular list headed by \<open>head\<close>
  holds the nodes \<open>xs\<close> in order; \<open>family\<close> collects several lists that share a heap.
  The locale \<open>intrusive_list\<close> is the interface the kernel components rely on (free
  areas, run queues, partial slabs, allocator chunks), and it is interpreted on the
  pointer operations below.
\<close>

section \<open>Circular doubly linked lists\<close>

record 'a lheap =
  nxt :: "'a \<Rightarrow> 'a"
  prv :: "'a \<Rightarrow> 'a"

definition INIT_LIST_HEAD :: "'a \<Rightarrow> 'a lheap \<Rightarrow> 'a lheap" where
  "INIT_LIST_HEAD l h = h\<lparr>nxt := (nxt h)(l := l), prv := (prv h)(l := l)\<rparr>"

text \<open>\<^verbatim>\<open>__list_add(new, prev, next)\<close>: four stores, in the source's order.\<close>

definition list_add_raw :: "'a \<Rightarrow> 'a \<Rightarrow> 'a \<Rightarrow> 'a lheap \<Rightarrow> 'a lheap" where
  "list_add_raw new p n h =
     (let h1 = h\<lparr>prv := (prv h)(n := new)\<rparr>;
          h2 = h1\<lparr>nxt := (nxt h1)(new := n)\<rparr>;
          h3 = h2\<lparr>prv := (prv h2)(new := p)\<rparr>
      in h3\<lparr>nxt := (nxt h3)(p := new)\<rparr>)"

definition list_add :: "'a \<Rightarrow> 'a \<Rightarrow> 'a lheap \<Rightarrow> 'a lheap" where
  "list_add new head h = list_add_raw new head (nxt h head) h"

definition list_add_tail :: "'a \<Rightarrow> 'a \<Rightarrow> 'a lheap \<Rightarrow> 'a lheap" where
  "list_add_tail new head h = list_add_raw new (prv h head) head h"

definition list_del_raw :: "'a \<Rightarrow> 'a \<Rightarrow> 'a lheap \<Rightarrow> 'a lheap" where
  "list_del_raw p n h =
     (let h1 = h\<lparr>prv := (prv h)(n := p)\<rparr> in h1\<lparr>nxt := (nxt h1)(p := n)\<rparr>)"

definition list_del :: "'a \<Rightarrow> 'a lheap \<Rightarrow> 'a lheap" where
  "list_del e h =
     (let h1 = list_del_raw (prv h e) (nxt h e) h;
          h2 = h1\<lparr>nxt := (nxt h1)(e := e)\<rparr>
      in h2\<lparr>prv := (prv h2)(e := e)\<rparr>)"

definition list_empty :: "'a \<Rightarrow> 'a lheap \<Rightarrow> bool" where
  "list_empty head h \<longleftrightarrow> nxt h head = head"

definition list_is_last :: "'a \<Rightarrow> 'a \<Rightarrow> 'a lheap \<Rightarrow> bool" where
  "list_is_last l head h \<longleftrightarrow> nxt h l = head"

definition list_is_first :: "'a \<Rightarrow> 'a \<Rightarrow> 'a lheap \<Rightarrow> bool" where
  "list_is_first l head h \<longleftrightarrow> prv h l = head"

text \<open>
  \<^verbatim>\<open>list_for_each\<close> as a walk that visits the nodes from \<^verbatim>\<open>head->next\<close> until the head
  comes round again. \<open>fuel\<close> bounds the number of steps; \<open>None\<close> is running out of it.
\<close>

fun list_walk :: "nat \<Rightarrow> 'a \<Rightarrow> 'a \<Rightarrow> 'a lheap \<Rightarrow> 'a list option" where
  "list_walk 0 pos head h = None"
| "list_walk (Suc fuel) pos head h =
     (if pos = head then Some []
      else map_option (Cons pos) (list_walk fuel (nxt h pos) head h))"

definition list_for_each :: "nat \<Rightarrow> 'a \<Rightarrow> 'a lheap \<Rightarrow> 'a list option" where
  "list_for_each fuel head h = list_walk fuel (nxt h head) head h"

section \<open>The list a heap represents\<close>

fun chain :: "'a lheap \<Rightarrow> 'a \<Rightarrow> 'a list \<Rightarrow> 'a \<Rightarrow> bool" where
  "chain h a [] b \<longleftrightarrow> nxt h a = b \<and> prv h b = a"
| "chain h a (x # xs) b \<longleftrightarrow> nxt h a = x \<and> prv h x = a \<and> chain h x xs b"

definition clist :: "'a lheap \<Rightarrow> 'a \<Rightarrow> 'a list \<Rightarrow> bool" where
  "clist h head xs \<longleftrightarrow> distinct (head # xs) \<and> chain h head xs head"

text \<open>Lists with pairwise different nodes that live in one heap, one per head of \<open>H\<close>.\<close>

definition family :: "('h \<Rightarrow> 'n \<Rightarrow> 'n list \<Rightarrow> bool) \<Rightarrow> 'h \<Rightarrow> 'n set \<Rightarrow> ('n \<Rightarrow> 'n list) \<Rightarrow> bool" where
  "family rep h H L \<longleftrightarrow>
     (\<forall>p\<in>H. rep h p (L p) \<and> set (L p) \<inter> H = {}) \<and>
     (\<forall>p\<in>H. \<forall>q\<in>H. p \<noteq> q \<longrightarrow> set (L p) \<inter> set (L q) = {})"

section \<open>Interface\<close>

text \<open>
  What a client may assume of intrusive lists: each operation's effect on its own list,
  and that it leaves a list with other nodes alone.
\<close>

locale intrusive_list =
  fixes rep :: "'h \<Rightarrow> 'n \<Rightarrow> 'n list \<Rightarrow> bool"
    and init :: "'n \<Rightarrow> 'h \<Rightarrow> 'h"
    and add :: "'n \<Rightarrow> 'n \<Rightarrow> 'h \<Rightarrow> 'h"
    and add_tail :: "'n \<Rightarrow> 'n \<Rightarrow> 'h \<Rightarrow> 'h"
    and del :: "'n \<Rightarrow> 'h \<Rightarrow> 'h"
    and emp :: "'n \<Rightarrow> 'h \<Rightarrow> bool"
    and first :: "'h \<Rightarrow> 'n \<Rightarrow> 'n"
  assumes rep_init: "rep (init p h) p []"
    and rep_add: "\<lbrakk>rep h p xs; x \<noteq> p; x \<notin> set xs\<rbrakk> \<Longrightarrow> rep (add x p h) p (x # xs)"
    and rep_add_tail: "\<lbrakk>rep h p xs; x \<noteq> p; x \<notin> set xs\<rbrakk> \<Longrightarrow> rep (add_tail x p h) p (xs @ [x])"
    and rep_del: "\<lbrakk>rep h p xs; x \<in> set xs\<rbrakk> \<Longrightarrow> rep (del x h) p (remove1 x xs)"
    and rep_empty: "rep h p xs \<Longrightarrow> emp p h \<longleftrightarrow> xs = []"
    and rep_first: "rep h p (x # xs) \<Longrightarrow> first h p = x"
    and rep_distinct: "rep h p xs \<Longrightarrow> distinct xs"
    and frame_init: "\<lbrakk>rep h p xs; q \<noteq> p; q \<notin> set xs\<rbrakk> \<Longrightarrow> rep (init q h) p xs"
    and frame_add: "\<lbrakk>rep h p xs; rep h q ys; p \<noteq> q; p \<notin> set ys; q \<notin> set xs; set xs \<inter> set ys = {};
                    x \<noteq> p; x \<notin> set xs\<rbrakk> \<Longrightarrow> rep (add x q h) p xs"
    and frame_add_tail: "\<lbrakk>rep h p xs; rep h q ys; p \<noteq> q; p \<notin> set ys; q \<notin> set xs; set xs \<inter> set ys = {};
                    x \<noteq> p; x \<notin> set xs\<rbrakk> \<Longrightarrow> rep (add_tail x q h) p xs"
    and frame_del: "\<lbrakk>rep h p xs; rep h q ys; p \<noteq> q; p \<notin> set ys; q \<notin> set xs; set xs \<inter> set ys = {};
                    x \<in> set ys\<rbrakk> \<Longrightarrow> rep (del x h) p xs"
begin

abbreviation fam :: "'h \<Rightarrow> 'n set \<Rightarrow> ('n \<Rightarrow> 'n list) \<Rightarrow> bool" where
  "fam \<equiv> family rep"

lemma fam_rep: "fam h H L \<Longrightarrow> p \<in> H \<Longrightarrow> rep h p (L p)"
  by (simp add: family_def)

lemma fam_head: "fam h H L \<Longrightarrow> p \<in> H \<Longrightarrow> q \<in> H \<Longrightarrow> p \<notin> set (L q)"
  by (auto simp: family_def)

lemma fam_disjoint: "fam h H L \<Longrightarrow> p \<in> H \<Longrightarrow> q \<in> H \<Longrightarrow> p \<noteq> q \<Longrightarrow> set (L p) \<inter> set (L q) = {}"
  by (simp add: family_def)

lemma fam_distinct: "fam h H L \<Longrightarrow> p \<in> H \<Longrightarrow> distinct (L p)"
  by (rule rep_distinct [OF fam_rep])

lemma fam_unique: "fam h H L \<Longrightarrow> p \<in> H \<Longrightarrow> q \<in> H \<Longrightarrow> x \<in> set (L p) \<Longrightarrow> x \<in> set (L q) \<Longrightarrow> p = q"
  using fam_disjoint by (fastforce simp: disjoint_iff)

lemma fam_emp: "fam h H L \<Longrightarrow> p \<in> H \<Longrightarrow> emp p h \<longleftrightarrow> L p = []"
  by (rule rep_empty [OF fam_rep])

lemma fam_first: "fam h H L \<Longrightarrow> p \<in> H \<Longrightarrow> L p = x # xs \<Longrightarrow> first h p = x"
  using fam_rep rep_first by metis

lemma fam_insert:
  assumes fam: "fam h H L" and p: "p \<in> H"
    and new: "rep h' p ys" "set ys \<subseteq> insert x (set (L p))" "x \<notin> H" "\<forall>q\<in>H. q \<noteq> p \<longrightarrow> x \<notin> set (L q)"
    and other: "\<And>q. \<lbrakk>q \<in> H; q \<noteq> p\<rbrakk> \<Longrightarrow> rep h' q (L q)"
  shows "fam h' H (L(p := ys))"
proof -
  have "set ys \<inter> H = {}" "\<And>q. \<lbrakk>q \<in> H; q \<noteq> p\<rbrakk> \<Longrightarrow> set ys \<inter> set (L q) = {}"
    using new fam_head [OF fam] fam_disjoint [OF fam p] p by blast+
  then show ?thesis
    using fam new(1) other unfolding family_def by (auto simp: Int_commute)
qed

lemma fam_frame_facts:
  assumes "fam h H L" "p \<in> H" "q \<in> H" "q \<noteq> p"
  shows "rep h q (L q)" "rep h p (L p)" "q \<noteq> p" "q \<notin> set (L p)" "p \<notin> set (L q)"
    "set (L q) \<inter> set (L p) = {}"
  using assms fam_rep fam_head fam_disjoint by auto

lemma fam_add:
  assumes "fam h H L" "p \<in> H" "x \<notin> H" "\<forall>q\<in>H. x \<notin> set (L q)"
  shows "fam (add x p h) H (L(p := x # L p))"
proof (rule fam_insert [OF assms(1,2)])
  show "rep (add x p h) p (x # L p)"
    using assms by (intro rep_add fam_rep [OF assms(1)]) auto
  show "rep (add x p h) q (L q)" if "q \<in> H" "q \<noteq> p" for q
    using fam_frame_facts [OF assms(1,2) that] by (rule frame_add) (use assms that in auto)
qed (use assms in auto)

lemma fam_add_tail:
  assumes "fam h H L" "p \<in> H" "x \<notin> H" "\<forall>q\<in>H. x \<notin> set (L q)"
  shows "fam (add_tail x p h) H (L(p := L p @ [x]))"
proof (rule fam_insert [OF assms(1,2)])
  show "rep (add_tail x p h) p (L p @ [x])"
    using assms by (intro rep_add_tail fam_rep [OF assms(1)]) auto
  show "rep (add_tail x p h) q (L q)" if "q \<in> H" "q \<noteq> p" for q
    using fam_frame_facts [OF assms(1,2) that] by (rule frame_add_tail) (use assms that in auto)
qed (use assms in auto)

lemma fam_del:
  assumes "fam h H L" "p \<in> H" "x \<in> set (L p)"
  shows "fam (del x h) H (L(p := remove1 x (L p)))"
proof (rule fam_insert [OF assms(1,2)])
  show "rep (del x h) p (remove1 x (L p))"
    using assms by (intro rep_del fam_rep [OF assms(1)]) auto
  show "rep (del x h) q (L q)" if "q \<in> H" "q \<noteq> p" for q
    using fam_frame_facts [OF assms(1,2) that] by (rule frame_del) (use assms that in auto)
  show "x \<notin> H" using assms fam_head by blast
  show "\<forall>q\<in>H. q \<noteq> p \<longrightarrow> x \<notin> set (L q)"
    using assms fam_unique by blast
  show "set (remove1 x (L p)) \<subseteq> insert x (set (L p))"
    using set_remove1_subset by fastforce
qed

text \<open>A freshly initialised head joins the family with an empty list.\<close>

lemma fam_init:
  assumes "fam h H L" "p \<notin> H" "\<forall>q\<in>H. p \<notin> set (L q)"
  shows "fam (init p h) (insert p H) (L(p := []))"
  using assms rep_init frame_init by (auto simp: family_def)

text \<open>Unlinking a node and appending it again moves it to the end of its queue.\<close>

lemma fam_move_tail:
  assumes "fam h H L" "p \<in> H" "x \<in> set (L p)"
  shows "fam (add_tail x p (del x h)) H (L(p := remove1 x (L p) @ [x]))"
proof -
  let ?L = "L(p := remove1 x (L p))"
  have d: "fam (del x h) H ?L" using assms by (rule fam_del)
  have "x \<notin> H" using assms fam_head by blast
  moreover have "\<forall>q\<in>H. x \<notin> set (?L q)"
    using assms fam_distinct [OF assms(1,2)] fam_unique [OF assms(1)] by auto
  ultimately have "fam (add_tail x p (del x h)) H (?L(p := ?L p @ [x]))"
    using fam_add_tail [OF d assms(2)] by blast
  then show ?thesis by simp
qed

end

section \<open>The pointer operations implement the interface\<close>

lemma chain_cong:
  "\<lbrakk>\<forall>y\<in>set (a # xs). nxt h' y = nxt h y; \<forall>y\<in>set (xs @ [b]). prv h' y = prv h y\<rbrakk>
   \<Longrightarrow> chain h' a xs b \<longleftrightarrow> chain h a xs b"
  by (induction xs arbitrary: a) auto

lemma chain_append:
  "chain h a (xs @ y # ys) b \<longleftrightarrow> chain h a xs y \<and> chain h y ys b"
  by (induction xs arbitrary: a) auto

lemma chain_first: "chain h a xs b \<Longrightarrow> nxt h a = (case xs of [] \<Rightarrow> b | x # _ \<Rightarrow> x)"
  by (cases xs) auto

lemma chain_last: "chain h a xs b \<Longrightarrow> prv h b = (if xs = [] then a else last xs)"
  by (induction xs arbitrary: a) auto

lemma chain_closed:
  "chain h a xs b \<Longrightarrow> (\<forall>y\<in>set (a # xs). nxt h y \<in> set (xs @ [b])) \<and> (\<forall>y\<in>set (xs @ [b]). prv h y \<in> set (a # xs))"
  by (induction xs arbitrary: a) auto

lemma clist_closed:
  assumes "clist h p xs" "y \<in> set (p # xs)"
  shows "nxt h y \<in> set (p # xs)" "prv h y \<in> set (p # xs)"
  using assms chain_closed [of h p xs p] by (auto simp: clist_def)

lemma clist_cong:
  assumes "clist h p xs" "\<forall>y\<in>set (p # xs). nxt h' y = nxt h y \<and> prv h' y = prv h y"
  shows "clist h' p xs"
  using assms chain_cong [of p xs h' h p] by (auto simp: clist_def)

lemmas list_ops_def = list_add_def list_add_tail_def list_del_def list_add_raw_def
  list_del_raw_def INIT_LIST_HEAD_def Let_def

lemma clist_init: "clist (INIT_LIST_HEAD p h) p []"
  by (simp add: clist_def INIT_LIST_HEAD_def)

lemma clist_list_add:
  assumes "clist h p xs" "x \<noteq> p" "x \<notin> set xs"
  shows "clist (list_add x p h) p (x # xs)"
proof (cases xs)
  case Nil
  then show ?thesis using assms by (auto simp: clist_def list_ops_def)
next
  case (Cons y ys)
  have "chain (list_add x p h) y ys p \<longleftrightarrow> chain h y ys p"
    using assms Cons by (intro chain_cong) (auto simp: clist_def list_ops_def)
  then show ?thesis using assms Cons by (auto simp: clist_def list_ops_def)
qed

lemma clist_list_add_tail:
  assumes "clist h p xs" "x \<noteq> p" "x \<notin> set xs"
  shows "clist (list_add_tail x p h) p (xs @ [x])"
proof (cases xs rule: rev_cases)
  case Nil
  then show ?thesis using assms by (auto simp: clist_def list_ops_def)
next
  case (snoc ys y)
  have c: "chain h p ys y" "prv h p = y"
    using assms(1) snoc by (auto simp: clist_def chain_append)
  have "chain (list_add_tail x p h) p ys y \<longleftrightarrow> chain h p ys y"
    using assms snoc c by (intro chain_cong) (auto simp: clist_def list_ops_def)
  then show ?thesis using assms snoc c by (auto simp: clist_def list_ops_def chain_append)
qed

lemma clist_list_del:
  assumes "clist h p xs" "x \<in> set xs"
  shows "clist (list_del x h) p (remove1 x xs)"
proof -
  obtain ys zs where xs: "xs = ys @ x # zs" "x \<notin> set ys" using assms(2) by (meson split_list_first)
  have c: "chain h p ys x" "chain h x zs p" and d: "distinct (p # ys @ x # zs)"
    using assms(1) xs by (auto simp: clist_def chain_append)
  have r: "remove1 x xs = ys @ zs" using xs by (simp add: remove1_append)
  let ?h = "list_del x h"
  have "chain ?h p (ys @ zs) p"
  proof (cases zs)
    case Nil
    show ?thesis
    proof (cases ys rule: rev_cases)
      case Nil
      then show ?thesis using \<open>zs = []\<close> c d by (auto simp: list_ops_def)
    next
      case (snoc us u)
      have "chain ?h p us u \<longleftrightarrow> chain h p us u"
        using snoc Nil c d by (intro chain_cong) (auto simp: list_ops_def chain_append)
      then show ?thesis using snoc Nil c d by (auto simp: list_ops_def chain_append)
    qed
  next
    case (Cons w ws)
    have right: "chain ?h w ws p \<longleftrightarrow> chain h w ws p"
      using Cons c d chain_closed [OF c(1)] by (intro chain_cong) (auto simp: list_ops_def)
    show ?thesis
    proof (cases ys rule: rev_cases)
      case Nil
      then show ?thesis using right Cons c d by (auto simp: list_ops_def)
    next
      case (snoc us u)
      have "chain ?h p us u \<longleftrightarrow> chain h p us u"
        using snoc Cons c d by (intro chain_cong) (auto simp: list_ops_def chain_append)
      then show ?thesis using right snoc Cons c d by (auto simp: list_ops_def chain_append)
    qed
  qed
  then show ?thesis using d r by (simp add: clist_def)
qed

lemma clist_frame:
  assumes "clist h p xs" "clist h q ys" "p \<noteq> q" "p \<notin> set ys" "q \<notin> set xs" "set xs \<inter> set ys = {}"
  shows "x \<noteq> p \<Longrightarrow> x \<notin> set xs \<Longrightarrow> clist (list_add x q h) p xs"
    and "x \<noteq> p \<Longrightarrow> x \<notin> set xs \<Longrightarrow> clist (list_add_tail x q h) p xs"
    and "x \<in> set ys \<Longrightarrow> clist (list_del x h) p xs"
proof -
  have apart: "\<forall>y\<in>set (q # ys). y \<notin> set (p # xs)" using assms by auto
  note cl = clist_closed [OF assms(2)]
  show "clist (list_add x q h) p xs" if "x \<noteq> p" "x \<notin> set xs"
    by (rule clist_cong [OF assms(1)])
      (use that apart cl [of q] in \<open>auto simp: list_ops_def\<close>)
  show "clist (list_add_tail x q h) p xs" if "x \<noteq> p" "x \<notin> set xs"
    by (rule clist_cong [OF assms(1)])
      (use that apart cl [of q] in \<open>auto simp: list_ops_def\<close>)
  show "clist (list_del x h) p xs" if "x \<in> set ys"
    by (rule clist_cong [OF assms(1)])
      (use that apart cl [of x] in \<open>auto simp: list_ops_def\<close>)
qed

interpretation kl: intrusive_list clist INIT_LIST_HEAD list_add list_add_tail list_del list_empty nxt
proof unfold_locales
  show "clist h p xs \<Longrightarrow> list_empty p h \<longleftrightarrow> xs = []" for h p xs
    by (cases xs) (auto simp: clist_def list_empty_def)
  show "clist h p xs \<Longrightarrow> q \<noteq> p \<Longrightarrow> q \<notin> set xs \<Longrightarrow> clist (INIT_LIST_HEAD q h) p xs" for h p xs q
    by (erule clist_cong) (auto simp: list_ops_def)
qed (auto simp: clist_init clist_list_add clist_list_add_tail clist_list_del clist_frame, auto simp: clist_def)

text \<open>The walk of \<^verbatim>\<open>list_for_each\<close> visits exactly the represented list.\<close>

lemma list_walk_chain:
  "\<lbrakk>chain h a xs b; b \<notin> set xs; length xs < fuel\<rbrakk> \<Longrightarrow> list_walk fuel (nxt h a) b h = Some xs"
proof (induction xs arbitrary: a fuel)
  case Nil
  then show ?case by (cases fuel) auto
next
  case (Cons x xs)
  then show ?case by (cases fuel) auto
qed

end
