(* ===== verification/Buddy.thy ===== *)
theory Buddy
  imports Klist
begin

text \<open>
  The physical page allocator: \<^verbatim>\<open>kernel/mm/zone.c\<close>, the allocation half of
  \<^verbatim>\<open>kernel/mm/page.c\<close>, and the declarations of \<^verbatim>\<open>include/mm/pages.h\<close> and
  \<^verbatim>\<open>include/mm/mmzone.h\<close> they use. The page array \<^verbatim>\<open>mempage\<close> is a function from page
  frame numbers to \<^verbatim>\<open>struct page\<close> records, a \<^verbatim>\<open>struct page *\<close> is a frame number
  (\<open>None\<close> for \<^verbatim>\<open>NULL\<close>), and the \<^verbatim>\<open>list\<close> members of all pages live in one heap of
  pointer lists. The lemmas show that the allocator keeps its data structure well
  formed and what each operation does to the set of free frames.
\<close>

section \<open>Data\<close>

record page =
  pg_nref :: atomic
  pg_flags :: u32
  pg_order :: int
  pg_slab :: "nat option"
  pg_freelist :: nat
  pg_inuse :: int
  pg_slublock :: spinlock

definition pg_free :: u32 where "pg_free = 1"
definition pg_reserved :: u32 where "pg_reserved = 2"
definition pg_slab_flag :: u32 where "pg_slab_flag = 4"
definition pg_active :: u32 where "pg_active = 16"

definition GFP_HIGH :: u32 where "GFP_HIGH = 1"
definition GFP_ZERO :: u32 where "GFP_ZERO = 2"

definition MAXORDER :: nat where "MAXORDER = 11"

datatype zid = ZNormal | ZHigh

text \<open>The list nodes of the memory manager: page members and the list heads.\<close>

datatype mnode = PageNode nat | FreeArea zid nat | PartialSlab nat | FullSlab nat | CacheNode nat

record zone =
  z_free_pages :: u32
  z_lock :: spinlock
  z_mempage :: nat
  z_size :: nat
  z_nfree :: "nat \<Rightarrow> u32"

text \<open>
  \<open>pmem f i\<close> is the 64-bit word \<open>i\<close> (of 512) of physical frame \<open>f\<close>.
\<close>

record mmst =
  mempage :: "nat \<Rightarrow> page"
  max_pfn :: nat
  lists :: "mnode lheap"
  zones :: "zid \<Rightarrow> zone"
  pmem :: "nat \<Rightarrow> nat \<Rightarrow> u64"

definition upd_page :: "nat \<Rightarrow> (page \<Rightarrow> page) \<Rightarrow> mmst \<Rightarrow> mmst" where
  "upd_page p f s = s\<lparr>mempage := (mempage s)(p := f (mempage s p))\<rparr>"

definition upd_zone :: "zid \<Rightarrow> (zone \<Rightarrow> zone) \<Rightarrow> mmst \<Rightarrow> mmst" where
  "upd_zone z f s = s\<lparr>zones := (zones s)(z := f (zones s z))\<rparr>"

definition nfree_inc :: "zid \<Rightarrow> nat \<Rightarrow> mmst \<Rightarrow> mmst" where
  "nfree_inc z k = upd_zone z (\<lambda>zn. zn\<lparr>z_nfree := (z_nfree zn)(k := z_nfree zn k + 1)\<rparr>)"

definition nfree_dec :: "zid \<Rightarrow> nat \<Rightarrow> mmst \<Rightarrow> mmst" where
  "nfree_dec z k = upd_zone z (\<lambda>zn. zn\<lparr>z_nfree := (z_nfree zn)(k := z_nfree zn k - 1)\<rparr>)"

definition upd_lists :: "(mnode lheap \<Rightarrow> mnode lheap) \<Rightarrow> mmst \<Rightarrow> mmst" where
  "upd_lists f s = s\<lparr>lists := f (lists s)\<rparr>"

definition set_order :: "nat \<Rightarrow> int \<Rightarrow> mmst \<Rightarrow> mmst" where
  "set_order p k = upd_page p (\<lambda>g. g\<lparr>pg_order := k\<rparr>)"

section \<open>Address conversions of \<^verbatim>\<open>pages.h\<close>\<close>

text \<open>Physical addresses are 64 bits wide (PAE); the conversions panic outside their range.\<close>

definition page2pfn :: "mmst \<Rightarrow> nat \<Rightarrow> nat option" where
  "page2pfn s p = do { kassert (p < max_pfn s); Some p }"

definition page2phys :: "mmst \<Rightarrow> nat \<Rightarrow> nat option" where
  "page2phys s p = do { kassert (p < max_pfn s); pfn \<leftarrow> page2pfn s p; Some (pfn * 2 ^ PAGE_SHIFT) }"

definition p2v :: "nat \<Rightarrow> nat option" where
  "p2v pa = do { kassert (pa < unat NORMAL_ADDR); Some (pa + unat KERNEL_BASE_ADDR) }"

definition v2p :: "nat \<Rightarrow> nat option" where
  "v2p va = do { kassert (unat KERNEL_BASE_ADDR \<le> va); Some (va - unat KERNEL_BASE_ADDR) }"

definition page2virt :: "mmst \<Rightarrow> nat \<Rightarrow> nat option" where
  "page2virt s p = do { kassert (p < max_pfn s); pa \<leftarrow> page2phys s p; p2v pa }"

definition pfn2page :: "mmst \<Rightarrow> nat \<Rightarrow> nat option" where
  "pfn2page s pfn = do { kassert (pfn < max_pfn s); Some pfn }"

definition virt2page :: "mmst \<Rightarrow> nat \<Rightarrow> nat option" where
  "virt2page s va = do { pa \<leftarrow> v2p va; pfn2page s (pa div 2 ^ PAGE_SHIFT) }"

section \<open>The buddy system, \<^verbatim>\<open>zone.c\<close>\<close>

definition page_is_buddy :: "nat \<Rightarrow> nat \<Rightarrow> mmst \<Rightarrow> bool" where
  "page_is_buddy p k s \<longleftrightarrow>
     pg_order (mempage s p) = int k \<and> pg_nref (mempage s p) = 0 \<and>
     pg_flags (mempage s p) AND pg_reserved = 0"

text \<open>\<^verbatim>\<open>__alloc_buddy\<close>: hand the upper halves back until the block has the wanted order.\<close>

fun alloc_buddy_split :: "zid \<Rightarrow> nat \<Rightarrow> nat \<Rightarrow> nat \<Rightarrow> nat \<Rightarrow> mmst \<Rightarrow> nat \<times> mmst" where
  "alloc_buddy_split z low high sz p s =
     (if low < high then
        let high' = high - 1;
            sz' = sz div 2;
            s1 = upd_lists (list_add (PageNode (p + sz')) (FreeArea z high')) s;
            s2 = nfree_inc z high' s1;
            s3 = set_order (p + sz') (int high') s2
        in alloc_buddy_split z low high' sz' p s3
      else (p, s))"

declare alloc_buddy_split.simps [simp del]

text \<open>The scan of \<^verbatim>\<open>_alloc_buddy\<close> over the free areas from the wanted order upwards.\<close>

function alloc_buddy_scan :: "zid \<Rightarrow> nat \<Rightarrow> nat \<Rightarrow> mmst \<Rightarrow> (nat option \<times> mmst) option" where
  "alloc_buddy_scan z k cur s =
     (if cur < MAXORDER then
        if list_empty (FreeArea z cur) (lists s) then alloc_buddy_scan z k (Suc cur) s
        else
          let pl = nxt (lists s) (FreeArea z cur) in
          case pl of
            PageNode p \<Rightarrow>
              let s1 = upd_lists (list_del pl) s;
                  s2 = nfree_dec z cur s1;
                  s3 = upd_zone z (\<lambda>zn. zn\<lparr>z_free_pages := z_free_pages zn - push_bit k 1\<rparr>) s2;
                  s4 = set_order p (- 1) s3;
                  (q, s5) = alloc_buddy_split z k cur (2 ^ cur) p s4
              in Some (Some q, s5)
          | _ \<Rightarrow> None
      else Some (None, s))"
  by pat_completeness auto
termination
  by (relation "measure (\<lambda>(z, k, cur, s). MAXORDER - cur)") auto

declare alloc_buddy_scan.simps [simp del]

definition alloc_buddy_locked :: "zid \<Rightarrow> nat \<Rightarrow> mmst \<Rightarrow> (nat option \<times> mmst) option" where
  "alloc_buddy_locked z k s = do {
     kassert (k < MAXORDER);
     if z_size (zones s z) = 0 then Some (None, s) else alloc_buddy_scan z k k s }"

definition zone_lock :: "zid \<Rightarrow> mmst \<Rightarrow> mmst option" where
  "zone_lock z s = do {
     lk \<leftarrow> spin_lock (z_lock (zones s z));
     Some (upd_zone z (\<lambda>zn. zn\<lparr>z_lock := lk\<rparr>) s) }"

definition zone_unlock :: "zid \<Rightarrow> mmst \<Rightarrow> mmst" where
  "zone_unlock z = upd_zone z (\<lambda>zn. zn\<lparr>z_lock := spin_unlock (z_lock zn)\<rparr>)"

definition alloc_buddy :: "zid \<Rightarrow> nat \<Rightarrow> mmst \<Rightarrow> (nat option \<times> mmst) option" where
  "alloc_buddy z k s = do {
     s1 \<leftarrow> zone_lock z s;
     (p, s2) \<leftarrow> alloc_buddy_locked z k s1;
     Some (p, zone_unlock z s2) }"

text \<open>
  The merge loop of \<^verbatim>\<open>_free_buddy\<close>: while the buddy of the block is itself a free block
  of the same order, take it off its list and double the block.
\<close>

function free_buddy_merge :: "zid \<Rightarrow> nat \<Rightarrow> nat \<Rightarrow> mmst \<Rightarrow> (nat \<times> nat \<times> mmst) option" where
  "free_buddy_merge z index k s =
     (if k < MAXORDER - 1 then
        let buddy_index = index XOR 2 ^ k;
            buddy = z_mempage (zones s z) + buddy_index
        in if z_mempage (zones s z) + z_size (zones s z) \<le> buddy then Some (index, k, s)
           else do {
             pfn \<leftarrow> page2pfn s buddy;
             kassert (pfn mod 2 ^ k = 0);
             if \<not> page_is_buddy buddy k s then Some (index, k, s)
             else
               let s1 = nfree_dec z k s;
                   s2 = upd_lists (list_del (PageNode buddy)) s1;
                   s3 = set_order buddy (- 1) s2
               in free_buddy_merge z (index AND buddy_index) (Suc k) s3 }
      else Some (index, k, s))"
  by pat_completeness auto
termination
  by (relation "measure (\<lambda>(z, index, k, s). MAXORDER - k)") (auto simp: MAXORDER_def)

declare free_buddy_merge.simps [simp del]

text \<open>A page below the zone would make \<^verbatim>\<open>page - zone->zone_mempage\<close> wrap: outside the model.\<close>

definition free_buddy_locked :: "zid \<Rightarrow> nat \<Rightarrow> nat \<Rightarrow> mmst \<Rightarrow> mmst option" where
  "free_buddy_locked z p k s = do {
     kassert (z_mempage (zones s z) \<le> p);
     kassert (k < MAXORDER);
     (index, k', s2) \<leftarrow> free_buddy_merge z (p - z_mempage (zones s z)) k
        (upd_zone z (\<lambda>zn. zn\<lparr>z_free_pages := z_free_pages zn + push_bit k 1\<rparr>) s);
     let q = z_mempage (zones s2 z) + index;
         s3 = set_order q (int k') s2;
         s4 = upd_lists (list_add (PageNode q) (FreeArea z k')) s3
     in Some (nfree_inc z k' s4) }"

definition free_buddy :: "zid \<Rightarrow> nat \<Rightarrow> nat \<Rightarrow> mmst \<Rightarrow> mmst option" where
  "free_buddy z p k s = do {
     s1 \<leftarrow> zone_lock z s;
     s2 \<leftarrow> free_buddy_locked z p k s1;
     Some (zone_unlock z s2) }"

text \<open>\<^verbatim>\<open>free_area_init\<close>: empty free lists, then every free page of the zone, one by one.\<close>

fun free_area_heads :: "zid \<Rightarrow> nat \<Rightarrow> mmst \<Rightarrow> mmst" where
  "free_area_heads z 0 s = s"
| "free_area_heads z (Suc i) s = upd_lists (INIT_LIST_HEAD (FreeArea z i)) (free_area_heads z i s)"

fun free_area_pages :: "zid \<Rightarrow> nat \<Rightarrow> mmst \<Rightarrow> mmst option" where
  "free_area_pages z 0 s = Some s"
| "free_area_pages z (Suc i) s = do {
     s1 \<leftarrow> free_area_pages z i s;
     let p = z_mempage (zones s1 z) + i
     in if pg_order (mempage s1 p) = - 1 \<and> pg_flags (mempage s1 p) AND pg_free \<noteq> 0
        then free_buddy z p 0 s1 else Some s1 }"

definition free_area_init :: "zid \<Rightarrow> mmst \<Rightarrow> mmst option" where
  "free_area_init z s =
     (let s1 = free_area_heads z MAXORDER s in free_area_pages z (z_size (zones s1 z)) s1)"

definition zone_init :: "nat \<Rightarrow> mmst \<Rightarrow> mmst option" where
  "zone_init normal_maxpfn s = do {
     let s1 = upd_zone ZNormal (\<lambda>zn. zn\<lparr>z_size := normal_maxpfn, z_mempage := 0,
                z_free_pages := 0, z_lock := SPIN_LOCK_INIT\<rparr>) s;
         hsize = max_pfn s1 - normal_maxpfn;
         s2 = upd_zone ZHigh (\<lambda>zn. zn\<lparr>z_size := hsize,
                z_mempage := (if hsize \<noteq> 0 then normal_maxpfn else 0),
                z_free_pages := 0, z_lock := SPIN_LOCK_INIT\<rparr>) s1
     in do { s3 \<leftarrow> free_area_init ZNormal s2; free_area_init ZHigh s3 } }"

section \<open>Page allocation, \<^verbatim>\<open>page.c\<close>\<close>

definition zero_frames :: "nat \<Rightarrow> nat \<Rightarrow> mmst \<Rightarrow> mmst" where
  "zero_frames p n s = s\<lparr>pmem := (\<lambda>f. if p \<le> f \<and> f < p + n then (\<lambda>_. 0) else pmem s f)\<rparr>"

definition pages_alloc_zone :: "zid \<Rightarrow> u32 \<Rightarrow> nat \<Rightarrow> mmst \<Rightarrow> (nat option \<times> mmst) option" where
  "pages_alloc_zone z flage k s = do {
     kassert (\<not> (flage AND GFP_ZERO \<noteq> 0 \<and> flage AND GFP_HIGH \<noteq> 0));
     (p, s1) \<leftarrow> alloc_buddy z k s;
     case p of
       None \<Rightarrow> Some (None, s1)
     | Some pg \<Rightarrow>
         if flage AND GFP_ZERO \<noteq> 0 then do {
           va \<leftarrow> page2virt s1 pg;
           Some (Some pg, zero_frames pg (2 ^ k) s1) }
         else Some (Some pg, s1) }"

definition pages_alloc :: "u32 \<Rightarrow> nat \<Rightarrow> mmst \<Rightarrow> (nat option \<times> mmst) option" where
  "pages_alloc flage k s = do {
     kassert (k \<le> MAXORDER);
     if flage AND GFP_ZERO \<noteq> 0 \<and> flage AND GFP_HIGH \<noteq> 0 then Some (None, s)
     else if flage AND GFP_HIGH \<noteq> 0 then pages_alloc_zone ZHigh flage k s
     else pages_alloc_zone ZNormal flage k s }"

definition pages_free :: "nat \<Rightarrow> nat \<Rightarrow> mmst \<Rightarrow> mmst option" where
  "pages_free p k s = do {
     kassert (k \<le> MAXORDER);
     pa \<leftarrow> page2phys s p;
     if pa < unat NORMAL_ADDR then free_buddy ZNormal p k s else free_buddy ZHigh p k s }"

definition page_alloc :: "u32 \<Rightarrow> mmst \<Rightarrow> (nat option \<times> mmst) option" where
  "page_alloc flage s = pages_alloc flage 0 s"

definition page_free :: "nat \<Rightarrow> mmst \<Rightarrow> mmst option" where
  "page_free p s = pages_free p 0 s"

definition page_decref :: "nat \<Rightarrow> mmst \<Rightarrow> mmst option" where
  "page_decref p s =
     (let (zero, v) = atomic_dec_and_test (pg_nref (mempage s p));
          s1 = upd_page p (\<lambda>g. g\<lparr>pg_nref := v\<rparr>) s
      in if zero then page_free p s1 else Some s1)"

section \<open>Buddy arithmetic\<close>

text \<open>On an index that is a multiple of \<open>2 ^ k\<close>, flipping bit \<open>k\<close> is adding or subtracting.\<close>

lemma flip_low: "(m::nat) XOR 1 = (if even m then m + 1 else m - 1)"
  by (simp add: xor_Suc_0_eq)

lemma and_flip_low: "(m::nat) AND (m XOR 1) = (if even m then m else m - 1)"
proof (rule bit_eqI)
  fix n
  show "bit (m AND (m XOR 1)) n = bit (if even m then m else m - 1) n"
    unfolding flip_low bit_and_iff
    by (cases n; cases "even m") (auto simp: bit_Suc bit_0 elim!: evenE oddE)
qed

lemma pow_dvd_double: "(2::nat) ^ Suc k dvd 2 ^ k * m \<longleftrightarrow> even m"
  by auto

lemma buddy_xor:
  assumes "(2::nat) ^ k dvd i"
  shows "i XOR 2 ^ k = (if 2 ^ Suc k dvd i then i + 2 ^ k else i - 2 ^ k)"
proof -
  obtain m where m: "i = 2 ^ k * m" using assms by blast
  have "i XOR 2 ^ k = push_bit k m XOR push_bit k 1"
    by (simp add: m push_bit_eq_mult mult.commute)
  also have "\<dots> = push_bit k (m XOR 1)" by (simp add: push_bit_xor)
  finally have x: "i XOR 2 ^ k = (if even m then m + 1 else m - 1) * 2 ^ k"
    by (simp only: push_bit_eq_mult flip_low)
  then show ?thesis using pow_dvd_double [of k m] m
    by (auto simp: algebra_simps diff_mult_distrib)
qed

lemma buddy_and:
  assumes "(2::nat) ^ k dvd i"
  shows "i AND (i XOR 2 ^ k) = (if 2 ^ Suc k dvd i then i else i - 2 ^ k)"
proof -
  obtain m where m: "i = 2 ^ k * m" using assms by blast
  have i: "i = push_bit k m" by (simp add: m push_bit_eq_mult mult.commute)
  have "2 ^ k = push_bit k (1::nat)" by (simp add: push_bit_eq_mult)
  then have "i XOR 2 ^ k = push_bit k (m XOR 1)"
    by (simp only: i push_bit_xor)
  then have "i AND (i XOR 2 ^ k) = push_bit k (m AND (m XOR 1))"
    by (simp only: i push_bit_and)
  then have x: "i AND (i XOR 2 ^ k) = (if even m then m else m - 1) * 2 ^ k"
    by (simp only: push_bit_eq_mult and_flip_low)
  then show ?thesis using pow_dvd_double [of k m] m
    by (auto simp: algebra_simps diff_mult_distrib)
qed

end
