(* ===== verification/Buddy_Inv.thy ===== *)
theory Buddy_Inv
  imports Buddy
begin

text \<open>
  The invariant of the buddy allocator and its preservation. \<open>bcore\<close> relates the three
  views the code keeps of a free block (the \<^verbatim>\<open>order\<close> field of its first page, its node on
  a free list, and the counter of that list) and says that free blocks are aligned,
  inside their zone and pairwise disjoint. \<open>binv\<close> adds the frame counter of the zone and
  that no two free buddies are left unmerged.
\<close>

section \<open>Invariant\<close>

definition in_zone :: "mmst \<Rightarrow> zid \<Rightarrow> nat \<Rightarrow> bool" where
  "in_zone s z p \<longleftrightarrow> z_mempage (zones s z) \<le> p \<and> p < z_mempage (zones s z) + z_size (zones s z)"

definition free_head :: "mmst \<Rightarrow> zid \<Rightarrow> nat \<Rightarrow> nat \<Rightarrow> bool" where
  "free_head s z p k \<longleftrightarrow> in_zone s z p \<and> pg_order (mempage s p) = int k"

definition block :: "nat \<Rightarrow> nat \<Rightarrow> nat set" where
  "block p k = {p..<p + 2 ^ k}"

definition free_frames :: "mmst \<Rightarrow> zid \<Rightarrow> nat set" where
  "free_frames s z = {f. \<exists>p k. free_head s z p k \<and> f \<in> block p k}"

definition blk_ok :: "mmst \<Rightarrow> zid \<Rightarrow> nat \<Rightarrow> nat \<Rightarrow> bool" where
  "blk_ok s z p k \<longleftrightarrow>
     k < MAXORDER \<and> z_mempage (zones s z) \<le> p \<and>
     p + 2 ^ k \<le> z_mempage (zones s z) + z_size (zones s z) \<and>
     2 ^ k dvd p - z_mempage (zones s z)"

definition clean :: "mmst \<Rightarrow> nat \<Rightarrow> bool" where
  "clean s p \<longleftrightarrow> pg_nref (mempage s p) = 0 \<and> pg_flags (mempage s p) AND pg_reserved = 0"

definition fa_heads :: "zid set \<Rightarrow> mnode set" where
  "fa_heads Zs = {FreeArea z k | z k. z \<in> Zs \<and> k < MAXORDER}"

definition zones_ok :: "zid set \<Rightarrow> mmst \<Rightarrow> bool" where
  "zones_ok Zs s \<longleftrightarrow>
     (\<forall>z\<in>Zs. z_mempage (zones s z) + z_size (zones s z) \<le> max_pfn s \<and>
              2 ^ (MAXORDER - 1) dvd z_mempage (zones s z)) \<and>
     (\<forall>z z' p. in_zone s z p \<longrightarrow> in_zone s z' p \<longrightarrow> z = z')"

text \<open>No page of \<open>F\<close> is on a list of \<open>H\<close> other than the free lists.\<close>

definition unlisted :: "zid set \<Rightarrow> mnode set \<Rightarrow> (mnode \<Rightarrow> mnode list) \<Rightarrow> nat set \<Rightarrow> bool" where
  "unlisted Zs H L F \<longleftrightarrow> (\<forall>q\<in>H - fa_heads Zs. \<forall>p\<in>F. PageNode p \<notin> set (L q))"

definition bcore :: "zid set \<Rightarrow> mnode set \<Rightarrow> (mnode \<Rightarrow> mnode list) \<Rightarrow> mmst \<Rightarrow> bool" where
  "bcore Zs H L s \<longleftrightarrow>
     zones_ok Zs s \<and> family clist (lists s) H L \<and> fa_heads Zs \<subseteq> H \<and> (\<forall>p. PageNode p \<notin> H) \<and>
     (\<forall>z\<in>Zs. \<forall>k<MAXORDER. set (L (FreeArea z k)) = PageNode ` {p. free_head s z p k} \<and>
        z_nfree (zones s z) k = of_nat (length (L (FreeArea z k)))) \<and>
     (\<forall>z\<in>Zs. \<forall>p k. free_head s z p k \<longrightarrow> blk_ok s z p k \<and> (\<forall>q\<in>block p k. clean s q)) \<and>
     (\<forall>z\<in>Zs. \<forall>p k q j. free_head s z p k \<longrightarrow> free_head s z q j \<longrightarrow> p \<noteq> q \<longrightarrow>
        block p k \<inter> block q j = {}) \<and>
     (\<forall>z\<in>Zs. unlisted Zs H L (free_frames s z)) \<and>
     (\<forall>z\<in>Zs. \<forall>p. in_zone s z p \<longrightarrow> - 1 \<le> pg_order (mempage s p))"

definition coalesced :: "mmst \<Rightarrow> zid \<Rightarrow> bool" where
  "coalesced s z \<longleftrightarrow>
     (\<forall>p k. free_head s z p k \<longrightarrow> k < MAXORDER - 1 \<longrightarrow>
        \<not> free_head s z (z_mempage (zones s z) + ((p - z_mempage (zones s z)) XOR 2 ^ k)) k)"

definition binv :: "zid set \<Rightarrow> mnode set \<Rightarrow> (mnode \<Rightarrow> mnode list) \<Rightarrow> mmst \<Rightarrow> bool" where
  "binv Zs H L s \<longleftrightarrow> bcore Zs H L s \<and>
     (\<forall>z\<in>Zs. z_lock (zones s z) = 0 \<and> coalesced s z \<and>
        z_free_pages (zones s z) = of_nat (card (free_frames s z)))"

text \<open>What the allocator never touches: everything but orders, lists and counters.\<close>

definition same_shape :: "mmst \<Rightarrow> mmst \<Rightarrow> bool" where
  "same_shape s s' \<longleftrightarrow>
     max_pfn s' = max_pfn s \<and> pmem s' = pmem s \<and>
     (\<forall>z. z_mempage (zones s' z) = z_mempage (zones s z) \<and> z_size (zones s' z) = z_size (zones s z)) \<and>
     (\<forall>p. (mempage s' p)\<lparr>pg_order := 0\<rparr> = (mempage s p)\<lparr>pg_order := 0\<rparr>)"

definition same_off :: "zid set \<Rightarrow> (mnode \<Rightarrow> mnode list) \<Rightarrow> (mnode \<Rightarrow> mnode list) \<Rightarrow> bool" where
  "same_off Zs L L' \<longleftrightarrow> (\<forall>q. q \<notin> fa_heads Zs \<longrightarrow> L' q = L q)"

definition same_ctl :: "mmst \<Rightarrow> mmst \<Rightarrow> bool" where
  "same_ctl s s' \<longleftrightarrow> (\<forall>z. z_lock (zones s' z) = z_lock (zones s z) \<and>
                         z_free_pages (zones s' z) = z_free_pages (zones s z))"

definition only_zone :: "zid \<Rightarrow> mmst \<Rightarrow> mmst \<Rightarrow> bool" where
  "only_zone z s s' \<longleftrightarrow>
     (\<forall>p. \<not> in_zone s z p \<longrightarrow> mempage s' p = mempage s p) \<and> (\<forall>z'. z' \<noteq> z \<longrightarrow> zones s' z' = zones s z')"

definition ctl_eq :: "mmst \<Rightarrow> mmst \<Rightarrow> bool" where
  "ctl_eq s s' \<longleftrightarrow>
     max_pfn s' = max_pfn s \<and> pmem s' = pmem s \<and> lists s' = lists s \<and> mempage s' = mempage s \<and>
     (\<forall>z. z_mempage (zones s' z) = z_mempage (zones s z) \<and> z_size (zones s' z) = z_size (zones s z) \<and>
          z_nfree (zones s' z) = z_nfree (zones s z))"

text \<open>The outcome of taking the block of order \<open>k\<close> at page \<open>p\<close> out of zone \<open>z\<close>.\<close>

definition taken :: "zid set \<Rightarrow> mnode set \<Rightarrow> (mnode \<Rightarrow> mnode list) \<Rightarrow> zid \<Rightarrow> nat \<Rightarrow> nat \<Rightarrow>
    mmst \<Rightarrow> mmst \<Rightarrow> (mnode \<Rightarrow> mnode list) \<Rightarrow> bool" where
  "taken Zs H L z k p s s' L' \<longleftrightarrow>
     bcore Zs H L' s' \<and> same_off Zs L L' \<and> same_shape s s' \<and> blk_ok s z p k \<and>
     block p k \<subseteq> free_frames s z \<and> (\<forall>z\<in>Zs. coalesced s' z) \<and>
     (\<forall>z'. free_frames s' z' = (if z' = z then free_frames s z - block p k else free_frames s z')) \<and>
     (\<forall>z'. z_lock (zones s' z') = z_lock (zones s z') \<and> z_free_pages (zones s' z') =
        (if z' = z then z_free_pages (zones s z) - push_bit k 1 else z_free_pages (zones s z')))"

text \<open>The two elementary moves: a block leaves its free list, a block enters one.\<close>

definition unlink_block :: "zid \<Rightarrow> nat \<Rightarrow> nat \<Rightarrow> mmst \<Rightarrow> mmst" where
  "unlink_block z p k s = set_order p (- 1) (upd_lists (list_del (PageNode p)) (nfree_dec z k s))"

definition link_block :: "zid \<Rightarrow> nat \<Rightarrow> nat \<Rightarrow> mmst \<Rightarrow> mmst" where
  "link_block z p k s =
     nfree_inc z k (upd_lists (list_add (PageNode p) (FreeArea z k)) (set_order p (int k) s))"

section \<open>Elementary facts\<close>

lemmas mm_upd_defs = upd_page_def upd_zone_def upd_lists_def set_order_def nfree_inc_def nfree_dec_def

lemma link_block_sel [simp]:
  "max_pfn (link_block z p k s) = max_pfn s"
  "pmem (link_block z p k s) = pmem s"
  "lists (link_block z p k s) = list_add (PageNode p) (FreeArea z k) (lists s)"
  "mempage (link_block z p k s) = (mempage s)(p := (mempage s p)\<lparr>pg_order := int k\<rparr>)"
  "z_mempage (zones (link_block z p k s) z') = z_mempage (zones s z')"
  "z_size (zones (link_block z p k s) z') = z_size (zones s z')"
  "z_lock (zones (link_block z p k s) z') = z_lock (zones s z')"
  "z_free_pages (zones (link_block z p k s) z') = z_free_pages (zones s z')"
  "z_nfree (zones (link_block z p k s) z') j =
     (if z' = z \<and> j = k then z_nfree (zones s z') j + 1 else z_nfree (zones s z') j)"
  by (auto simp: link_block_def mm_upd_defs)

lemma unlink_block_sel [simp]:
  "max_pfn (unlink_block z p k s) = max_pfn s"
  "pmem (unlink_block z p k s) = pmem s"
  "lists (unlink_block z p k s) = list_del (PageNode p) (lists s)"
  "mempage (unlink_block z p k s) = (mempage s)(p := (mempage s p)\<lparr>pg_order := - 1\<rparr>)"
  "z_mempage (zones (unlink_block z p k s) z') = z_mempage (zones s z')"
  "z_size (zones (unlink_block z p k s) z') = z_size (zones s z')"
  "z_lock (zones (unlink_block z p k s) z') = z_lock (zones s z')"
  "z_free_pages (zones (unlink_block z p k s) z') = z_free_pages (zones s z')"
  "z_nfree (zones (unlink_block z p k s) z') j =
     (if z' = z \<and> j = k then z_nfree (zones s z') j - 1 else z_nfree (zones s z') j)"
  by (auto simp: unlink_block_def mm_upd_defs)

lemma same_shape_refl [simp]: "same_shape s s"
  by (simp add: same_shape_def)

lemma same_shape_trans [trans]: "same_shape s t \<Longrightarrow> same_shape t u \<Longrightarrow> same_shape s u"
  by (simp add: same_shape_def)

lemma same_shape_moves [simp]:
  "same_shape s (link_block z p k s)" "same_shape s (unlink_block z p k s)"
  by (auto simp: same_shape_def)

lemma same_off_refl [simp]: "same_off Zs L L"
  by (simp add: same_off_def)

lemma same_off_trans [trans]: "same_off Zs L M \<Longrightarrow> same_off Zs M N \<Longrightarrow> same_off Zs L N"
  by (simp add: same_off_def)

lemma same_off_upd [simp]: "z \<in> Zs \<Longrightarrow> k < MAXORDER \<Longrightarrow> same_off Zs L (L(FreeArea z k := xs))"
  by (auto simp: same_off_def fa_heads_def)

lemma same_shape_sel:
  assumes "same_shape s s'"
  shows "in_zone s' z p = in_zone s z p" "blk_ok s' z p k = blk_ok s z p k" "clean s' p = clean s p"
    "zones_ok Zs s' = zones_ok Zs s" "max_pfn s' = max_pfn s" "pmem s' = pmem s"
    "z_mempage (zones s' z) = z_mempage (zones s z)" "z_size (zones s' z) = z_size (zones s z)"
proof -
  have "(mempage s' p)\<lparr>pg_order := 0\<rparr> = (mempage s p)\<lparr>pg_order := 0\<rparr>"
    using assms by (simp add: same_shape_def)
  from arg_cong [OF this, of pg_nref] arg_cong [OF this, of pg_flags]
  show "clean s' p = clean s p" by (simp add: clean_def)
qed (use assms in \<open>auto simp: same_shape_def in_zone_def blk_ok_def zones_ok_def\<close>)

lemma only_zone_refl [simp]: "only_zone z s s"
  by (simp add: only_zone_def)

lemma only_zone_trans: "only_zone z s t \<Longrightarrow> same_shape s t \<Longrightarrow> only_zone z t u \<Longrightarrow> only_zone z s u"
  by (simp add: only_zone_def same_shape_sel)

lemma only_zone_moves:
  "in_zone s z p \<Longrightarrow> only_zone z s (link_block z p k s)"
  "in_zone s z p \<Longrightarrow> only_zone z s (unlink_block z p k s)"
  by (auto simp: only_zone_def link_block_def unlink_block_def mm_upd_defs)

lemma only_zone_upd: "only_zone z s (upd_zone z f s)"
  by (simp add: only_zone_def upd_zone_def)

lemma unlisted_off: "same_off Zs L L' \<Longrightarrow> unlisted Zs H L' F = unlisted Zs H L F"
  by (auto simp: unlisted_def same_off_def)

lemma unlisted_Un [simp]: "unlisted Zs H L (F \<union> G) \<longleftrightarrow> unlisted Zs H L F \<and> unlisted Zs H L G"
  by (auto simp: unlisted_def)

lemma unlisted_mono: "unlisted Zs H L F \<Longrightarrow> G \<subseteq> F \<Longrightarrow> unlisted Zs H L G"
  by (auto simp: unlisted_def)

lemma bcoreD:
  assumes "bcore Zs H L s"
  shows bcore_zones: "zones_ok Zs s"
    and bcore_family: "family clist (lists s) H L"
    and bcore_heads: "fa_heads Zs \<subseteq> H"
    and bcore_nodes: "PageNode p \<notin> H"
    and bcore_list: "z \<in> Zs \<Longrightarrow> k < MAXORDER \<Longrightarrow> set (L (FreeArea z k)) = PageNode ` {p. free_head s z p k}"
    and bcore_nfree: "z \<in> Zs \<Longrightarrow> k < MAXORDER \<Longrightarrow> z_nfree (zones s z) k = of_nat (length (L (FreeArea z k)))"
    and bcore_blk: "z \<in> Zs \<Longrightarrow> free_head s z p k \<Longrightarrow> blk_ok s z p k"
    and bcore_clean: "z \<in> Zs \<Longrightarrow> free_head s z p k \<Longrightarrow> q \<in> block p k \<Longrightarrow> clean s q"
    and bcore_disjoint: "z \<in> Zs \<Longrightarrow> free_head s z p k \<Longrightarrow> free_head s z q j \<Longrightarrow> p \<noteq> q
            \<Longrightarrow> block p k \<inter> block q j = {}"
    and bcore_unlisted: "z \<in> Zs \<Longrightarrow> unlisted Zs H L (free_frames s z)"
    and bcore_order: "z \<in> Zs \<Longrightarrow> in_zone s z p \<Longrightarrow> - 1 \<le> pg_order (mempage s p)"
  using assms unfolding bcore_def by simp_all

lemma free_head_unlink:
  "free_head (unlink_block z p k s) z' q j \<longleftrightarrow> q \<noteq> p \<and> free_head s z' q j"
  by (auto simp: free_head_def in_zone_def)

lemma free_head_link:
  assumes "zones_ok Zs s" "in_zone s z p"
  shows "free_head (link_block z p k s) z' q j \<longleftrightarrow>
     (if q = p then z' = z \<and> j = k else free_head s z' q j)"
proof -
  have "in_zone s z' p \<Longrightarrow> z' = z" using assms by (auto simp: zones_ok_def)
  then show ?thesis using assms(2) by (auto simp: free_head_def in_zone_def)
qed

lemma free_head_zone: "zones_ok Zs s \<Longrightarrow> free_head s z p k \<Longrightarrow> free_head s z' p j \<Longrightarrow> z' = z \<and> j = k"
  by (auto simp: free_head_def zones_ok_def)

lemma head_in_block [simp]: "p \<in> block p k"
  by (simp add: block_def)

lemma blk_ok_in_zone: "blk_ok s z p k \<Longrightarrow> q \<in> block p k \<Longrightarrow> in_zone s z q"
  by (auto simp: blk_ok_def in_zone_def block_def)

lemma free_frames_head: "free_head s z p k \<Longrightarrow> block p k \<subseteq> free_frames s z"
  by (auto simp: free_frames_def)

lemma free_frames_in_zone:
  "bcore Zs H L s \<Longrightarrow> z \<in> Zs \<Longrightarrow> f \<in> free_frames s z \<Longrightarrow> in_zone s z f"
  by (auto simp: free_frames_def dest: bcore_blk blk_ok_in_zone)

lemma finite_free_frames: "bcore Zs H L s \<Longrightarrow> z \<in> Zs \<Longrightarrow> finite (free_frames s z)"
  by (rule finite_subset [of _ "{..<z_mempage (zones s z) + z_size (zones s z)}"])
    (auto dest!: free_frames_in_zone simp: in_zone_def)

lemma free_frames_unlink:
  assumes "bcore Zs H L s" "z \<in> Zs" "free_head s z p k"
  shows "free_frames (unlink_block z p k s) z = free_frames s z - block p k"
  using bcore_disjoint [OF assms(1,2,3)] free_head_zone [OF bcore_zones [OF assms(1)] assms(3)]
  by (fastforce simp: free_frames_def free_head_unlink)

lemma free_frames_unlink_other:
  assumes "bcore Zs H L s" "free_head s z p k" "z' \<noteq> z"
  shows "free_frames (unlink_block z p k s) z' = free_frames s z'"
proof -
  have "free_head (unlink_block z p k s) z' q j = free_head s z' q j" for q j
    using free_head_zone [OF bcore_zones [OF assms(1)] assms(2)] assms(3)
    by (auto simp: free_head_unlink)
  then show ?thesis by (simp add: free_frames_def)
qed

lemma no_free_head:
  assumes "zones_ok Zs s" "in_zone s z p" "p \<notin> free_frames s z"
  shows "\<not> free_head s z' p j"
proof
  assume f: "free_head s z' p j"
  then have "z' = z" using assms by (auto simp: free_head_def zones_ok_def)
  then show False using f assms(3) free_frames_head [of s z p j] head_in_block by blast
qed

lemma free_head_link_new:
  assumes "zones_ok Zs s" "in_zone s z p" "p \<notin> free_frames s z"
  shows "free_head (link_block z p k s) z' q j \<longleftrightarrow> z' = z \<and> q = p \<and> j = k \<or> free_head s z' q j"
  using no_free_head [OF assms] by (auto simp: free_head_link [OF assms(1,2)])

lemma free_frames_link:
  assumes "zones_ok Zs s" "in_zone s z p" "p \<notin> free_frames s z"
  shows "free_frames (link_block z p k s) z' =
           (if z' = z then free_frames s z \<union> block p k else free_frames s z')"
  by (auto simp: free_frames_def free_head_link_new [OF assms])

section \<open>The elementary moves keep the structure\<close>

lemma of_nat_pred: "xs \<noteq> [] \<Longrightarrow> of_nat (length xs - Suc 0) = (of_nat (length xs) - 1 :: u32)"
  by (cases xs) auto

lemma bcore_unlink:
  assumes b: "bcore Zs H L s" and z: "z \<in> Zs" and f: "free_head s z p k"
  shows "bcore Zs H (L(FreeArea z k := remove1 (PageNode p) (L (FreeArea z k)))) (unlink_block z p k s)"
proof -
  let ?L = "L(FreeArea z k := remove1 (PageNode p) (L (FreeArea z k)))"
  let ?s = "unlink_block z p k s"
  note fam = bcore_family [OF b] and zs = bcore_zones [OF b]
  have k: "k < MAXORDER" using bcore_blk [OF b z f] by (simp add: blk_ok_def)
  have H: "FreeArea z k \<in> H" using bcore_heads [OF b] z k by (auto simp: fa_heads_def)
  have mem: "PageNode p \<in> set (L (FreeArea z k))" using bcore_list [OF b z k] f by simp
  have dist: "distinct (L (FreeArea z k))" by (rule kl.fam_distinct [OF fam H])
  have shape: "same_shape s ?s" by simp
  have off: "same_off Zs L ?L" using z k by simp
  have lst: "set (?L (FreeArea z' j)) = PageNode ` {q. free_head ?s z' q j}"
    if "z' \<in> Zs" "j < MAXORDER" for z' j
    using bcore_list [OF b that] dist free_head_zone [OF zs f]
    by (auto simp: free_head_unlink)
  have "z_nfree (zones ?s z') j = of_nat (length (?L (FreeArea z' j)))"
    if "z' \<in> Zs" "j < MAXORDER" for z' j
    using bcore_nfree [OF b that] mem length_pos_if_in_set [OF mem]
    by (auto simp: length_remove1 of_nat_pred)
  moreover have "unlisted Zs H ?L (free_frames ?s z')" if "z' \<in> Zs" for z'
    using bcore_unlisted [OF b that] unlisted_off [OF off]
    by (auto elim!: unlisted_mono simp: free_frames_def free_head_unlink)
  moreover have "family clist (lists ?s) H ?L" using kl.fam_del [OF fam H mem] by simp
  ultimately show ?thesis
    using zs bcore_heads [OF b] bcore_nodes [OF b] lst bcore_blk [OF b] bcore_clean [OF b]
      bcore_disjoint [OF b] bcore_order [OF b]
    unfolding bcore_def by (auto simp: same_shape_sel [OF shape] free_head_unlink)
qed

lemma bcore_link:
  assumes b: "bcore Zs H L s" and z: "z \<in> Zs" and ok: "blk_ok s z p k"
    and cl: "\<forall>q\<in>block p k. clean s q"
    and dj: "block p k \<inter> free_frames s z = {}" and un: "unlisted Zs H L (block p k)"
  shows "bcore Zs H (L(FreeArea z k := PageNode p # L (FreeArea z k))) (link_block z p k s)"
proof -
  let ?L = "L(FreeArea z k := PageNode p # L (FreeArea z k))"
  let ?s = "link_block z p k s"
  note fam = bcore_family [OF b] and zs = bcore_zones [OF b]
  have k: "k < MAXORDER" using ok by (simp add: blk_ok_def)
  have inz: "in_zone s z p" using blk_ok_in_zone [OF ok] by simp
  have new: "p \<notin> free_frames s z" using dj head_in_block by blast
  note fh = free_head_link_new [OF zs inz new]
  have H: "FreeArea z k \<in> H" using bcore_heads [OF b] z k by (auto simp: fa_heads_def)
  have shape: "same_shape s ?s" by simp
  have off: "same_off Zs L ?L" using z k by simp
  note nohead = no_free_head [OF zs inz new]
  have fresh: "PageNode p \<notin> set (L q)" if "q \<in> H" for q
  proof (cases "q \<in> fa_heads Zs")
    case True
    then show ?thesis using bcore_list [OF b] nohead by (auto simp: fa_heads_def)
  next
    case False
    then show ?thesis using un that by (auto simp: unlisted_def)
  qed
  have lst: "set (?L (FreeArea z' j)) = PageNode ` {q. free_head ?s z' q j}"
    if "z' \<in> Zs" "j < MAXORDER" for z' j
    using bcore_list [OF b that] by (auto simp: fh)
  have "z_nfree (zones ?s z') j = of_nat (length (?L (FreeArea z' j)))"
    if "z' \<in> Zs" "j < MAXORDER" for z' j
    using bcore_nfree [OF b that] by auto
  moreover have "unlisted Zs H ?L (free_frames ?s z')" if "z' \<in> Zs" for z'
    using bcore_unlisted [OF b that] un unlisted_off [OF off]
    by (auto simp: free_frames_link [OF zs inz new])
  moreover have "family clist (lists ?s) H ?L"
    using kl.fam_add [OF fam H] bcore_nodes [OF b] fresh by auto
  moreover have "block p k \<inter> block q j = {}" if "free_head s z q j" for q j
    using dj free_frames_head [OF that] by blast
  ultimately show ?thesis
    using zs bcore_heads [OF b] bcore_nodes [OF b] lst bcore_blk [OF b] bcore_clean [OF b]
      bcore_disjoint [OF b] bcore_order [OF b] ok cl
    unfolding bcore_def by (simp add: same_shape_sel [OF shape] fh) blast
qed

section \<open>Splitting\<close>

lemma same_ctl_refl [simp]: "same_ctl s s"
  by (simp add: same_ctl_def)

lemma same_ctl_trans [trans]: "same_ctl s t \<Longrightarrow> same_ctl t u \<Longrightarrow> same_ctl s u"
  by (simp add: same_ctl_def)

lemma same_ctl_moves [simp]: "same_ctl s (link_block z p k s)" "same_ctl s (unlink_block z p k s)"
  by (auto simp: same_ctl_def)

lemma block_Suc: "block p (Suc k) = block p k \<union> block (p + 2 ^ k) k"
  by (auto simp: block_def)

lemma block_halves: "block p k \<inter> block (p + 2 ^ k) k = {}"
  by (auto simp: block_def)

lemma blk_ok_halves:
  assumes "blk_ok s z p (Suc k)"
  shows "blk_ok s z p k" "blk_ok s z (p + 2 ^ k) k"
proof -
  let ?b = "z_mempage (zones s z)"
  have d: "2 ^ k dvd p - ?b" using assms by (auto simp: blk_ok_def intro: dvd_mult_right)
  moreover have "p + 2 ^ k - ?b = (p - ?b) + 2 ^ k" using assms by (simp add: blk_ok_def)
  ultimately have "2 ^ k dvd p + 2 ^ k - ?b" by (metis dvd_add dvd_refl)
  then show "blk_ok s z p k" "blk_ok s z (p + 2 ^ k) k"
    using assms d by (auto simp: blk_ok_def)
qed

lemma split_step:
  "alloc_buddy_split z low (Suc h) (2 ^ Suc h) p s =
     (if low \<le> h then alloc_buddy_split z low h (2 ^ h) p (link_block z (p + 2 ^ h) h s) else (p, s))"
proof -
  have "set_order q (int h) (nfree_inc z h (upd_lists (list_add (PageNode q) (FreeArea z h)) s)) =
        link_block z q h s" for q
    by (simp add: link_block_def mm_upd_defs)
  then show ?thesis
    by (subst alloc_buddy_split.simps) (simp add: Let_def less_Suc_eq_le)
qed

lemma split_correct:
  assumes "bcore Zs H L s" "z \<in> Zs" "blk_ok s z p high" "\<forall>q\<in>block p high. clean s q"
    "block p high \<inter> free_frames s z = {}" "unlisted Zs H L (block p high)" "low \<le> high"
  shows "\<exists>s' L'. alloc_buddy_split z low high (2 ^ high) p s = (p, s') \<and> bcore Zs H L' s' \<and>
     same_off Zs L L' \<and> same_shape s s' \<and> same_ctl s s' \<and>
     (\<forall>z' q j. free_head s' z' q j \<longleftrightarrow>
        free_head s z' q j \<or> z' = z \<and> low \<le> j \<and> j < high \<and> q = p + 2 ^ j)"
  using assms
proof (induction high arbitrary: s L)
  case 0
  then show ?case by (subst alloc_buddy_split.simps) auto
next
  case (Suc h)
  show ?case
  proof (cases "low \<le> h")
    case False
    then have "low = Suc h" using Suc.prems by simp
    then show ?thesis using Suc.prems(1) by (subst split_step) auto
  next
    case True
    let ?q = "p + 2 ^ h" and ?s = "link_block z (p + 2 ^ h) h s"
    let ?L = "L(FreeArea z h := PageNode ?q # L (FreeArea z h))"
    note ok = blk_ok_halves [OF Suc.prems(3)]
    have h: "h < MAXORDER" using ok by (simp add: blk_ok_def)
    note zs = bcore_zones [OF Suc.prems(1)]
    have inz: "in_zone s z ?q" using blk_ok_in_zone [OF ok(2)] by simp
    have dj: "block p h \<inter> free_frames s z = {}" "block ?q h \<inter> free_frames s z = {}"
      using Suc.prems(5) by (auto simp: block_Suc)
    have new: "?q \<notin> free_frames s z" using dj(2) head_in_block by blast
    have b: "bcore Zs H ?L ?s"
      using Suc.prems dj ok by (intro bcore_link) (auto simp: block_Suc)
    have off: "same_off Zs L ?L" using Suc.prems(2) h by simp
    have shape: "same_shape s ?s" by simp
    obtain s' L' where s': "alloc_buddy_split z low h (2 ^ h) p ?s = (p, s')" "bcore Zs H L' s'"
      "same_off Zs ?L L'" "same_shape ?s s'" "same_ctl ?s s'"
      "\<forall>z' q j. free_head s' z' q j \<longleftrightarrow>
        free_head ?s z' q j \<or> z' = z \<and> low \<le> j \<and> j < h \<and> q = p + 2 ^ j"
    proof (atomize_elim, rule Suc.IH [OF b Suc.prems(2)])
      show "block p h \<inter> free_frames ?s z = {}"
        using dj(1) block_halves [of p h] by (auto simp: free_frames_link [OF zs inz new])
      show "unlisted Zs H ?L (block p h)"
        using Suc.prems(6) unlisted_off [OF off] by (simp add: block_Suc)
    qed (use True ok Suc.prems in \<open>auto simp: same_shape_sel [OF shape] block_Suc\<close>)
    have "same_shape s s'" "same_off Zs L L'" "same_ctl s s'"
      using same_shape_trans [OF shape s'(4)] same_off_trans [OF off s'(3)]
        same_ctl_trans [OF same_ctl_moves(1) s'(5)] by auto
    moreover have "alloc_buddy_split z low (Suc h) (2 ^ Suc h) p s = (p, s')"
      unfolding split_step using True s'(1) by simp
    moreover have "\<forall>z' q j. free_head s' z' q j \<longleftrightarrow>
        free_head s z' q j \<or> z' = z \<and> low \<le> j \<and> j < Suc h \<and> q = p + 2 ^ j"
      using s'(6) True by (auto simp: free_head_link_new [OF zs inz new] less_Suc_eq)
    ultimately show ?thesis using s'(2) by blast
  qed
qed

section \<open>Allocation\<close>

text \<open>Locks and frame counters are no part of the block structure.\<close>

lemma ctl_eq_upd [simp]:
  "ctl_eq s (upd_zone z (\<lambda>zn. zn\<lparr>z_free_pages := f (z_free_pages zn)\<rparr>) s)"
  "ctl_eq s (upd_zone z (\<lambda>zn. zn\<lparr>z_lock := g (z_lock zn)\<rparr>) s)"
  by (auto simp: ctl_eq_def upd_zone_def)

lemma ctl_eq_inv:
  assumes "ctl_eq s s'"
  shows "free_head s' z p k = free_head s z p k" "free_frames s' z = free_frames s z"
    "bcore Zs H L s' = bcore Zs H L s" "coalesced s' z = coalesced s z" "same_shape s s'"
    "same_shape s' s"
proof -
  have fh: "free_head s' z p k = free_head s z p k" for z p k
    using assms by (simp add: ctl_eq_def free_head_def in_zone_def)
  then show "free_head s' z p k = free_head s z p k" .
  show ff: "free_frames s' z = free_frames s z" for z by (simp add: free_frames_def fh)
  show shape: "same_shape s s'" "same_shape s' s" using assms by (auto simp: ctl_eq_def same_shape_def)
  show "bcore Zs H L s' = bcore Zs H L s"
    using assms unfolding bcore_def ff fh same_shape_sel [OF shape(1)] by (simp add: ctl_eq_def)
  show "coalesced s' z = coalesced s z"
    using assms by (simp add: coalesced_def fh ctl_eq_def)
qed

lemma scan_correct:
  assumes "bcore Zs H L s" "z \<in> Zs"
  shows "alloc_buddy_scan z k cur s = Some (None, s) \<and> (\<forall>p j. cur \<le> j \<longrightarrow> \<not> free_head s z p j) \<or>
    (\<exists>c p. cur \<le> c \<and> free_head s z p c \<and> alloc_buddy_scan z k cur s =
       (let (q, s') = alloc_buddy_split z k c (2 ^ c) p
          (upd_zone z (\<lambda>zn. zn\<lparr>z_free_pages := z_free_pages zn - push_bit k 1\<rparr>) (unlink_block z p c s))
        in Some (Some q, s')))"
  using assms
proof (induction z k cur s rule: alloc_buddy_scan.induct)
  case (1 z k cur s)
  note b = "1.prems"(1) and z = "1.prems"(2)
  show ?case
  proof (cases "cur < MAXORDER")
    case False
    then have "\<forall>p j. cur \<le> j \<longrightarrow> \<not> free_head s z p j"
      using bcore_blk [OF b z] by (fastforce simp: blk_ok_def)
    then show ?thesis using False by (subst alloc_buddy_scan.simps) auto
  next
    case True
    then have H: "FreeArea z cur \<in> H" using bcore_heads [OF b] z by (auto simp: fa_heads_def)
    note lst = bcore_list [OF b z True] and fam = bcore_family [OF b]
    show ?thesis
    proof (cases "L (FreeArea z cur)")
      case Nil
      then have e: "list_empty (FreeArea z cur) (lists s)" using kl.fam_emp [OF fam H] by simp
      have "\<forall>p. \<not> free_head s z p cur" using lst Nil by auto
      then have none: "(\<forall>p j. Suc cur \<le> j \<longrightarrow> \<not> free_head s z p j) \<Longrightarrow>
          (\<forall>p j. cur \<le> j \<longrightarrow> \<not> free_head s z p j)"
        by (metis Suc_leI le_neq_implies_less)
      have step: "alloc_buddy_scan z k cur s = alloc_buddy_scan z k (Suc cur) s"
        using True e by (subst alloc_buddy_scan.simps) simp
      show ?thesis using "1.IH" [OF True e b z] none Suc_leD unfolding step by blast
    next
      case (Cons x xs)
      then obtain p where x: "x = PageNode p" "free_head s z p cur" using lst by (metis (mono_tags) imageE list.set_intros(1) mem_Collect_eq)
      have e: "\<not> list_empty (FreeArea z cur) (lists s)" using kl.fam_emp [OF fam H] Cons by simp
      have n: "nxt (lists s) (FreeArea z cur) = PageNode p" using kl.fam_first [OF fam H Cons] x by simp
      have "set_order p (- 1) (upd_zone z (\<lambda>zn. zn\<lparr>z_free_pages := z_free_pages zn - push_bit k 1\<rparr>)
              (nfree_dec z cur (upd_lists (list_del (PageNode p)) s))) =
            upd_zone z (\<lambda>zn. zn\<lparr>z_free_pages := z_free_pages zn - push_bit k 1\<rparr>) (unlink_block z p cur s)"
        by (simp add: unlink_block_def mm_upd_defs)
      then show ?thesis using True e n x
        by (intro disjI2 exI [of _ cur] exI [of _ p], subst alloc_buddy_scan.simps) (simp add: Let_def)
    qed
  qed
qed

lemma buddy_upper: "2 ^ Suc j dvd (i::nat) \<Longrightarrow> (i + 2 ^ j) XOR 2 ^ j = i"
proof -
  assume d: "2 ^ Suc j dvd i"
  then have j: "2 ^ j dvd i + 2 ^ j" by (metis dvd_add dvd_mult_right dvd_refl power_Suc)
  have "\<not> 2 ^ Suc j dvd i + 2 ^ j"
    using d by (simp add: dvd_add_right_iff)
  then show ?thesis by (simp add: buddy_xor [OF j])
qed

lemma block_pieces: "k \<le> c \<Longrightarrow> (\<Union>j\<in>{k..<c}. block (p + 2 ^ j) j) = block p c - block p k"
proof (induction c rule: dec_induct)
  case base
  then show ?case by simp
next
  case (step n)
  have "block p k \<subseteq> block p n" using step.hyps by (auto simp: block_def intro: less_le_trans power_increasing)
  then show ?case using step block_halves [of p n]
    by (auto simp: block_Suc atLeastLessThanSuc)
qed

text \<open>The pieces handed back by a split have no free buddy: their buddy is the rest itself.\<close>

lemma coalesced_split:
  assumes co: "coalesced s z" and d: "2 ^ c dvd p - z_mempage (zones s z)" "z_mempage (zones s z) \<le> p"
    and bs: "z_mempage (zones s' z) = z_mempage (zones s z)"
    and fh: "\<And>q j. free_head s' z q j \<longleftrightarrow>
       q \<noteq> p \<and> free_head s z q j \<or> k \<le> j \<and> j < c \<and> q = p + 2 ^ j"
  shows "coalesced s' z"
  unfolding coalesced_def bs
proof (intro allI impI notI)
  let ?b = "z_mempage (zones s z)"
  fix q j
  assume q: "free_head s' z q j" and j: "j < MAXORDER - 1"
    and bd: "free_head s' z (?b + (q - ?b XOR 2 ^ j)) j"
  have up: "(p + 2 ^ j - ?b) XOR 2 ^ j = p - ?b" if "j < c"
  proof -
    have "2 ^ Suc j dvd p - ?b" using d(1) that by (metis Suc_leI le_imp_power_dvd dvd_trans)
    then show ?thesis using buddy_upper [of j "p - ?b"] d(2) by simp
  qed
  consider (old) "q \<noteq> p" "free_head s z q j" | (new) "k \<le> j" "j < c" "q = p + 2 ^ j"
    using q fh by blast
  then show False
  proof cases
    case new
    then show False using bd up d(2) unfolding fh by simp
  next
    case old
    then have qb: "?b \<le> q" by (simp add: free_head_def in_zone_def)
    have "j < c \<and> ?b + (q - ?b XOR 2 ^ j) = p + 2 ^ j"
      using bd co old j unfolding fh coalesced_def by blast
    then have "(q - ?b) XOR 2 ^ j = p + 2 ^ j - ?b" and jc: "j < c" by auto
    then have "q - ?b = (p + 2 ^ j - ?b) XOR 2 ^ j" by (metis bit.xor_cancel_right xor.assoc xor.commute xor_self_eq xor.right_neutral)
    then show False using up [OF jc] qb d(2) old by simp
  qed
qed

lemma block_mono: "k \<le> c \<Longrightarrow> block p k \<subseteq> block p c"
  by (auto simp: block_def intro: less_le_trans power_increasing)

lemma blk_ok_mono: "blk_ok s z p c \<Longrightarrow> k \<le> c \<Longrightarrow> blk_ok s z p k"
proof -
  assume ok: "blk_ok s z p c" and k: "k \<le> c"
  have "p + 2 ^ k \<le> p + 2 ^ c" using k by simp
  from order_trans [OF this] have "p + 2 ^ k \<le> z_mempage (zones s z) + z_size (zones s z)"
    using ok by (simp add: blk_ok_def)
  moreover have "(2::nat) ^ k dvd 2 ^ c" using k by (rule le_imp_power_dvd)
  ultimately show ?thesis
    using ok k dvd_trans [of "2 ^ k" "2 ^ c" "p - z_mempage (zones s z)"] by (simp add: blk_ok_def)
qed

lemma free_frames_pieces:
  assumes fh: "\<And>q j. free_head s' z q j \<longleftrightarrow> free_head u z q j \<or> k \<le> j \<and> j < c \<and> q = p + 2 ^ j"
    and kc: "k \<le> c"
  shows "free_frames s' z = free_frames u z \<union> (block p c - block p k)"
proof -
  have "free_frames s' z = free_frames u z \<union> (\<Union>j\<in>{k..<c}. block (p + 2 ^ j) j)"
    unfolding free_frames_def fh by force
  then show ?thesis by (simp only: block_pieces [OF kc])
qed

lemma split_taken:
  assumes b: "bcore Zs H L s" and z: "z \<in> Zs" and co: "\<forall>z\<in>Zs. coalesced s z"
    and kc: "k \<le> c" and p: "free_head s z p c"
    and t: "t = upd_zone z (\<lambda>zn. zn\<lparr>z_free_pages := z_free_pages zn - push_bit k 1\<rparr>) (unlink_block z p c s)"
  shows "\<exists>s' L'. alloc_buddy_split z k c (2 ^ c) p t = (p, s') \<and> taken Zs H L z k p s s' L'"
proof -
  let ?u = "unlink_block z p c s"
  let ?L = "L(FreeArea z c := remove1 (PageNode p) (L (FreeArea z c)))"
  have ce: "ctl_eq ?u t" unfolding t by (rule ctl_eq_upd)
  note ci = ctl_eq_inv [OF ce]
  note ok = bcore_blk [OF b z p] and ffu = free_frames_unlink [OF b z p]
  have c: "c < MAXORDER" using ok by (simp add: blk_ok_def)
  have sh: "same_shape s t" using same_shape_trans [OF same_shape_moves(2) ci(5)] .
  have off: "same_off Zs L ?L" using z c by simp
  have bt: "bcore Zs H ?L t" using bcore_unlink [OF b z p] ci(3) by simp
  have un: "unlisted Zs H ?L (block p c)"
    using unlisted_mono [OF bcore_unlisted [OF b z] free_frames_head [OF p]]
    by (simp add: unlisted_off [OF off])
  have cl: "\<forall>q\<in>block p c. clean t q" using bcore_clean [OF b z p] by (simp add: same_shape_sel [OF sh])
  have okt: "blk_ok t z p c" using ok by (simp add: same_shape_sel [OF sh])
  have dj: "block p c \<inter> free_frames t z = {}" by (auto simp: ci(2) ffu)
  from split_correct [OF bt z okt cl dj un kc]
  obtain s' L' where s': "alloc_buddy_split z k c (2 ^ c) p t = (p, s')" "bcore Zs H L' s'"
    "same_off Zs ?L L'" "same_shape t s'" "same_ctl t s'"
    and fh: "\<forall>z' q j. free_head s' z' q j \<longleftrightarrow>
      free_head t z' q j \<or> z' = z \<and> k \<le> j \<and> j < c \<and> q = p + 2 ^ j"
    by blast
  have shape: "same_shape s s'" using same_shape_trans [OF sh s'(4)] .
  have "free_frames s' z = free_frames t z \<union> (block p c - block p k)"
    by (rule free_frames_pieces [OF _ kc]) (simp add: fh)
  then have "free_frames s' z = free_frames s z - block p k"
    using free_frames_head [OF p] block_mono [OF kc] unfolding ci(2) ffu by blast
  moreover have "free_frames s' z' = free_frames s z'" if "z' \<noteq> z" for z'
    using that free_frames_unlink_other [OF b p that] by (simp add: free_frames_def fh ci(1))
  moreover have "coalesced s' z'" if "z' \<in> Zs" for z'
  proof (cases "z' = z")
    case True
    show ?thesis unfolding True
      by (rule coalesced_split [of s z c p s' k])
        (use co z ok same_shape_sel(7) [OF shape] in \<open>auto simp: blk_ok_def fh ci(1) free_head_unlink\<close>)
  next
    case False
    then show ?thesis
      using co that by (simp add: coalesced_def fh ci(1) free_head_unlink same_shape_sel(7) [OF shape])
  qed
  moreover have "z_lock (zones s' z') = z_lock (zones s z') \<and> z_free_pages (zones s' z') =
        (if z' = z then z_free_pages (zones s z) - push_bit k 1 else z_free_pages (zones s z'))" for z'
    using s'(5) t by (auto simp: same_ctl_def upd_zone_def)
  ultimately have "taken Zs H L z k p s s' L'"
    using s'(2) same_off_trans [OF off s'(3)] shape blk_ok_mono [OF ok kc]
      subset_trans [OF block_mono [OF kc] free_frames_head [OF p]] unfolding taken_def by simp
  then show ?thesis using s'(1) by blast
qed

lemma alloc_locked_correct:
  assumes b: "bcore Zs H L s" and z: "z \<in> Zs" and k: "k < MAXORDER" and co: "\<forall>z\<in>Zs. coalesced s z"
  shows "alloc_buddy_locked z k s = Some (None, s) \<and> (\<forall>p j. k \<le> j \<longrightarrow> \<not> free_head s z p j) \<or>
    (\<exists>p s' L'. alloc_buddy_locked z k s = Some (Some p, s') \<and> taken Zs H L z k p s s' L')"
proof (cases "z_size (zones s z) = 0")
  case True
  then show ?thesis using k by (auto simp: alloc_buddy_locked_def free_head_def in_zone_def)
next
  case False
  then have lk: "alloc_buddy_locked z k s = alloc_buddy_scan z k k s"
    using k by (simp add: alloc_buddy_locked_def)
  show ?thesis
    using scan_correct [OF b z, of k k]
  proof (elim disjE exE conjE)
    fix c p
    assume p: "k \<le> c" "free_head s z p c" and scan: "alloc_buddy_scan z k k s =
       (let (q, s') = alloc_buddy_split z k c (2 ^ c) p
          (upd_zone z (\<lambda>zn. zn\<lparr>z_free_pages := z_free_pages zn - push_bit k 1\<rparr>) (unlink_block z p c s))
        in Some (Some q, s'))"
    from split_taken [OF b z co p refl] obtain s' L' where
      "alloc_buddy_split z k c (2 ^ c) p (upd_zone z (\<lambda>zn. zn\<lparr>z_free_pages := z_free_pages zn - push_bit k 1\<rparr>)
         (unlink_block z p c s)) = (p, s')" "taken Zs H L z k p s s' L'" by blast
    then show ?thesis unfolding lk scan by (intro disjI2 exI conjI) auto
  qed (simp add: lk)
qed

lemma lock_cycle:
  assumes "z_lock (zones s z) = 0"
  shows "zone_lock z s = Some (upd_zone z (\<lambda>zn. zn\<lparr>z_lock := 1\<rparr>) s)"
    and "zone_unlock z (upd_zone z (\<lambda>zn. zn\<lparr>z_lock := 1\<rparr>) s) = s"
proof -
  have "(zones s)(z := (zones s z)\<lparr>z_lock := 0\<rparr>) = zones s" using assms by (simp add: fun_upd_idem)
  then show "zone_unlock z (upd_zone z (\<lambda>zn. zn\<lparr>z_lock := 1\<rparr>) s) = s"
    by (simp add: zone_unlock_def upd_zone_def)
qed (use assms in \<open>simp add: zone_lock_def\<close>)

lemma zone_unlock_sel [simp]:
  "z_lock (zones (zone_unlock z s) z') = (if z' = z then 0 else z_lock (zones s z'))"
  "z_free_pages (zones (zone_unlock z s) z') = z_free_pages (zones s z')"
  "ctl_eq s (zone_unlock z s)"
  by (auto simp: zone_unlock_def upd_zone_def ctl_eq_def)

lemma card_diff_block:
  assumes "finite F" "block p k \<subseteq> F"
  shows "(of_nat (card (F - block p k)) :: u32) = of_nat (card F) - push_bit k 1"
proof -
  have c: "card (block p k) = 2 ^ k" by (simp add: block_def)
  have "finite (block p k)" by (simp add: block_def)
  then have "card (F - block p k) = card F - 2 ^ k" "2 ^ k \<le> card F"
    using assms card_Diff_subset c card_mono by metis+
  then show ?thesis by (simp add: of_nat_diff push_bit_eq_mult)
qed

lemma alloc_buddy_spec:
  assumes b: "binv Zs H L s" and z: "z \<in> Zs" and k: "k < MAXORDER"
  shows "alloc_buddy z k s = Some (None, s) \<and> (\<forall>p j. k \<le> j \<longrightarrow> \<not> free_head s z p j) \<or>
    (\<exists>p s' L'. alloc_buddy z k s = Some (Some p, s') \<and> binv Zs H L' s' \<and> same_off Zs L L' \<and>
       same_shape s s' \<and> blk_ok s z p k \<and> block p k \<subseteq> free_frames s z \<and>
       (\<forall>z'. free_frames s' z' = (if z' = z then free_frames s z - block p k else free_frames s z')))"
proof -
  let ?t = "upd_zone z (\<lambda>zn. zn\<lparr>z_lock := 1\<rparr>) s"
  have core: "bcore Zs H L s" and lk: "z_lock (zones s z) = 0"
    and al: "\<And>z. z \<in> Zs \<Longrightarrow> z_lock (zones s z) = 0 \<and> coalesced s z \<and>
        z_free_pages (zones s z) = of_nat (card (free_frames s z))"
    using b z by (auto simp: binv_def)
  have ce: "ctl_eq s ?t" by (rule ctl_eq_upd(2))
  note ci = ctl_eq_inv [OF ce] and cyc = lock_cycle [OF lk]
  have "bcore Zs H L ?t" "\<forall>z\<in>Zs. coalesced ?t z" using core al ci by auto
  from alloc_locked_correct [OF this(1) z k this(2)] show ?thesis
  proof (elim disjE exE conjE)
    assume "alloc_buddy_locked z k ?t = Some (None, ?t)" "\<forall>p j. k \<le> j \<longrightarrow> \<not> free_head ?t z p j"
    then show ?thesis using cyc by (simp add: alloc_buddy_def ci(1))
  next
    fix p s' L'
    assume a: "alloc_buddy_locked z k ?t = Some (Some p, s')" and tk: "taken Zs H L z k p ?t s' L'"
    let ?u = "zone_unlock z s'"
    have cu: "ctl_eq s' ?u" by simp
    note cu = ctl_eq_inv [OF cu]
    have sub: "block p k \<subseteq> free_frames s z" using tk ci(2) by (simp add: taken_def)
    have ff: "free_frames ?u z' = (if z' = z then free_frames s z - block p k else free_frames s z')" for z'
      using tk by (simp add: taken_def cu(2) ci(2))
    have "z_free_pages (zones ?u z') = of_nat (card (free_frames ?u z'))" if "z' \<in> Zs" for z'
      using tk al [OF that] al [OF z] ff card_diff_block [OF finite_free_frames [OF core z] sub]
      by (auto simp: taken_def upd_zone_def)
    moreover have "z_lock (zones ?u z') = 0 \<and> coalesced ?u z'" if "z' \<in> Zs" for z'
      using tk al [OF that] that by (auto simp: taken_def upd_zone_def cu(4))
    ultimately have "binv Zs H L' ?u" using tk by (simp add: taken_def binv_def cu(3))
    moreover have "same_shape s ?u"
      using same_shape_trans [OF same_shape_trans [OF ci(5)] cu(5)] tk by (simp add: taken_def)
    moreover have "blk_ok s z p k" using tk same_shape_sel(2) [OF ci(5)] by (simp add: taken_def)
    moreover have "alloc_buddy z k s = Some (Some p, ?u)" using a cyc by (simp add: alloc_buddy_def)
    moreover have "same_off Zs L L'" using tk by (simp add: taken_def)
    ultimately show ?thesis using sub ff by blast
  qed
qed

end
