(* ===== verification/Buddy_Free.thy ===== *)
theory Buddy_Free
  imports Buddy_Inv
begin

text \<open>
  Freeing: the merge loop of \<^verbatim>\<open>_free_buddy\<close> ends, never trips an assertion, and gives
  back exactly the freed frames, merged as far as possible; \<^verbatim>\<open>zone_init\<close> builds the
  invariant from the boot memory map; and the consequences for the page interface of
  \<^verbatim>\<open>page.c\<close>.
\<close>

text \<open>
  \<open>loose Zs H L z p k s\<close>: the block of order \<open>k\<close> at page \<open>p\<close> is outside the allocator and
  may be freed.
\<close>

definition loose :: "zid set \<Rightarrow> mnode set \<Rightarrow> (mnode \<Rightarrow> mnode list) \<Rightarrow> zid \<Rightarrow> nat \<Rightarrow> nat \<Rightarrow> mmst \<Rightarrow> bool" where
  "loose Zs H L z p k s \<longleftrightarrow>
     blk_ok s z p k \<and> (\<forall>q\<in>block p k. clean s q) \<and> block p k \<inter> free_frames s z = {} \<and>
     unlisted Zs H L (block p k)"

text \<open>What the merge loop makes of the block \<open>(i, k)\<close>, counted from the first page \<open>b\<close> of the zone.\<close>

definition merged :: "zid set \<Rightarrow> mnode set \<Rightarrow> zid \<Rightarrow> nat \<Rightarrow> mmst \<Rightarrow> (mnode \<Rightarrow> mnode list) \<Rightarrow> nat \<Rightarrow> nat \<Rightarrow>
    mmst \<Rightarrow> (mnode \<Rightarrow> mnode list) \<Rightarrow> nat \<Rightarrow> nat \<Rightarrow> bool" where
  "merged Zs H z b s L i k s' L' i' k' \<longleftrightarrow>
     bcore Zs H L' s' \<and> same_off Zs L L' \<and> same_shape s s' \<and> same_ctl s s' \<and>
     loose Zs H L' z (b + i') k' s' \<and>
     (\<forall>z' q j. free_head s' z' q j \<longrightarrow> free_head s z' q j) \<and>
     free_frames s' z \<union> block (b + i') k' = free_frames s z \<union> block (b + i) k \<and>
     (\<forall>z'. z' \<noteq> z \<longrightarrow> free_frames s' z' = free_frames s z') \<and> only_zone z s s' \<and>
     (k' < MAXORDER - 1 \<longrightarrow> \<not> free_head s' z (b + (i' XOR 2 ^ k')) k')"

text \<open>The outcome of giving the block of order \<open>k\<close> at page \<open>p\<close> back to zone \<open>z\<close>.\<close>

definition given :: "zid set \<Rightarrow> mnode set \<Rightarrow> (mnode \<Rightarrow> mnode list) \<Rightarrow> zid \<Rightarrow> nat \<Rightarrow> nat \<Rightarrow>
    mmst \<Rightarrow> mmst \<Rightarrow> (mnode \<Rightarrow> mnode list) \<Rightarrow> bool" where
  "given Zs H L z k p s s' L' \<longleftrightarrow>
     bcore Zs H L' s' \<and> same_off Zs L L' \<and> same_shape s s' \<and> only_zone z s s' \<and> (\<forall>z\<in>Zs. coalesced s' z) \<and>
     (\<forall>z'. free_frames s' z' = (if z' = z then free_frames s z \<union> block p k else free_frames s z')) \<and>
     (\<forall>z'. z_lock (zones s' z') = z_lock (zones s z') \<and> z_free_pages (zones s' z') =
        (if z' = z then z_free_pages (zones s z) + push_bit k 1 else z_free_pages (zones s z')))"

text \<open>The normal zone ends where the linear mapping does, the high zone starts there.\<close>

definition zone_layout :: "mmst \<Rightarrow> bool" where
  "zone_layout s \<longleftrightarrow>
     (\<forall>p. in_zone s ZNormal p \<longrightarrow> p * 2 ^ PAGE_SHIFT < unat NORMAL_ADDR) \<and>
     (\<forall>p. in_zone s ZHigh p \<longrightarrow> unat NORMAL_ADDR \<le> p * 2 ^ PAGE_SHIFT)"

definition gfp_zone :: "u32 \<Rightarrow> zid" where
  "gfp_zone flage = (if flage AND GFP_HIGH \<noteq> 0 then ZHigh else ZNormal)"

section \<open>The merge loop\<close>

lemma buddy_merge:
  assumes "(2::nat) ^ k dvd i"
  shows "2 ^ Suc k dvd i AND (i XOR 2 ^ k)"
    and "i AND (i XOR 2 ^ k) = i \<and> i XOR 2 ^ k = i + 2 ^ k \<or>
         i = (i AND (i XOR 2 ^ k)) + 2 ^ k \<and> i XOR 2 ^ k = i AND (i XOR 2 ^ k)"
proof -
  obtain n where n: "i = 2 ^ k * n" using assms by blast
  have d: "2 ^ Suc k dvd i \<longleftrightarrow> even n" using pow_dvd_double n by simp
  show "2 ^ Suc k dvd i AND (i XOR 2 ^ k)"
  proof (cases "even n")
    case False
    then obtain m where "n = 2 * m + 1" by (elim oddE)
    then have "i - 2 ^ k = 2 ^ Suc k * m" by (simp add: n algebra_simps)
    then show ?thesis using d False buddy_and [OF assms] by simp
  qed (use d buddy_and [OF assms] in simp)
  have "odd n \<Longrightarrow> 2 ^ k \<le> i" by (cases n) (auto simp: n)
  then show "i AND (i XOR 2 ^ k) = i \<and> i XOR 2 ^ k = i + 2 ^ k \<or>
         i = (i AND (i XOR 2 ^ k)) + 2 ^ k \<and> i XOR 2 ^ k = i AND (i XOR 2 ^ k)"
    unfolding buddy_and [OF assms] unfolding buddy_xor [OF assms] d by auto
qed

lemma block_merge:
  assumes "(2::nat) ^ k dvd i"
  shows "block (b + (i AND (i XOR 2 ^ k))) (Suc k) = block (b + i) k \<union> block (b + (i XOR 2 ^ k)) k"
  using buddy_merge(2) [OF assms] by (elim disjE conjE) (simp_all add: block_Suc, auto simp: add.assoc)

lemma blk_ok_merge:
  assumes "blk_ok s z (b + i) k" "blk_ok s z (b + (i XOR 2 ^ k)) k" "k < MAXORDER - 1"
    "b = z_mempage (zones s z)"
  shows "blk_ok s z (b + (i AND (i XOR 2 ^ k))) (Suc k)"
proof -
  have d: "2 ^ k dvd i" using assms by (simp add: blk_ok_def)
  show ?thesis
    using buddy_merge(2) [OF d] buddy_merge(1) [OF d] assms
    by (elim disjE conjE) (auto simp: blk_ok_def)
qed

text \<open>On a structure that satisfies the invariant, \<^verbatim>\<open>page_is_buddy\<close> decides exactly whether
  the page heads a free block of that order.\<close>

lemma page_is_buddy_iff:
  assumes "bcore Zs H L s" "z \<in> Zs" "in_zone s z p"
  shows "page_is_buddy p k s \<longleftrightarrow> free_head s z p k"
  using bcore_clean [OF assms(1,2), of p k p] assms(3)
  by (auto simp: page_is_buddy_def free_head_def clean_def)

lemma buddy_asserts:
  assumes "bcore Zs H L s" "z \<in> Zs" "2 ^ k dvd i" "k < MAXORDER - 1"
    "p = z_mempage (zones s z) + (i XOR 2 ^ k)" "in_zone s z p"
  shows "p < max_pfn s" "p mod 2 ^ k = 0"
proof -
  have zs: "z_mempage (zones s z) + z_size (zones s z) \<le> max_pfn s"
    "2 ^ (MAXORDER - 1) dvd z_mempage (zones s z)"
    using bcore_zones [OF assms(1)] assms(2) by (auto simp: zones_ok_def)
  show "p < max_pfn s" using zs(1) assms(6) by (simp add: in_zone_def)
  have "2 ^ k dvd z_mempage (zones s z)"
    using zs(2) assms(4) by (metis dvd_trans le_imp_power_dvd less_imp_le)
  moreover have "2 ^ k dvd i XOR 2 ^ k"
    using assms(3) by (auto simp: buddy_xor intro: dvd_diff_nat)
  ultimately show "p mod 2 ^ k = 0" using assms(5) by simp
qed

lemma merge_stop:
  assumes bc: "bcore Zs H L s" and z: "z \<in> Zs" and b: "b = z_mempage (zones s z)" and d: "2 ^ k dvd i"
    and no: "\<not> (k < MAXORDER - 1 \<and> free_head s z (b + (i XOR 2 ^ k)) k)"
  shows "free_buddy_merge z i k s = Some (i, k, s)"
proof (cases "k < MAXORDER - 1 \<and> b + (i XOR 2 ^ k) < b + z_size (zones s z)")
  case True
  then have inz: "in_zone s z (b + (i XOR 2 ^ k))" using b by (simp add: in_zone_def)
  show ?thesis
    using True no buddy_asserts [OF bc z d _ _ inz] page_is_buddy_iff [OF bc z inz] b
    by (subst free_buddy_merge.simps) (simp add: page2pfn_def)
next
  case False
  then show ?thesis using b by (subst free_buddy_merge.simps) auto
qed

lemma merge_step:
  assumes bc: "bcore Zs H L s" and z: "z \<in> Zs" and b: "b = z_mempage (zones s z)" and d: "2 ^ k dvd i"
    and k: "k < MAXORDER - 1" and fh: "free_head s z (b + (i XOR 2 ^ k)) k"
  shows "free_buddy_merge z i k s =
     free_buddy_merge z (i AND (i XOR 2 ^ k)) (Suc k) (unlink_block z (b + (i XOR 2 ^ k)) k s)"
proof -
  have inz: "in_zone s z (b + (i XOR 2 ^ k))" using fh by (simp add: free_head_def)
  then show ?thesis
    using k buddy_asserts [OF bc z d k _ inz] page_is_buddy_iff [OF bc z inz] fh b
    by (subst free_buddy_merge.simps) (simp add: Let_def page2pfn_def in_zone_def unlink_block_def)
qed

lemma loose_merge:
  assumes bc: "bcore Zs H L s" and z: "z \<in> Zs" and b: "b = z_mempage (zones s z)"
    and lo: "loose Zs H L z (b + i) k s" and d: "2 ^ k dvd i"
    and k: "k < MAXORDER - 1" and fh: "free_head s z (b + (i XOR 2 ^ k)) k"
    and off: "same_off Zs L L'"
  shows "loose Zs H L' z (b + (i AND (i XOR 2 ^ k))) (Suc k) (unlink_block z (b + (i XOR 2 ^ k)) k s)"
    (is "loose _ _ _ _ ?m _ ?u")
  unfolding loose_def
proof (intro conjI)
  have sh: "same_shape s ?u" by simp
  note bm = block_merge [OF d, of b] and okp = bcore_blk [OF bc z fh]
  show "blk_ok ?u z ?m (Suc k)"
    using blk_ok_merge [OF _ okp k b] lo by (simp add: loose_def same_shape_sel [OF sh])
  show "\<forall>q\<in>block ?m (Suc k). clean ?u q"
    using lo bcore_clean [OF bc z fh] by (auto simp: loose_def bm same_shape_sel [OF sh])
  show "block ?m (Suc k) \<inter> free_frames ?u z = {}"
    using lo by (auto simp: loose_def bm free_frames_unlink [OF bc z fh])
  show "unlisted Zs H L' (block ?m (Suc k))"
    using lo unlisted_mono [OF bcore_unlisted [OF bc z] free_frames_head [OF fh]]
    by (simp add: loose_def bm unlisted_off [OF off])
qed

lemma merge_correct:
  assumes "bcore Zs H L s" "z \<in> Zs" "b = z_mempage (zones s z)" "loose Zs H L z (b + i) k s"
  shows "\<exists>s' L' i' k'. free_buddy_merge z i k s = Some (i', k', s') \<and> merged Zs H z b s L i k s' L' i' k'"
  using assms
proof (induction "MAXORDER - k" arbitrary: i k s L rule: less_induct)
  case less
  note bc = less.prems(1) and z = less.prems(2) and b = less.prems(3) and lo = less.prems(4)
  have d: "2 ^ k dvd i" using lo b by (simp add: loose_def blk_ok_def)
  show ?case
  proof (cases "k < MAXORDER - 1 \<and> free_head s z (b + (i XOR 2 ^ k)) k")
    case False
    have "merged Zs H z b s L i k s L i k" using bc lo False by (simp add: merged_def)
    then show ?thesis using merge_stop [OF bc z b d False] by blast
  next
    case True
    then have k: "k < MAXORDER - 1" and fh: "free_head s z (b + (i XOR 2 ^ k)) k" by auto
    let ?m = "i AND (i XOR 2 ^ k)" and ?u = "unlink_block z (b + (i XOR 2 ^ k)) k s"
    let ?L = "L(FreeArea z k := remove1 (PageNode (b + (i XOR 2 ^ k))) (L (FreeArea z k)))"
    have inz: "in_zone s z (b + (i XOR 2 ^ k))" using fh by (simp add: free_head_def)
    have off: "same_off Zs L ?L" using z k by simp
    have "\<exists>s' L' i' k'. free_buddy_merge z ?m (Suc k) ?u = Some (i', k', s') \<and>
        merged Zs H z b ?u ?L ?m (Suc k) s' L' i' k'"
      using loose_merge [OF bc z b lo d k fh off] bcore_unlink [OF bc z fh] z b k
      by (intro less.hyps) auto
    then obtain s' L' i' k' where s': "free_buddy_merge z ?m (Suc k) ?u = Some (i', k', s')"
      and m: "merged Zs H z b ?u ?L ?m (Suc k) s' L' i' k'" by blast
    have "free_frames ?u z \<union> block (b + ?m) (Suc k) = free_frames s z \<union> block (b + i) k"
      using free_frames_head [OF fh] by (auto simp: block_merge [OF d] free_frames_unlink [OF bc z fh])
    then have "merged Zs H z b s L i k s' L' i' k'"
      using m same_off_trans [OF off, of L'] free_frames_unlink_other [OF bc fh]
        same_shape_trans [of s ?u s'] same_ctl_trans [of s ?u s'] only_zone_trans [of z s ?u s']
        only_zone_moves(2) [OF inz, of k]
      by (simp add: merged_def free_head_unlink)
    then show ?thesis using s' merge_step [OF bc z b d k fh] by simp blast
  qed
qed

section \<open>Freeing a block\<close>

lemma coalesced_link:
  assumes co: "coalesced s z" and fh: "\<And>q j. free_head s' z q j \<longleftrightarrow> q = p \<and> j = k \<or> free_head s z q j"
    and b: "b = z_mempage (zones s z)" "z_mempage (zones s' z) = b" "b \<le> p"
    and d: "2 ^ k dvd p - b"
    and no: "k < MAXORDER - 1 \<longrightarrow> \<not> free_head s z (b + (p - b XOR 2 ^ k)) k"
  shows "coalesced s' z"
  unfolding coalesced_def b(2)
proof (intro allI impI notI)
  fix q j
  assume q: "free_head s' z q j" and j: "j < MAXORDER - 1" and bd: "free_head s' z (b + (q - b XOR 2 ^ j)) j"
  have flip: "x XOR 2 ^ j = y \<Longrightarrow> y XOR 2 ^ j = x" for x y :: nat
    by (metis bit.xor_cancel_right xor.assoc xor_self_eq xor.right_neutral)
  have ne: "p - b XOR 2 ^ k \<noteq> p - b" using buddy_merge(2) [OF d] by force
  show False
  proof (cases "q = p \<and> j = k")
    case True
    then show False using bd no j ne b(3) unfolding fh by force
  next
    case False
    then have old: "free_head s z q j" using q fh by blast
    then have qb: "b \<le> q" using b(1) by (simp add: free_head_def in_zone_def)
    have "\<not> free_head s z (b + (q - b XOR 2 ^ j)) j"
      using co old j b(1) unfolding coalesced_def by blast
    then have "b + (q - b XOR 2 ^ j) = p" and jk: "j = k" using bd unfolding fh by auto
    then have "q - b XOR 2 ^ j = p - b" by simp
    from flip [OF this] show False using no old j jk qb by simp
  qed
qed

lemma free_locked_correct:
  assumes bc: "bcore Zs H L s" and z: "z \<in> Zs" and lo: "loose Zs H L z p k s" and co: "\<forall>z\<in>Zs. coalesced s z"
  shows "\<exists>s' L'. free_buddy_locked z p k s = Some s' \<and> given Zs H L z k p s s' L'"
proof -
  let ?b = "z_mempage (zones s z)"
  let ?t = "upd_zone z (\<lambda>zn. zn\<lparr>z_free_pages := z_free_pages zn + push_bit k 1\<rparr>) s"
  have ok: "blk_ok s z p k" using lo by (simp add: loose_def)
  then have bp: "?b + (p - ?b) = p" "?b \<le> p" "k < MAXORDER" by (auto simp: blk_ok_def)
  have ce: "ctl_eq s ?t" by (rule ctl_eq_upd(1))
  note ci = ctl_eq_inv [OF ce]
  have bt: "bcore Zs H L ?t" "?b = z_mempage (zones ?t z)" "loose Zs H L z (?b + (p - ?b)) k ?t"
    using bc lo unfolding bp(1) loose_def ci(2,3) same_shape_sel [OF ci(5)] by auto
  from merge_correct [OF bt(1) z bt(2,3)]
  obtain s' L' i' k' where s': "free_buddy_merge z (p - ?b) k ?t = Some (i', k', s')"
    and m: "merged Zs H z ?b ?t L (p - ?b) k s' L' i' k'" by blast
  let ?q = "?b + i'" and ?u = "link_block z (?b + i') k' s'"
  let ?L = "L'(FreeArea z k' := PageNode ?q # L' (FreeArea z k'))"
  have lo': "loose Zs H L' z ?q k' s'" and bs': "bcore Zs H L' s'" using m by (auto simp: merged_def)
  have sh: "same_shape s s'" using same_shape_trans [OF ci(5)] m by (simp add: merged_def)
  have shu: "same_shape s ?u" using same_shape_trans [OF sh same_shape_moves(1)] .
  have inz: "in_zone s' z ?q" using lo' by (auto simp: loose_def intro: blk_ok_in_zone)
  have new: "?q \<notin> free_frames s' z" using lo' head_in_block [of ?q k'] unfolding loose_def by blast
  note zs = bcore_zones [OF bs']
  have bu: "bcore Zs H ?L ?u" using lo' by (intro bcore_link [OF bs' z]) (auto simp: loose_def)
  have k': "k' < MAXORDER" "2 ^ k' dvd ?q - z_mempage (zones s' z)"
    using lo' by (auto simp: loose_def blk_ok_def)
  have ff: "free_frames ?u z' = (if z' = z then free_frames s z \<union> block p k else free_frames s z')" for z'
    using m unfolding free_frames_link [OF zs inz new] merged_def ci(2) bp(1) by auto
  have cos: "coalesced s' z'" if "z' \<in> Zs" for z'
    using co m that unfolding coalesced_def same_shape_sel(7) [OF sh] merged_def ci(1) by blast
  have "coalesced ?u z'" if "z' \<in> Zs" for z'
  proof (cases "z' = z")
    case True
    show ?thesis unfolding True
      by (rule coalesced_link [OF cos [OF z]])
        (use m k' inz in \<open>auto simp: free_head_link_new [OF zs inz new] same_shape_sel(7) [OF sh] merged_def\<close>)
  next
    case False
    then show ?thesis
      using cos that by (simp add: coalesced_def free_head_link_new [OF zs inz new])
  qed
  moreover have "same_off Zs L ?L" using m same_off_trans [of Zs L L' ?L] z k'(1) by (simp add: merged_def)
  moreover have "z_lock (zones ?u z') = z_lock (zones s z') \<and> z_free_pages (zones ?u z') =
        (if z' = z then z_free_pages (zones s z) + push_bit k 1 else z_free_pages (zones s z'))" for z'
    using m by (auto simp: merged_def same_ctl_def upd_zone_def)
  moreover have "only_zone z s ?u"
    using only_zone_trans [OF only_zone_trans [OF only_zone_upd ci(5)] sh only_zone_moves(1) [OF inz]] m
    by (simp add: merged_def)
  ultimately have "given Zs H L z k p s ?u ?L" using bu shu ff by (simp add: given_def)
  moreover have "free_buddy_locked z p k s = Some ?u"
    using bp s' by (simp add: free_buddy_locked_def Let_def link_block_def same_shape_sel(7) [OF sh])
  ultimately show ?thesis by blast
qed

lemma card_add_block:
  assumes "finite F" "block p k \<inter> F = {}"
  shows "(of_nat (card (F \<union> block p k)) :: u32) = of_nat (card F) + push_bit k 1"
proof -
  have "card (F \<union> block p k) = card F + 2 ^ k"
    using assms by (subst card_Un_disjoint) (auto simp: block_def)
  then show ?thesis by (simp add: push_bit_eq_mult)
qed

lemma free_buddy_spec:
  assumes b: "binv Zs H L s" and z: "z \<in> Zs" and lo: "loose Zs H L z p k s"
  shows "\<exists>s' L'. free_buddy z p k s = Some s' \<and> binv Zs H L' s' \<and> same_off Zs L L' \<and> same_shape s s' \<and>
    only_zone z s s' \<and>
    (\<forall>z'. free_frames s' z' = (if z' = z then free_frames s z \<union> block p k else free_frames s z'))"
proof -
  let ?t = "upd_zone z (\<lambda>zn. zn\<lparr>z_lock := 1\<rparr>) s"
  have core: "bcore Zs H L s" and lk: "z_lock (zones s z) = 0"
    and al: "\<And>z. z \<in> Zs \<Longrightarrow> z_lock (zones s z) = 0 \<and> coalesced s z \<and>
        z_free_pages (zones s z) = of_nat (card (free_frames s z))"
    using b z by (auto simp: binv_def)
  have ce: "ctl_eq s ?t" by (rule ctl_eq_upd(2))
  note ci = ctl_eq_inv [OF ce]
  have "bcore Zs H L ?t" "\<forall>z\<in>Zs. coalesced ?t z" "loose Zs H L z p k ?t"
    using core al lo unfolding loose_def ci same_shape_sel [OF ci(5)] by auto
  from free_locked_correct [OF this(1) z this(3,2)]
  obtain s' L' where s': "free_buddy_locked z p k ?t = Some s'" and g: "given Zs H L z k p ?t s' L'" by blast
  let ?u = "zone_unlock z s'"
  have cu: "ctl_eq s' ?u" by simp
  note cu = ctl_eq_inv [OF cu]
  have ff: "free_frames ?u z' = (if z' = z then free_frames s z \<union> block p k else free_frames s z')" for z'
    using g by (simp add: given_def cu(2) ci(2))
  have "block p k \<inter> free_frames s z = {}" using lo by (simp add: loose_def)
  then have "z_free_pages (zones ?u z') = of_nat (card (free_frames ?u z'))" if "z' \<in> Zs" for z'
    using g al [OF that] al [OF z] ff card_add_block [OF finite_free_frames [OF core z]]
    by (auto simp: given_def upd_zone_def)
  moreover have "z_lock (zones ?u z') = 0 \<and> coalesced ?u z'" if "z' \<in> Zs" for z'
    using g al [OF that] that by (auto simp: given_def upd_zone_def cu(4))
  ultimately have "binv Zs H L' ?u" using g by (simp add: given_def binv_def cu(3))
  moreover have "same_shape s ?u"
    using same_shape_trans [OF same_shape_trans [OF ci(5)] cu(5)] g by (simp add: given_def)
  moreover have "only_zone z s ?u"
    using only_zone_trans [OF only_zone_upd ci(5), of s'] g only_zone_trans [of z s s' ?u]
      same_shape_trans [OF ci(5), of s'] only_zone_upd
    by (simp add: given_def zone_unlock_def)
  moreover have "free_buddy z p k s = Some ?u" using s' lock_cycle [OF lk] by (simp add: free_buddy_def)
  moreover have "same_off Zs L L'" using g by (simp add: given_def)
  ultimately show ?thesis using ff by blast
qed

section \<open>The page interface\<close>

lemma free_frames_clean: "bcore Zs H L s \<Longrightarrow> z \<in> Zs \<Longrightarrow> f \<in> free_frames s z \<Longrightarrow> clean s f"
  by (auto simp: free_frames_def dest: bcore_clean)

text \<open>A block that allocation hands out is outside the allocator.\<close>

lemma taken_loose:
  assumes b: "bcore Zs H L s" and z: "z \<in> Zs" and ok: "blk_ok s z p k" and sub: "block p k \<subseteq> free_frames s z"
    and sh: "same_shape s s'" and off: "same_off Zs L L'" and ff: "free_frames s' z = free_frames s z - block p k"
  shows "loose Zs H L' z p k s'"
  using ok sub free_frames_clean [OF b z] unlisted_mono [OF bcore_unlisted [OF b z] sub]
  by (auto simp: loose_def ff same_shape_sel [OF sh] unlisted_off [OF off])

lemma zero_frames_sel [simp]:
  "mempage (zero_frames p n s) = mempage s" "max_pfn (zero_frames p n s) = max_pfn s"
  "lists (zero_frames p n s) = lists s" "zones (zero_frames p n s) = zones s"
  by (simp_all add: zero_frames_def)

lemma zero_frames_inv [simp]:
  "free_head (zero_frames p n s) = free_head s" "free_frames (zero_frames p n s) = free_frames s"
  "in_zone (zero_frames p n s) = in_zone s" "blk_ok (zero_frames p n s) = blk_ok s"
  "clean (zero_frames p n s) = clean s" "zones_ok Zs (zero_frames p n s) = zones_ok Zs s"
  "coalesced (zero_frames p n s) = coalesced s"
  by (auto simp: fun_eq_iff free_head_def free_frames_def in_zone_def blk_ok_def clean_def zones_ok_def
      coalesced_def)

lemma zero_frames_binv [simp]:
  "binv Zs H L (zero_frames p n s) = binv Zs H L s"
  "loose Zs H L z q k (zero_frames p n s) = loose Zs H L z q k s"
  by (simp_all add: binv_def bcore_def loose_def)

lemma page_bounds:
  assumes "bcore UNIV H L s" "zone_layout s" "in_zone s z p"
  shows "p < max_pfn s" "p * 2 ^ PAGE_SHIFT < unat NORMAL_ADDR \<longleftrightarrow> z = ZNormal"
proof -
  have "z_mempage (zones s z) + z_size (zones s z) \<le> max_pfn s"
    using bcore_zones [OF assms(1)] by (simp add: zones_ok_def)
  then show "p < max_pfn s" using assms(3) by (simp add: in_zone_def)
  show "p * 2 ^ PAGE_SHIFT < unat NORMAL_ADDR \<longleftrightarrow> z = ZNormal"
    using assms(2,3) by (cases z) (auto simp: zone_layout_def not_less)
qed

lemma pages_alloc_spec:
  assumes b: "binv UNIV H L s" and lay: "zone_layout s" and k: "k < MAXORDER"
    and fl: "\<not> (flage AND GFP_ZERO \<noteq> 0 \<and> flage AND GFP_HIGH \<noteq> 0)"
  shows "pages_alloc flage k s = Some (None, s) \<and> (\<forall>p j. k \<le> j \<longrightarrow> \<not> free_head s (gfp_zone flage) p j) \<or>
    (\<exists>p s' L'. pages_alloc flage k s = Some (Some p, s') \<and> binv UNIV H L' s' \<and> same_off UNIV L L' \<and>
       loose UNIV H L' (gfp_zone flage) p k s' \<and> block p k \<subseteq> free_frames s (gfp_zone flage) \<and>
       same_shape s (s'\<lparr>pmem := pmem s\<rparr>) \<and>
       (\<forall>z'. free_frames s' z' = (if z' = gfp_zone flage then free_frames s z' - block p k else free_frames s z')) \<and>
       (\<forall>f. pmem s' f = (if flage AND GFP_ZERO \<noteq> 0 \<and> f \<in> block p k then (\<lambda>_. 0) else pmem s f)))"
proof -
  let ?z = "gfp_zone flage"
  have core: "bcore UNIV H L s" using b by (simp add: binv_def)
  have pa: "pages_alloc flage k s = pages_alloc_zone ?z flage k s"
    using k fl by (auto simp: pages_alloc_def gfp_zone_def)
  from alloc_buddy_spec [OF b UNIV_I k, of ?z] show ?thesis
  proof (elim disjE exE conjE)
    assume "alloc_buddy ?z k s = Some (None, s)" "\<forall>p j. k \<le> j \<longrightarrow> \<not> free_head s ?z p j"
    then show ?thesis using fl unfolding pa by (simp add: pages_alloc_zone_def)
  next
    fix p s' L'
    assume a: "alloc_buddy ?z k s = Some (Some p, s')" and b': "binv UNIV H L' s'" and off: "same_off UNIV L L'"
      and sh: "same_shape s s'" and ok: "blk_ok s ?z p k" and sub: "block p k \<subseteq> free_frames s ?z"
      and ff: "\<forall>z'. free_frames s' z' = (if z' = ?z then free_frames s ?z - block p k else free_frames s z')"
    have lo: "loose UNIV H L' ?z p k s'"
      using taken_loose [OF core UNIV_I ok sub sh off] ff by simp
    have inz: "in_zone s ?z p" using blk_ok_in_zone [OF ok] by simp
    let ?t = "if flage AND GFP_ZERO \<noteq> 0 then zero_frames p (2 ^ k) s' else s'"
    have "pages_alloc flage k s = Some (Some p, ?t)"
      using a fl page_bounds [OF core lay inz] same_shape_sel(5) [OF sh] unfolding pa
      by (auto simp: pages_alloc_zone_def page2virt_def page2phys_def page2pfn_def p2v_def gfp_zone_def)
    moreover have "same_shape s (?t\<lparr>pmem := pmem s\<rparr>)"
      using sh by (auto simp: same_shape_def zero_frames_def)
    moreover have "\<forall>f. pmem ?t f = (if flage AND GFP_ZERO \<noteq> 0 \<and> f \<in> block p k then (\<lambda>_. 0) else pmem s f)"
      using same_shape_sel(6) [OF sh] by (auto simp: zero_frames_def block_def)
    ultimately show ?thesis using b' off lo sub ff
      by (intro disjI2 exI [of _ p] exI [of _ ?t] exI [of _ L']) simp
  qed
qed

lemma pages_free_spec:
  assumes b: "binv UNIV H L s" and lay: "zone_layout s" and lo: "loose UNIV H L z p k s"
  shows "\<exists>s' L'. pages_free p k s = Some s' \<and> binv UNIV H L' s' \<and> same_off UNIV L L' \<and> same_shape s s' \<and>
    (\<forall>z'. free_frames s' z' = (if z' = z then free_frames s z \<union> block p k else free_frames s z'))"
proof -
  have core: "bcore UNIV H L s" using b by (simp add: binv_def)
  have inz: "in_zone s z p" and k: "k < MAXORDER"
    using lo blk_ok_in_zone head_in_block by (auto simp: loose_def blk_ok_def)
  have "pages_free p k s = free_buddy z p k s"
    using page_bounds [OF core lay inz] k
    by (cases z) (auto simp: pages_free_def page2phys_def page2pfn_def)
  then show ?thesis using free_buddy_spec [OF b UNIV_I lo] by auto
qed

lemma zone_layout_shape: "same_shape s s' \<Longrightarrow> zone_layout s' = zone_layout s"
  by (simp add: zone_layout_def same_shape_sel)

end
