(* ===== verification/Bootmm.thy ===== *)
theory Bootmm
  imports Buddy_Free
begin

text \<open>
  Memory set-up at boot: \<^verbatim>\<open>kernel/mm/bootmm.c\<close> (the memory map, the boot page allocator
  and the initial page array) and the proof that \<^verbatim>\<open>zone_init\<close>, run on that page array,
  leaves a buddy system whose free frames are exactly the available frames of each zone.
\<close>

section \<open>The memory map\<close>

record mmap =
  mm_addr :: u64
  mm_len :: u64
  mm_type :: u32

fun max_pfn_last :: "mmap list \<Rightarrow> u64 \<Rightarrow> u64" where
  "max_pfn_last [] hi = hi"
| "max_pfn_last (m # ms) hi =
     max_pfn_last ms (if mm_type m = 1 \<and> hi < mm_addr m + mm_len m then mm_addr m + mm_len m else hi)"

text \<open>
  The frame counts are of type \<^verbatim>\<open>int\<close>, so the 64-bit result is cut to 32 bits and read as a
  signed number; \<^verbatim>\<open>PFN\<close> gives an unsigned 32-bit frame number.
\<close>

definition get_max_pfn :: "mmap list \<Rightarrow> int" where
  "get_max_pfn ms = sint (ucast (drop_bit PAGE_SHIFT (max_pfn_last ms 0)) :: u32)"

definition phys_to_pfn :: "u64 \<Rightarrow> u32" where
  "phys_to_pfn address = ucast (drop_bit PAGE_SHIFT address)"

fun normal_last :: "mmap list \<Rightarrow> u64 \<Rightarrow> u64" where
  "normal_last [] hi = hi"
| "normal_last (m # ms) hi =
     (if mm_type m = 1 then
        if ucast NORMAL_ADDR \<le> mm_addr m then normal_last ms hi
        else if mm_addr m + mm_len m < ucast NORMAL_ADDR
        then normal_last ms (if hi < mm_addr m + mm_len m then mm_addr m + mm_len m else hi)
        else ucast NORMAL_ADDR
      else normal_last ms hi)"

definition get_normal_maxpfn :: "mmap list \<Rightarrow> nat" where
  "get_normal_maxpfn ms = unat (phys_to_pfn (normal_last ms 0))"

fun high_last :: "mmap list \<Rightarrow> u64 \<Rightarrow> u64" where
  "high_last [] hi = hi"
| "high_last (m # ms) hi =
     (if mm_type m = 1 \<and> \<not> mm_addr m + mm_len m \<le> ucast (KERNEL_NORMAL - KERNEL_BASE_ADDR) \<and>
         hi < mm_addr m + mm_len m
      then high_last ms (mm_addr m + mm_len m) else high_last ms hi)"

definition get_high_maxpfn :: "mmap list \<Rightarrow> int" where
  "get_high_maxpfn ms = sint (ucast (drop_bit PAGE_SHIFT (high_last ms 0 AND NOT 0xFFF)) :: u32)"

fun totalram_last :: "mmap list \<Rightarrow> u32 \<Rightarrow> u32" where
  "totalram_last [] hi = hi"
| "totalram_last (m # ms) hi =
     totalram_last ms (if mm_type m = 1 then hi + ucast (mm_len m div ucast PAGE_SIZE) else hi)"

definition get_totalram_pages :: "mmap list \<Rightarrow> int" where
  "get_totalram_pages ms = sint (totalram_last ms 0)"

section \<open>The boot page allocator\<close>

text \<open>
  \<open>bss_end\<close> is the address of the linker symbol \<^verbatim>\<open>_BSS_END\<close>; the static \<^verbatim>\<open>base\<close> is
  0 (\<^verbatim>\<open>NULL\<close>) before the first call.
\<close>

definition alloc_bootmm_pages :: "u32 \<Rightarrow> nat \<Rightarrow> nat \<Rightarrow> u32 \<times> mmst \<Rightarrow> (u32 \<times> u32 \<times> mmst) option" where
  "alloc_bootmm_pages bss_end normal_maxpfn n st =
     (case st of (base, s) \<Rightarrow>
        let base1 = (if base = 0 then ROUNDDOWN (bss_end + 0xFFF) PAGE_SIZE else base);
            tmp = base1;
            base2 = base1 + of_nat n * PAGE_SIZE
        in do {
          kassert (0 < n);
          kassert (tmp < of_nat normal_maxpfn * PAGE_SIZE + KERNEL_BASE_ADDR);
          pa \<leftarrow> v2p (unat tmp);
          Some (tmp, base2, zero_frames (pa div 2 ^ PAGE_SHIFT) n s) })"

section \<open>The page array\<close>

definition is_page_aval :: "mmap list \<Rightarrow> nat \<Rightarrow> u32 \<Rightarrow> nat \<Rightarrow> bool option" where
  "is_page_aval ms maxpfn base pfn = do {
     pa \<leftarrow> v2p (unat base);
     Some (\<not> pfn \<le> unat (phys_to_pfn (of_nat pa)) \<and> \<not> maxpfn \<le> pfn \<and>
           (\<exists>m\<in>set ms. mm_type m = 1 \<and> unat (phys_to_pfn (mm_addr m)) \<le> pfn \<and>
                        pfn < unat (phys_to_pfn (mm_addr m + mm_len m)))) }"

definition boot_page :: "bool \<Rightarrow> page" where
  "boot_page aval = \<lparr>pg_nref = 0, pg_flags = (if aval then pg_free else pg_reserved), pg_order = - 1,
     pg_slab = None, pg_freelist = 0, pg_inuse = 0, pg_slublock = 0\<rparr>"

fun mempage_init_upto :: "mmap list \<Rightarrow> u32 \<Rightarrow> nat \<Rightarrow> mmst \<Rightarrow> mmst option" where
  "mempage_init_upto ms base 0 s = Some s"
| "mempage_init_upto ms base (Suc i) s = do {
     s1 \<leftarrow> mempage_init_upto ms base i s;
     aval \<leftarrow> is_page_aval ms (max_pfn s1) base i;
     Some (upd_lists (INIT_LIST_HEAD (PageNode i)) (upd_page i (\<lambda>_. boot_page aval) s1)) }"

definition mempage_init :: "mmap list \<Rightarrow> u32 \<Rightarrow> mmst \<Rightarrow> mmst option" where
  "mempage_init ms base s = mempage_init_upto ms base (max_pfn s) s"

definition avail :: "mmst \<Rightarrow> nat \<Rightarrow> bool" where
  "avail s p \<longleftrightarrow> pg_flags (mempage s p) AND pg_free \<noteq> 0"

section \<open>Initialising a zone\<close>

lemma area_heads_sel [simp]:
  "mempage (free_area_heads z n s) = mempage s" "zones (free_area_heads z n s) = zones s"
  "max_pfn (free_area_heads z n s) = max_pfn s" "pmem (free_area_heads z n s) = pmem s"
  by (induction n) (simp_all add: upd_lists_def)

lemma area_heads_family:
  assumes "family clist (lists s) H L" "\<forall>k. FreeArea z k \<notin> H" "\<forall>q\<in>H. \<forall>k. FreeArea z k \<notin> set (L q)"
  shows "family clist (lists (free_area_heads z n s)) (H \<union> FreeArea z ` {..<n})
           (\<lambda>q. if q \<in> FreeArea z ` {..<n} then [] else L q)"
proof (induction n)
  case 0
  then show ?case using assms(1) by simp
next
  case (Suc n)
  have "(\<lambda>q. if q \<in> FreeArea z ` {..<n} then [] else L q)(FreeArea z n := []) =
      (\<lambda>q. if q \<in> FreeArea z ` {..<Suc n} then [] else L q)"
    by (auto simp: lessThan_Suc)
  moreover have "insert (FreeArea z n) (H \<union> FreeArea z ` {..<n}) = H \<union> FreeArea z ` {..<Suc n}"
    by (simp add: lessThan_Suc)
  moreover have "FreeArea z n \<notin> H \<union> FreeArea z ` {..<n}" using assms(2) by auto
  moreover have "\<forall>q\<in>H \<union> FreeArea z ` {..<n}. FreeArea z n \<notin> set (if q \<in> FreeArea z ` {..<n} then [] else L q)"
    using assms(3) by auto
  ultimately show ?case
    using kl.fam_init [OF Suc, of "FreeArea z n"] by (simp add: upd_lists_def)
qed

lemma fa_heads_insert: "fa_heads (insert z Zs) = fa_heads Zs \<union> FreeArea z ` {..<MAXORDER}"
  by (auto simp: fa_heads_def)

lemma area_heads_binv:
  assumes b: "binv Zs (fa_heads Zs) L s" and z: "z \<notin> Zs" and zs: "zones_ok (insert z Zs) s"
    and ord: "\<forall>p. in_zone s z p \<longrightarrow> pg_order (mempage s p) = - 1"
    and zn: "\<forall>k<MAXORDER. z_nfree (zones s z) k = 0" "z_lock (zones s z) = 0" "z_free_pages (zones s z) = 0"
  shows "\<exists>L'. binv (insert z Zs) (fa_heads (insert z Zs)) L' (free_area_heads z MAXORDER s)"
proof -
  let ?s = "free_area_heads z MAXORDER s"
  let ?L = "\<lambda>q. if q \<in> FreeArea z ` {..<MAXORDER} then [] else L q"
  have core: "bcore Zs (fa_heads Zs) L s" using b by (simp add: binv_def)
  have eq: "free_head ?s = free_head s" "free_frames ?s = free_frames s" "in_zone ?s = in_zone s"
    "blk_ok ?s = blk_ok s" "clean ?s = clean s" "zones_ok (insert z Zs) ?s = zones_ok (insert z Zs) s"
    "coalesced ?s = coalesced s"
    by (auto simp: fun_eq_iff free_head_def free_frames_def in_zone_def blk_ok_def clean_def zones_ok_def
        coalesced_def)
  have none: "\<not> free_head s z p k" for p k using ord by (simp add: free_head_def)
  then have ff: "free_frames s z = {}" by (simp add: free_frames_def)
  have "family clist (lists ?s) (fa_heads (insert z Zs)) ?L"
    unfolding fa_heads_insert
  proof (rule area_heads_family [OF bcore_family [OF core]])
    show "\<forall>q\<in>fa_heads Zs. \<forall>k. FreeArea z k \<notin> set (L q)"
      using bcore_list [OF core] by (auto simp: fa_heads_def)
  qed (use z in \<open>auto simp: fa_heads_def\<close>)
  moreover have "z' \<in> Zs \<Longrightarrow> ?L (FreeArea z' k) = L (FreeArea z' k)" for z' k using z by auto
  ultimately have "bcore (insert z Zs) (fa_heads (insert z Zs)) ?L ?s"
    unfolding bcore_def eq ball_simps insert_iff
    using zs none ff zn(1) bcoreD [OF core] ord by (auto simp: unlisted_def fa_heads_def)
  then have "binv (insert z Zs) (fa_heads (insert z Zs)) ?L ?s"
    using b zn ff none by (auto simp: binv_def eq coalesced_def)
  then show ?thesis by blast
qed

lemma same_shape_avail: "same_shape s s' \<Longrightarrow> avail s' p = avail s p"
proof -
  assume "same_shape s s'"
  then have "(mempage s' p)\<lparr>pg_order := 0\<rparr> = (mempage s p)\<lparr>pg_order := 0\<rparr>" by (simp add: same_shape_def)
  from arg_cong [OF this, of pg_flags] show ?thesis by (simp add: avail_def)
qed

text \<open>The loop of \<^verbatim>\<open>free_area_init\<close> frees the available pages one after the other.\<close>

lemma area_pages_correct:
  assumes b: "binv Zs (fa_heads Zs) L s" and z: "z \<in> Zs" and e: "free_frames s z = {}"
    and cl: "\<forall>p. in_zone s z p \<longrightarrow> avail s p \<longrightarrow> clean s p" and n: "n \<le> z_size (zones s z)"
  shows "\<exists>s' L'. free_area_pages z n s = Some s' \<and> binv Zs (fa_heads Zs) L' s' \<and> same_shape s s' \<and>
     only_zone z s s' \<and> (\<forall>z'. free_frames s' z' = (if z' = z then
       {p. z_mempage (zones s z) \<le> p \<and> p < z_mempage (zones s z) + n \<and> avail s p} else free_frames s z'))"
  using n
proof (induction n)
  case 0
  then show ?case using b e by auto
next
  case (Suc n)
  let ?b = "z_mempage (zones s z)" and ?p = "z_mempage (zones s z) + n"
  obtain t M where t: "free_area_pages z n s = Some t" "binv Zs (fa_heads Zs) M t" "same_shape s t"
    "only_zone z s t" and ff: "\<forall>z'. free_frames t z' = (if z' = z then
       {p. ?b \<le> p \<and> p < ?b + n \<and> avail s p} else free_frames s z')"
    using Suc by auto
  note sel = same_shape_sel [OF t(3)]
  have core: "bcore Zs (fa_heads Zs) M t" using t(2) by (simp add: binv_def)
  have inz: "in_zone s z ?p" using Suc.prems by (simp add: in_zone_def)
  have pn: "?p \<notin> free_frames t z" using ff by simp
  have "\<not> free_head t z ?p j" for j
    using no_free_head [OF bcore_zones [OF core] _ pn] inz sel(1) by simp
  then have "pg_order (mempage t ?p) \<noteq> int j" for j using inz sel(1) by (simp add: free_head_def)
  moreover have "- 1 \<le> pg_order (mempage t ?p)" using bcore_order [OF core z] inz sel(1) by simp
  ultimately have o: "pg_order (mempage t ?p) = - 1" by (metis int_cases2 antisym not_less zle_diff1_eq diff_0 nle_le zero_le_imp_eq_int le_less_linear)
  show ?case
  proof (cases "avail s ?p")
    case False
    then have "free_area_pages z (Suc n) s = Some t"
      using t(1) same_shape_avail [OF t(3), of ?p] sel(7) by (simp add: avail_def)
    moreover have "{p. ?b \<le> p \<and> p < ?b + Suc n \<and> avail s p} = {p. ?b \<le> p \<and> p < ?b + n \<and> avail s p}"
      using False by (auto simp: less_Suc_eq)
    ultimately show ?thesis using t ff by auto
  next
    case True
    have "loose Zs (fa_heads Zs) M z ?p 0 t"
      using cl True inz pn sel by (simp add: loose_def blk_ok_def in_zone_def block_def unlisted_def MAXORDER_def)
    from free_buddy_spec [OF t(2) z this] obtain s' L' where s': "free_buddy z ?p 0 t = Some s'"
      "binv Zs (fa_heads Zs) L' s'" "same_shape t s'" "only_zone z t s'"
      "\<forall>z'. free_frames s' z' = (if z' = z then free_frames t z \<union> block ?p 0 else free_frames t z')" by blast
    have "free_area_pages z (Suc n) s = Some s'"
      using t(1) s'(1) o True same_shape_avail [OF t(3), of ?p] sel(7) by (simp add: avail_def)
    moreover have "{p. ?b \<le> p \<and> p < ?b + Suc n \<and> avail s p} = {p. ?b \<le> p \<and> p < ?b + n \<and> avail s p} \<union> block ?p 0"
      using True by (auto simp: block_def less_Suc_eq)
    ultimately show ?thesis
      using s' ff same_shape_trans [OF t(3) s'(3)] only_zone_trans [OF t(4,3) s'(4)] by auto
  qed
qed

lemma area_init_correct:
  assumes b: "binv Zs (fa_heads Zs) L s" and z: "z \<notin> Zs" and zs: "zones_ok (insert z Zs) s"
    and pg: "\<forall>p. in_zone s z p \<longrightarrow> pg_order (mempage s p) = - 1 \<and> (avail s p \<longrightarrow> clean s p)"
    and zn: "\<forall>k<MAXORDER. z_nfree (zones s z) k = 0" "z_lock (zones s z) = 0" "z_free_pages (zones s z) = 0"
  shows "\<exists>s' L'. free_area_init z s = Some s' \<and> binv (insert z Zs) (fa_heads (insert z Zs)) L' s' \<and>
     same_shape s s' \<and> only_zone z s s' \<and>
     (\<forall>z'. free_frames s' z' = (if z' = z then {p. in_zone s z p \<and> avail s p} else free_frames s z'))"
proof -
  let ?t = "free_area_heads z MAXORDER s"
  obtain M where bt: "binv (insert z Zs) (fa_heads (insert z Zs)) M ?t"
    using area_heads_binv [OF b z zs _ zn] pg by blast
  have eq: "in_zone ?t = in_zone s" "clean ?t = clean s" "avail ?t = avail s" "free_frames ?t = free_frames s"
    by (auto simp: fun_eq_iff in_zone_def clean_def avail_def free_frames_def free_head_def)
  have e: "free_frames ?t z = {}" using pg by (auto simp: eq(4) free_frames_def free_head_def)
  have cl: "\<forall>p. in_zone ?t z p \<longrightarrow> avail ?t p \<longrightarrow> clean ?t p" using pg eq by simp
  from area_pages_correct [OF bt insertI1 e cl order_refl]
  show ?thesis
    unfolding free_area_init_def Let_def eq
    by (auto simp: same_shape_def only_zone_def eq in_zone_def)
qed

lemma zone_init_correct:
  assumes n: "n \<le> max_pfn s" "max_pfn s \<noteq> n \<longrightarrow> 2 ^ (MAXORDER - 1) dvd n"
    and pg: "\<forall>p<max_pfn s. pg_order (mempage s p) = - 1 \<and> (avail s p \<longrightarrow> clean s p)"
    and zn: "\<forall>z. \<forall>k<MAXORDER. z_nfree (zones s z) k = 0"
  shows "\<exists>s' L'. zone_init n s = Some s' \<and> binv UNIV (fa_heads UNIV) L' s' \<and> max_pfn s' = max_pfn s \<and>
     (\<forall>p. in_zone s' ZNormal p \<longleftrightarrow> p < n) \<and> (\<forall>p. in_zone s' ZHigh p \<longleftrightarrow> n \<le> p \<and> p < max_pfn s) \<and>
     (\<forall>z. free_frames s' z = {p. in_zone s' z p \<and> avail s p})"
proof -
  let ?f1 = "\<lambda>zn. zn\<lparr>z_size := n, z_mempage := 0, z_free_pages := 0, z_lock := SPIN_LOCK_INIT\<rparr>"
  let ?f2 = "\<lambda>zn. zn\<lparr>z_size := max_pfn s - n, z_mempage := (if max_pfn s - n \<noteq> 0 then n else 0),
                z_free_pages := 0, z_lock := SPIN_LOCK_INIT\<rparr>"
  let ?s = "upd_zone ZHigh ?f2 (upd_zone ZNormal ?f1 s)"
  have inz: "in_zone ?s ZNormal p \<longleftrightarrow> p < n" "in_zone ?s ZHigh p \<longleftrightarrow> n \<le> p \<and> p < max_pfn s" for p
    using n(1) by (auto simp: in_zone_def upd_zone_def)
  have dj: "in_zone ?s z p \<Longrightarrow> in_zone ?s z' p \<Longrightarrow> z = z'" for z z' p
    using inz by (cases z; cases z') auto
  have zs: "zones_ok UNIV ?s" unfolding zones_ok_def
  proof (intro conjI ballI allI impI)
    fix z
    show "z_mempage (zones ?s z) + z_size (zones ?s z) \<le> max_pfn ?s"
      "2 ^ (MAXORDER - 1) dvd z_mempage (zones ?s z)"
      using n by (cases z; auto simp: upd_zone_def)+
  qed (rule dj)
  have pgs: "\<forall>p. in_zone ?s z p \<longrightarrow> pg_order (mempage ?s p) = - 1 \<and> (avail ?s p \<longrightarrow> clean ?s p)" for z
    using pg n(1) inz by (cases z) (auto simp: upd_zone_def avail_def clean_def)
  have zns: "\<forall>k<MAXORDER. z_nfree (zones ?s z) k = 0" "z_lock (zones ?s z) = 0" "z_free_pages (zones ?s z) = 0" for z
    using zn by (cases z; simp add: upd_zone_def SPIN_LOCK_INIT_def)+
  have zsZ: "zones_ok Zs ?s" for Zs using zs by (auto simp: zones_ok_def)
  have b0: "binv {} (fa_heads {}) L ?s" for L
    using zsZ by (simp add: binv_def bcore_def fa_heads_def family_def)
  from area_init_correct [OF b0 _ zsZ pgs zns, of ZNormal] obtain s1 L1 where
    s1: "free_area_init ZNormal ?s = Some s1" "binv {ZNormal} (fa_heads {ZNormal}) L1 s1" "same_shape ?s s1"
    "only_zone ZNormal ?s s1" and ff1: "\<forall>z'. free_frames s1 z' = (if z' = ZNormal then {p. in_zone ?s ZNormal p \<and> avail ?s p} else free_frames ?s z')"
    by auto
  note sel = same_shape_sel [OF s1(3)] and av = same_shape_avail [OF s1(3)]
  have hi: "\<forall>p. in_zone s1 ZHigh p \<longrightarrow> pg_order (mempage s1 p) = - 1 \<and> (avail s1 p \<longrightarrow> clean s1 p)"
    using pgs [of ZHigh] s1(4) inz unfolding sel av by (auto simp: only_zone_def)
  have zh: "zones s1 ZHigh = zones ?s ZHigh" using s1(4) by (simp add: only_zone_def)
  have un: "insert ZHigh {ZNormal} = UNIV" using zid.exhaust by auto
  from area_init_correct [OF s1(2) _ _ hi] obtain s2 L2 where
    s2: "free_area_init ZHigh s1 = Some s2" "binv UNIV (fa_heads UNIV) L2 s2" "same_shape s1 s2"
    "\<forall>z'. free_frames s2 z' = (if z' = ZHigh then {p. in_zone s1 ZHigh p \<and> avail s1 p} else free_frames s1 z')"
    using zns zh zsZ un unfolding sel by auto
  have "max_pfn (upd_zone ZNormal ?f1 s) = max_pfn s" by (simp add: upd_zone_def)
  then have "zone_init n s = Some s2"
    unfolding zone_init_def Let_def using s1(1) s2(1) by (simp split del: if_split)
  moreover have "free_frames s2 z = {p. in_zone s2 z p \<and> avail s p}" for z
    using s2(4) ff1 unfolding same_shape_sel [OF s2(3)] sel av
    by (cases z) (auto simp: avail_def upd_zone_def)
  moreover have "in_zone s2 ZNormal p \<longleftrightarrow> p < n" "in_zone s2 ZHigh p \<longleftrightarrow> n \<le> p \<and> p < max_pfn s"
    "max_pfn s2 = max_pfn s" for p
    using inz unfolding same_shape_sel [OF s2(3)] sel by (auto simp: upd_zone_def)
  ultimately show ?thesis using s2(2) by blast
qed

text \<open>The page array after \<^verbatim>\<open>mempage_init\<close>.\<close>

lemma mempage_init_upto_correct:
  assumes "KERNEL_BASE_ADDR \<le> base"
  shows "\<exists>s' av. mempage_init_upto ms base n s = Some s' \<and> max_pfn s' = max_pfn s \<and> zones s' = zones s \<and>
     (\<forall>p<n. is_page_aval ms (max_pfn s) base p = Some (av p) \<and> mempage s' p = boot_page (av p))"
proof (induction n)
  case 0
  then show ?case by simp
next
  case (Suc n)
  then obtain t av where t: "mempage_init_upto ms base n s = Some t" "max_pfn t = max_pfn s" "zones t = zones s"
    "\<forall>p<n. is_page_aval ms (max_pfn s) base p = Some (av p) \<and> mempage t p = boot_page (av p)" by blast
  obtain a where a: "is_page_aval ms (max_pfn s) base n = Some a"
    using assms by (simp add: is_page_aval_def v2p_def word_le_nat_alt)
  let ?t = "upd_lists (INIT_LIST_HEAD (PageNode n)) (upd_page n (\<lambda>_. boot_page a) t)"
  have "mempage_init_upto ms base (Suc n) s = Some ?t" using t a by simp
  moreover have "\<forall>p<Suc n. is_page_aval ms (max_pfn s) base p = Some ((av(n := a)) p) \<and>
      mempage ?t p = boot_page ((av(n := a)) p)"
    using t a by (auto simp: upd_lists_def upd_page_def less_Suc_eq)
  moreover have "max_pfn ?t = max_pfn s" "zones ?t = zones s" using t by (simp_all add: upd_lists_def upd_page_def)
  ultimately show ?case by blast
qed

end
