(* ===== verification/Buddy_Props.thy ===== *)
theory Buddy_Props
  imports Bootmm
begin

text \<open>
  The properties of the physical page allocator: allocation, freeing, the round trip of
  the page interface, and the state that boot leaves behind. The witnesses run on
  machines with four frames and with 1 GB of memory.
\<close>

section \<open>A small machine\<close>

definition blank_zone :: zone where
  "blank_zone = \<lparr>z_free_pages = 0, z_lock = 0, z_mempage = 0, z_size = 0, z_nfree = (\<lambda>_. 0)\<rparr>"

definition small_mm :: mmst where
  "small_mm = \<lparr>mempage = (\<lambda>_. boot_page True), max_pfn = 4, lists = \<lparr>nxt = id, prv = id\<rparr>,
     zones = (\<lambda>_. blank_zone), pmem = (\<lambda>_ _. 0)\<rparr>"

lemma mm_boot:
  assumes "n \<le> 0x30000"
  shows "\<exists>s L. zone_init n (small_mm\<lparr>max_pfn := n\<rparr>) = Some s \<and> binv UNIV (fa_heads UNIV) L s \<and> zone_layout s \<and>
     free_frames s ZNormal = {0..<n}"
proof -
  let ?s = "small_mm\<lparr>max_pfn := n\<rparr>"
  have av: "avail ?s p" for p by (simp add: avail_def small_mm_def boot_page_def pg_free_def)
  have "clean ?s p" for p by (simp add: clean_def small_mm_def boot_page_def pg_free_def pg_reserved_def)
  then obtain s L where s: "zone_init n ?s = Some s" "binv UNIV (fa_heads UNIV) L s"
    "\<forall>p. in_zone s ZNormal p \<longleftrightarrow> p < n" "\<forall>p. in_zone s ZHigh p \<longleftrightarrow> n \<le> p \<and> p < max_pfn ?s"
    "\<forall>z. free_frames s z = {p. in_zone s z p \<and> avail ?s p}"
    using zone_init_correct [of n ?s] by (auto simp: small_mm_def boot_page_def blank_zone_def)
  have "zone_layout s"
    using s(3,4) assms by (auto simp: zone_layout_def NORMAL_ADDR_val PAGE_SHIFT_def small_mm_def)
  then show ?thesis using s(1,2,3,5) av by auto
qed

lemma small_mm_boot:
  "\<exists>s L. zone_init 4 small_mm = Some s \<and> binv UNIV (fa_heads UNIV) L s \<and> zone_layout s \<and>
     free_frames s ZNormal = {0..<4}"
proof -
  have "small_mm\<lparr>max_pfn := 4\<rparr> = small_mm" by (simp add: small_mm_def)
  then show ?thesis using mm_boot [of 4] by simp
qed

lemma small_mm_pair:
  assumes b: "binv UNIV (fa_heads UNIV) L s" and f: "free_frames s ZNormal = {0..<4}"
  shows "\<exists>p j. 1 \<le> j \<and> free_head s ZNormal p j"
proof (rule ccontr)
  assume no: "\<not> ?thesis"
  have co: "coalesced s ZNormal" using b by (auto simp: binv_def)
  have h: "free_head s ZNormal p 0" if "p < 4" for p
  proof -
    have "p \<in> free_frames s ZNormal" using f that by simp
    then obtain q j where q: "free_head s ZNormal q j" "p \<in> block q j" by (auto simp: free_frames_def)
    then have "j = 0" using no by (metis One_nat_def Suc_leI neq0_conv)
    then show ?thesis using q by (auto simp: block_def)
  qed
  have "z_mempage (zones s ZNormal) = 0"
    using h [of 0] by (simp add: free_head_def in_zone_def)
  then show False
    using co [unfolded coalesced_def, rule_format, of 0 0] h [of 0] h [of 1] by (simp add: MAXORDER_def)
qed

section \<open>Boot memory map\<close>

lemma normal_le_max: "normal_last ms a \<le> max_pfn_last ms b" if "a \<le> b"
proof -
  have up: "b \<le> max_pfn_last ms b" for ms b
    by (induction ms arbitrary: b) (auto intro: order_trans [OF less_imp_le])
  show ?thesis using that
  proof (induction ms arbitrary: a b)
    case (Cons m ms)
    have "ucast NORMAL_ADDR \<le> max_pfn_last (m # ms) b"
      if "mm_type m = 1" "\<not> mm_addr m + mm_len m < ucast NORMAL_ADDR"
      using that up [of "if b < mm_addr m + mm_len m then mm_addr m + mm_len m else b" ms]
      by (auto split: if_splits intro: order_trans)
    then show ?case using Cons.prems by (auto intro!: Cons.IH)
  qed simp
qed

text \<open>What the map says about the frames, with the entries read as intervals of natural numbers.\<close>

definition ram_entry :: "mmap \<Rightarrow> bool" where
  "ram_entry m \<longleftrightarrow> mm_type m = 1"

definition ram_frame :: "mmap list \<Rightarrow> nat \<Rightarrow> bool" where
  "ram_frame ms p \<longleftrightarrow> (\<exists>m\<in>set ms. ram_entry m \<and> unat (mm_addr m) div 4096 \<le> p \<and>
     p < (unat (mm_addr m) + unat (mm_len m)) div 4096)"

lemma unat_pfn: "unat a < 2 ^ 43 \<Longrightarrow> unat (phys_to_pfn a) = unat a div 4096"
proof -
  assume "unat a < 2 ^ 43"
  then have "unat a div 4096 < 2 ^ 32" by (intro less_mult_imp_div_less) simp
  then show ?thesis
    by (simp add: phys_to_pfn_def unsigned_ucast_eq unat_div drop_bit_eq_div PAGE_SHIFT_def take_bit_eq_mod)
qed

lemma entry_end:
  fixes m :: mmap
  assumes "unat (mm_addr m) + unat (mm_len m) < 2 ^ 43"
  shows "unat (mm_addr m + mm_len m) = unat (mm_addr m) + unat (mm_len m)"
  using assms by (subst unat_add_lem [THEN iffD1]) simp_all

lemma max_pfn_last_bounds:
  "hi \<le> max_pfn_last ms hi" "m \<in> set ms \<Longrightarrow> ram_entry m \<Longrightarrow> mm_addr m + mm_len m \<le> max_pfn_last ms hi"
  "hi < u \<Longrightarrow> \<forall>m\<in>set ms. ram_entry m \<longrightarrow> mm_addr m + mm_len m < u \<Longrightarrow> max_pfn_last ms hi < u"
proof -
  show up: "hi \<le> max_pfn_last ms hi" for ms hi
    by (induction ms arbitrary: hi) (auto intro: order_trans [OF less_imp_le])
  show "m \<in> set ms \<Longrightarrow> ram_entry m \<Longrightarrow> mm_addr m + mm_len m \<le> max_pfn_last ms hi"
  proof (induction ms arbitrary: hi)
    case (Cons x ms)
    then show ?case
      using up [of "if hi < mm_addr m + mm_len m then mm_addr m + mm_len m else hi" ms]
      by (auto simp: ram_entry_def split: if_splits intro: order_trans)
  qed simp
  show "hi < u \<Longrightarrow> \<forall>m\<in>set ms. ram_entry m \<longrightarrow> mm_addr m + mm_len m < u \<Longrightarrow> max_pfn_last ms hi < u"
    by (induction ms arbitrary: hi) (auto simp: ram_entry_def)
qed

text \<open>On a machine whose memory ends below 8 TB the frame counts are exact and not negative.\<close>

definition small_map :: "mmap list \<Rightarrow> bool" where
  "small_map ms \<longleftrightarrow> (\<forall>m\<in>set ms. ram_entry m \<longrightarrow> unat (mm_addr m) + unat (mm_len m) < 2 ^ 43)"

lemma max_pfn_exact:
  assumes "small_map ms"
  shows "get_max_pfn ms = int (unat (max_pfn_last ms 0) div 4096)" "unat (max_pfn_last ms 0) < 2 ^ 43"
proof -
  have "\<forall>m\<in>set ms. ram_entry m \<longrightarrow> mm_addr m + mm_len m < (2 ^ 43 :: u64)"
    using assms entry_end by (auto simp: small_map_def word_less_nat_alt)
  then have "max_pfn_last ms 0 < (2 ^ 43 :: u64)" by (intro max_pfn_last_bounds(3)) simp_all
  then show l: "unat (max_pfn_last ms 0) < 2 ^ 43" by (simp add: word_less_nat_alt)
  have "unat (max_pfn_last ms 0) div 4096 < 2 ^ 31" using l by (intro less_mult_imp_div_less) simp
  moreover have "get_max_pfn ms = sint (phys_to_pfn (max_pfn_last ms 0))" by (simp add: get_max_pfn_def phys_to_pfn_def)
  moreover have "uint (phys_to_pfn (max_pfn_last ms 0)) = int (unat (max_pfn_last ms 0) div 4096)"
    using unat_pfn [OF l] by (metis uint_nat)
  ultimately show "get_max_pfn ms = int (unat (max_pfn_last ms 0) div 4096)"
    by (simp add: sint_uint signed_take_bit_int_eq_self)
qed

lemma get_normal_le_max:
  assumes "small_map ms"
  shows "int (get_normal_maxpfn ms) \<le> get_max_pfn ms"
proof -
  have l: "unat (normal_last ms 0) \<le> unat (max_pfn_last ms 0)"
    using normal_le_max [of 0 0 ms] by (simp add: word_le_nat_alt)
  then have "unat (normal_last ms 0) < 2 ^ 43" using max_pfn_exact(2) [OF assms] by simp
  then show ?thesis
    using l by (simp add: max_pfn_exact(1) [OF assms] get_normal_maxpfn_def unat_pfn div_le_mono)
qed

lemma ram_frame_aval:
  assumes "small_map ms" "KERNEL_BASE_ADDR \<le> base"
  shows "is_page_aval ms (nat (get_max_pfn ms)) base p = Some (unat (base - KERNEL_BASE_ADDR) div 4096 < p \<and> ram_frame ms p)"
proof -
  let ?M = "max_pfn_last ms 0"
  have pa: "unat base - unat KERNEL_BASE_ADDR = unat (base - KERNEL_BASE_ADDR)"
    using assms(2) by (simp add: unat_sub)
  have l: "unat (base - KERNEL_BASE_ADDR) < 2 ^ 43" using unsigned_less [where ?'a = nat, of "base - KERNEL_BASE_ADDR"] by simp
  then have "unat (of_nat (unat (base - KERNEL_BASE_ADDR)) :: u64) = unat (base - KERNEL_BASE_ADDR)"
    by (simp only: unsigned_of_nat) (simp add: take_bit_nat_eq_self)
  then have "unat (phys_to_pfn (of_nat (unat (base - KERNEL_BASE_ADDR)))) = unat (base - KERNEL_BASE_ADDR) div 4096"
    using unat_pfn [of "of_nat (unat (base - KERNEL_BASE_ADDR))"] l by (simp only:)
  then have pf: "unat (phys_to_pfn (ucast (base - KERNEL_BASE_ADDR))) = unat (base - KERNEL_BASE_ADDR) div 4096" by simp
  have en: "unat (phys_to_pfn (mm_addr m)) = unat (mm_addr m) div 4096"
    "unat (phys_to_pfn (mm_addr m + mm_len m)) = (unat (mm_addr m) + unat (mm_len m)) div 4096"
    if "m \<in> set ms" "ram_entry m" for m
    using assms(1) that entry_end [of m] by (auto simp: small_map_def unat_pfn)
  have "p < unat ?M div 4096" if "ram_frame ms p"
  proof -
    obtain m where m: "m \<in> set ms" "ram_entry m" "p < (unat (mm_addr m) + unat (mm_len m)) div 4096"
      using \<open>ram_frame ms p\<close> by (auto simp: ram_frame_def)
    have "unat (mm_addr m) + unat (mm_len m) \<le> unat ?M"
      using max_pfn_last_bounds(2) [OF m(1,2), of 0] assms(1) m(1,2) entry_end [of m]
      by (auto simp: small_map_def word_le_nat_alt)
    then show ?thesis using m(3) by (meson div_le_mono le_trans not_le)
  qed
  moreover have "(\<exists>m\<in>set ms. mm_type m = 1 \<and> unat (phys_to_pfn (mm_addr m)) \<le> p \<and>
      p < unat (phys_to_pfn (mm_addr m + mm_len m))) = ram_frame ms p"
    using en by (auto simp: ram_frame_def ram_entry_def)
  ultimately show ?thesis
    using assms(2) max_pfn_exact(1) [OF assms(1)]
    by (auto simp: is_page_aval_def v2p_def word_le_nat_alt pa pf not_le)
qed

text \<open>
  If some memory reaches the end of the normal zone, that zone ends there, at a multiple of
  the largest block.
\<close>

lemma normal_zone_full:
  assumes "m \<in> set ms" "ram_entry m" "mm_addr m < ucast NORMAL_ADDR" "ucast NORMAL_ADDR \<le> mm_addr m + mm_len m"
  shows "get_normal_maxpfn ms = 0x30000"
proof -
  have "normal_last ms hi = ucast NORMAL_ADDR" for hi
    using assms by (induction ms arbitrary: hi) (auto simp: ram_entry_def)
  then show ?thesis by (simp add: get_normal_maxpfn_def phys_to_pfn_def NORMAL_ADDR_val PAGE_SHIFT_def)
qed

lemma boot_correct:
  assumes "KERNEL_BASE_ADDR \<le> base" "n \<le> max_pfn s" "max_pfn s \<noteq> n \<longrightarrow> 2 ^ (MAXORDER - 1) dvd n"
    "\<forall>z. \<forall>k<MAXORDER. z_nfree (zones s z) k = 0"
  shows "\<exists>s1 s2 L. mempage_init ms base s = Some s1 \<and> zone_init n s1 = Some s2 \<and>
     binv UNIV (fa_heads UNIV) L s2 \<and>
     (\<forall>p. p \<in> free_frames s2 ZNormal \<longleftrightarrow> p < n \<and> is_page_aval ms (max_pfn s) base p = Some True) \<and>
     (\<forall>p. p \<in> free_frames s2 ZHigh \<longleftrightarrow> n \<le> p \<and> is_page_aval ms (max_pfn s) base p = Some True)"
proof -
  obtain s1 av where s1: "mempage_init ms base s = Some s1" "max_pfn s1 = max_pfn s" "zones s1 = zones s"
    and av: "\<forall>p<max_pfn s. is_page_aval ms (max_pfn s) base p = Some (av p) \<and> mempage s1 p = boot_page (av p)"
    using mempage_init_upto_correct [OF assms(1)] unfolding mempage_init_def by metis
  have hi: "is_page_aval ms (max_pfn s) base p = Some True \<Longrightarrow> p < max_pfn s" for p
    by (auto simp: is_page_aval_def v2p_def split: if_splits)
  have a: "avail s1 p \<longleftrightarrow> is_page_aval ms (max_pfn s) base p = Some True" if "p < max_pfn s" for p
    using av that by (simp add: avail_def boot_page_def pg_free_def pg_reserved_def)
  have "\<forall>p<max_pfn s1. pg_order (mempage s1 p) = - 1 \<and> (avail s1 p \<longrightarrow> clean s1 p)"
    using av s1(2) by (simp add: boot_page_def avail_def clean_def pg_free_def pg_reserved_def)
  then obtain s2 L where s2: "zone_init n s1 = Some s2" "binv UNIV (fa_heads UNIV) L s2"
    "\<forall>p. in_zone s2 ZNormal p \<longleftrightarrow> p < n" "\<forall>p. in_zone s2 ZHigh p \<longleftrightarrow> n \<le> p \<and> p < max_pfn s"
    "\<forall>z. free_frames s2 z = {p. in_zone s2 z p \<and> avail s1 p}"
    using zone_init_correct [of n s1] assms(2-4) s1(2,3) by auto
  then have "p \<in> free_frames s2 ZNormal \<longleftrightarrow> p < n \<and> is_page_aval ms (max_pfn s) base p = Some True"
    "p \<in> free_frames s2 ZHigh \<longleftrightarrow> n \<le> p \<and> is_page_aval ms (max_pfn s) base p = Some True" for p
    using a hi assms(2) by auto
  then show ?thesis using s1(1) s2(1,2) by blast
qed

section \<open>Properties\<close>

text \<open>
  C1. On a well-formed buddy system \<^verbatim>\<open>alloc_buddy\<close> always returns. Either it hands out a
  block of the requested order that lies inside the zone, is aligned to its size and was
  free; then exactly these frames leave the free memory of the zone, the other zone is
  untouched, no page descriptor changes but for its order, and the structure is
  well formed again (lists, order fields, counters, disjointness, no unmerged buddies).
  Or it returns \<^verbatim>\<open>NULL\<close> and changes nothing, and then no free block of the requested
  order or a larger one exists.
\<close>

theorem alloc_buddy_correct:
  assumes "binv Zs H L s" "z \<in> Zs" "k < MAXORDER"
  shows "alloc_buddy z k s = Some (None, s) \<and> \<not> (\<exists>p j. k \<le> j \<and> free_head s z p j) \<or>
    (\<exists>p s' L'. alloc_buddy z k s = Some (Some p, s') \<and> binv Zs H L' s' \<and> same_shape s s' \<and>
       blk_ok s z p k \<and> block p k \<subseteq> free_frames s z \<and> free_frames s' z = free_frames s z - block p k \<and>
       (\<forall>z'. z' \<noteq> z \<longrightarrow> free_frames s' z' = free_frames s z'))"
  using alloc_buddy_spec [OF assms] by (elim disjE) (auto simp: not_le)

theorem alloc_buddy_correct_witness:
  "\<exists>s L p s' L'. zone_init 4 small_mm = Some s \<and> binv UNIV (fa_heads UNIV) L s \<and>
     alloc_buddy ZNormal 1 s = Some (Some p, s') \<and>
     binv UNIV (fa_heads UNIV) L' s' \<and> card (free_frames s' ZNormal) = 2"
proof -
  obtain s L where s: "zone_init 4 small_mm = Some s" "binv UNIV (fa_heads UNIV) L s"
    "free_frames s ZNormal = {0..<4}"
    using small_mm_boot by blast
  obtain p s' L' where p: "alloc_buddy ZNormal 1 s = Some (Some p, s')" "binv UNIV (fa_heads UNIV) L' s'"
    "block p 1 \<subseteq> {0..<4}" "free_frames s' ZNormal = {0..<4} - block p 1"
    using alloc_buddy_correct [OF s(2) UNIV_I, of 1 ZNormal] small_mm_pair [OF s(2,3)] s(3)
    by (auto simp: MAXORDER_def)
  have "card (free_frames s' ZNormal) = 2"
    unfolding p(4) using p(3) by (subst card_Diff_subset) (auto simp: block_def)
  then show ?thesis using s(1,2) p(1,2) by blast
qed

text \<open>
  C2. Freeing a block that lies outside the allocator (aligned, unreferenced, not
  reserved, on no list) always succeeds: no assertion of \<^verbatim>\<open>_free_buddy\<close> fails, the merge
  loop ends, exactly the frames of the block join the free memory of the zone, and the
  structure is well formed again. In particular all free buddies have been merged.
\<close>

theorem free_buddy_correct:
  assumes "binv Zs H L s" "z \<in> Zs" "loose Zs H L z p k s"
  shows "\<exists>s' L'. free_buddy z p k s = Some s' \<and> binv Zs H L' s' \<and> same_shape s s' \<and>
    free_frames s' z = free_frames s z \<union> block p k \<and>
    (\<forall>z'. z' \<noteq> z \<longrightarrow> free_frames s' z' = free_frames s z')"
  using free_buddy_spec [OF assms] by auto

theorem free_buddy_correct_witness:
  "\<exists>s p s' L s'' L'. alloc_buddy ZNormal 1 s = Some (Some p, s') \<and> loose UNIV (fa_heads UNIV) L ZNormal p 1 s' \<and>
     free_buddy ZNormal p 1 s' = Some s'' \<and> binv UNIV (fa_heads UNIV) L' s'' \<and>
     free_frames s'' ZNormal = {0..<4}"
proof -
  obtain s L where s: "binv UNIV (fa_heads UNIV) L s" "free_frames s ZNormal = {0..<4}"
    using small_mm_boot by blast
  have core: "bcore UNIV (fa_heads UNIV) L s" using s(1) by (simp add: binv_def)
  have k: "1 < MAXORDER" by (simp add: MAXORDER_def)
  obtain p s' L' where p: "alloc_buddy ZNormal 1 s = Some (Some p, s')" "binv UNIV (fa_heads UNIV) L' s'"
    "same_off UNIV L L'" "same_shape s s'" "blk_ok s ZNormal p 1"
    "block p 1 \<subseteq> free_frames s ZNormal" "free_frames s' ZNormal = free_frames s ZNormal - block p 1"
    using alloc_buddy_spec [OF s(1) UNIV_I k, of ZNormal] small_mm_pair [OF s] by auto
  have lo: "loose UNIV (fa_heads UNIV) L' ZNormal p 1 s'"
    using taken_loose [OF core UNIV_I p(5,6,4,3,7)] .
  from free_buddy_correct [OF p(2) UNIV_I lo] obtain s2 L2 where s2: "free_buddy ZNormal p 1 s' = Some s2"
    "binv UNIV (fa_heads UNIV) L2 s2" "free_frames s2 ZNormal = free_frames s' ZNormal \<union> block p 1" by blast
  have "free_frames s2 ZNormal = {0..<4}" using s2(3) p(6,7) s(2) by auto
  then show ?thesis using p(1) lo s2(1,2) by blast
qed

text \<open>
  C3. The page interface: what \<^verbatim>\<open>pages_alloc\<close> hands out, \<^verbatim>\<open>pages_free\<close> takes back. The
  frames come zeroed if \<^verbatim>\<open>_GFP_ZERO\<close> asks for it, no other frame is written, the free
  finds the zone the block came from, and afterwards both zones have exactly the free
  frames they had. The call must not ask for zeroed frames of the high zone, which the
  kernel cannot address.
\<close>

theorem pages_round_trip:
  assumes "binv UNIV H L s" "zone_layout s" "k < MAXORDER"
    "\<not> (flage AND GFP_ZERO \<noteq> 0 \<and> flage AND GFP_HIGH \<noteq> 0)"
    "pages_alloc flage k s = Some (Some p, s1)"
  shows "(\<forall>f. pmem s1 f = (if flage AND GFP_ZERO \<noteq> 0 \<and> f \<in> block p k then (\<lambda>_. 0) else pmem s f)) \<and>
    (\<exists>s2 L'. pages_free p k s1 = Some s2 \<and> binv UNIV H L' s2 \<and> (\<forall>z. free_frames s2 z = free_frames s z))"
proof -
  let ?z = "gfp_zone flage"
  obtain L1 where s1: "binv UNIV H L1 s1" "loose UNIV H L1 ?z p k s1" "block p k \<subseteq> free_frames s ?z"
    "same_shape s (s1\<lparr>pmem := pmem s\<rparr>)"
    "\<forall>z'. free_frames s1 z' = (if z' = ?z then free_frames s z' - block p k else free_frames s z')"
    "\<forall>f. pmem s1 f = (if flage AND GFP_ZERO \<noteq> 0 \<and> f \<in> block p k then (\<lambda>_. 0) else pmem s f)"
    using pages_alloc_spec [OF assms(1-4)] assms(5) by auto
  have "zone_layout s1"
    using zone_layout_shape [OF s1(4)] assms(2) by (simp add: zone_layout_def in_zone_def)
  from pages_free_spec [OF s1(1) this s1(2)] obtain s2 L' where "pages_free p k s1 = Some s2"
    "binv UNIV H L' s2" "\<forall>z'. free_frames s2 z' = (if z' = ?z then free_frames s1 ?z \<union> block p k else free_frames s1 z')"
    by blast
  moreover from this(3) have "free_frames s2 z = free_frames s z" for z using s1(3,5) by auto
  ultimately show ?thesis using s1(6) by blast
qed

theorem pages_round_trip_witness:
  "\<exists>s p s1 s2. pages_alloc GFP_ZERO 1 s = Some (Some p, s1) \<and> pages_free p 1 s1 = Some s2 \<and>
     free_frames s2 ZNormal = {0..<4}"
proof -
  obtain s L where s: "binv UNIV (fa_heads UNIV) L s" "free_frames s ZNormal = {0..<4}" "zone_layout s"
    using small_mm_boot by blast
  have k: "1 < MAXORDER" by (simp add: MAXORDER_def)
  have fl: "\<not> (GFP_ZERO AND GFP_ZERO \<noteq> 0 \<and> GFP_ZERO AND GFP_HIGH \<noteq> 0)" and z: "gfp_zone GFP_ZERO = ZNormal"
    by (simp_all add: GFP_ZERO_def GFP_HIGH_def gfp_zone_def)
  obtain p s1 where p: "pages_alloc GFP_ZERO 1 s = Some (Some p, s1)"
    using pages_alloc_spec [OF s(1,3) k fl] small_mm_pair [OF s(1,2)] unfolding z by auto
  from pages_round_trip [OF s(1,3) k fl p] obtain s2 where "pages_free p 1 s1 = Some s2"
    "free_frames s2 ZNormal = free_frames s ZNormal" by auto
  with p s(2) show ?thesis by metis
qed

text \<open>
  C4. Boot builds a well-formed buddy system. Four things are assumed of the machine: every RAM
  entry of the memory map ends below 8 TB, so that the frame numbers fit the \<^verbatim>\<open>int\<close>s of the
  code; if there is memory above the normal zone, the normal zone ends at a multiple of 4 MB,
  as it does when RAM reaches \<^verbatim>\<open>NORMAL_ADDR\<close> (otherwise the alignment assertion of
  \<^verbatim>\<open>_free_buddy\<close> can fail); the boot allocator's \<^verbatim>\<open>base\<close> is a kernel address;
  and the counters of the free lists are 0. Then \<^verbatim>\<open>mempage_init\<close> and \<^verbatim>\<open>zone_init\<close>
  return, and the free frames of each zone are exactly the frames of that zone that an entry of
  the map reports as RAM (its first frame included even if the entry starts in the middle of
  it) and that lie above the frame of \<^verbatim>\<open>base\<close>. The normal zone never exceeds the page array.
\<close>

theorem boot_free_memory:
  assumes "KERNEL_BASE_ADDR \<le> base" "small_map ms" "max_pfn s = nat (get_max_pfn ms)"
    "n = get_normal_maxpfn ms" "max_pfn s \<noteq> n \<longrightarrow> 2 ^ (MAXORDER - 1) dvd n"
    "\<forall>z. \<forall>k<MAXORDER. z_nfree (zones s z) k = 0"
  shows "int (max_pfn s) = get_max_pfn ms \<and> n \<le> max_pfn s \<and>
    (\<exists>s1 s2 L. mempage_init ms base s = Some s1 \<and> zone_init n s1 = Some s2 \<and> binv UNIV (fa_heads UNIV) L s2 \<and>
     (\<forall>z p. p \<in> free_frames s2 z \<longleftrightarrow> (if z = ZNormal then p < n else n \<le> p) \<and>
        unat (base - KERNEL_BASE_ADDR) div 4096 < p \<and> ram_frame ms p))"
proof -
  have m: "int (max_pfn s) = get_max_pfn ms" using assms(3) max_pfn_exact(1) [OF assms(2)] by simp
  then have n: "n \<le> max_pfn s" using get_normal_le_max [OF assms(2)] assms(4) by simp
  have av: "is_page_aval ms (max_pfn s) base p = Some (unat (base - KERNEL_BASE_ADDR) div 4096 < p \<and> ram_frame ms p)" for p
    using ram_frame_aval [OF assms(2,1)] assms(3) by simp
  obtain s1 s2 L where r: "mempage_init ms base s = Some s1" "zone_init n s1 = Some s2" "binv UNIV (fa_heads UNIV) L s2"
    "\<And>p. p \<in> free_frames s2 ZNormal \<longleftrightarrow> p < n \<and> is_page_aval ms (max_pfn s) base p = Some True"
    "\<And>p. p \<in> free_frames s2 ZHigh \<longleftrightarrow> n \<le> p \<and> is_page_aval ms (max_pfn s) base p = Some True"
    using boot_correct [OF assms(1) n assms(5,6)] by blast
  have "p \<in> free_frames s2 z \<longleftrightarrow> (if z = ZNormal then p < n else n \<le> p) \<and>
      unat (base - KERNEL_BASE_ADDR) div 4096 < p \<and> ram_frame ms p" for z p
    using r(4,5) [of p] av [of p] by (cases z) auto
  then show ?thesis using m n r(1-3) by blast
qed

text \<open>A machine with 1 GB of memory, 256 MB of it above the normal zone, and a kernel of 16 MB.\<close>

theorem boot_free_memory_witness:
  "\<exists>s1 s2 L. mempage_init [\<lparr>mm_addr = 0, mm_len = 0x9F000, mm_type = 1\<rparr>, \<lparr>mm_addr = 0x9F000, mm_len = 0x61000, mm_type = 2\<rparr>,
       \<lparr>mm_addr = 0x100000, mm_len = 0x3FF00000, mm_type = 1\<rparr>] 0xC1000000 (small_mm\<lparr>max_pfn := 0x40000\<rparr>) = Some s1 \<and>
     zone_init 0x30000 s1 = Some s2 \<and> binv UNIV (fa_heads UNIV) L s2 \<and>
     0x1001 \<in> free_frames s2 ZNormal \<and> 0x1000 \<notin> free_frames s2 ZNormal \<and> 0x30000 \<in> free_frames s2 ZHigh"
proof -
  let ?ms = "[\<lparr>mm_addr = 0, mm_len = 0x9F000, mm_type = 1\<rparr>, \<lparr>mm_addr = 0x9F000, mm_len = 0x61000, mm_type = 2\<rparr>,
       \<lparr>mm_addr = 0x100000, mm_len = 0x3FF00000, mm_type = 1\<rparr>]"
  let ?s = "small_mm\<lparr>max_pfn := 0x40000\<rparr>"
  have sm: "small_map ?ms" by (simp add: small_map_def ram_entry_def)
  have n: "0x30000 = get_normal_maxpfn ?ms"
    using normal_zone_full [of "\<lparr>mm_addr = 0x100000, mm_len = 0x3FF00000, mm_type = 1\<rparr>" ?ms]
    by (simp add: ram_entry_def NORMAL_ADDR_val)
  have m: "max_pfn ?s = nat (get_max_pfn ?ms)" by (simp add: max_pfn_exact(1) [OF sm])
  have b: "KERNEL_BASE_ADDR \<le> (0xC1000000::u32)" "unat ((0xC1000000::u32) - KERNEL_BASE_ADDR) div 4096 = 0x1000"
    by (simp_all add: KERNEL_BASE_ADDR_def)
  have rf: "ram_frame ?ms 0x1001" "ram_frame ?ms 0x30000" by (simp_all add: ram_frame_def ram_entry_def)
  have "max_pfn ?s \<noteq> 0x30000 \<longrightarrow> 2 ^ (MAXORDER - 1) dvd (0x30000::nat)" by (simp add: MAXORDER_def)
  from boot_free_memory [OF b(1) sm m n this] obtain s1 s2 L where r: "mempage_init ?ms 0xC1000000 ?s = Some s1"
    "zone_init 0x30000 s1 = Some s2" "binv UNIV (fa_heads UNIV) L s2"
    "\<And>z p. p \<in> free_frames s2 z \<longleftrightarrow> (if z = ZNormal then p < 0x30000 else 0x30000 \<le> p) \<and> 0x1000 < p \<and> ram_frame ?ms p"
    unfolding b(2) by (auto simp: small_mm_def blank_zone_def)
  show ?thesis using r(1-3) r(4) [of "0x1001" ZNormal] r(4) [of "0x1000" ZNormal] r(4) [of "0x30000" ZHigh] rf by auto
qed

end
