(* ===== verification/Slab.thy ===== *)
theory Slab
  imports Buddy_Props
begin

text \<open>
  The object allocator \<^verbatim>\<open>kernel/mm/slab.c\<close> with the declarations of \<^verbatim>\<open>include/mm/slab.h\<close>.
  A slab is a block of \<open>2 ^ 10\<close> frames cut into objects of one size class; the word after
  the payload of a free object points to the next free object. Pointers are kernel virtual
  addresses (0 for \<^verbatim>\<open>NULL\<close>), and \<open>peek32\<close> and \<open>poke32\<close> are the 32-bit accesses through
  the direct mapping of physical memory. \<^verbatim>\<open>get_cpuid()\<close> is the argument \<open>cpu\<close>: every
  processor has its own slab per size class, and the lock of \<^verbatim>\<open>kmalloc\<close> and \<^verbatim>\<open>kfree\<close> makes
  their calls a sequence.
\<close>

section \<open>Data\<close>

definition SLABORDER :: nat where "SLABORDER = 10"

definition NCACHES :: nat where "NCACHES = PAGE_SHIFT"

definition CPUNUMS :: nat where "CPUNUMS = 256"

definition cache_sizes :: "nat list" where
  "cache_sizes = [8, 16, 32, 64, 96, 128, 192, 256, 512, 1024, 2048, 4096]"

abbreviation cache_size :: "nat \<Rightarrow> nat" where "cache_size j \<equiv> cache_sizes ! j"

record mem_cache_node =
  nd_lock :: spinlock
  nd_nfull :: int
  nd_npartial :: int
  nd_nslub :: int

record mem_cache_cpu =
  cc_freelist :: nat
  cc_page :: "nat option"

record mem_cache =
  mc_size :: nat
  mc_objsize :: nat
  mc_offset :: nat
  mc_order :: nat
  mc_objects :: nat
  mc_node :: mem_cache_node
  mc_cpu :: "nat \<Rightarrow> mem_cache_cpu"

record slst =
  sl_mm :: mmst
  kmalloc_caches :: "nat \<Rightarrow> mem_cache"
  size_map :: "nat \<Rightarrow> nat"
  slablock :: spinlock

definition peek32 :: "mmst \<Rightarrow> nat \<Rightarrow> u32" where
  "peek32 s a =
     (let pa = a - unat KERNEL_BASE_ADDR;
          w = pmem s (pa div 4096) (pa mod 4096 div 8)
      in if pa mod 8 < 4 then ucast w else ucast (drop_bit 32 w))"

definition poke32 :: "nat \<Rightarrow> u32 \<Rightarrow> mmst \<Rightarrow> mmst" where
  "poke32 a v s =
     (let pa = a - unat KERNEL_BASE_ADDR; f = pa div 4096; i = pa mod 4096 div 8;
          w = pmem s f i;
          w' = (if pa mod 8 < 4 then (w AND NOT (mask 32)) OR ucast v
                else (w AND mask 32) OR push_bit 32 (ucast v))
      in s\<lparr>pmem := (pmem s)(f := (pmem s f)(i := w'))\<rparr>)"

text \<open>\<^verbatim>\<open>object[c->offset]\<close> for an object pointer, as a pointer.\<close>

definition get_link :: "nat \<Rightarrow> nat \<Rightarrow> mmst \<Rightarrow> nat" where
  "get_link off obj s = unat (peek32 s (obj + 4 * off))"

definition set_link :: "nat \<Rightarrow> nat \<Rightarrow> nat \<Rightarrow> mmst \<Rightarrow> mmst" where
  "set_link off obj v = poke32 (obj + 4 * off) (of_nat v)"

definition upd_mm :: "(mmst \<Rightarrow> mmst) \<Rightarrow> slst \<Rightarrow> slst" where
  "upd_mm f st = st\<lparr>sl_mm := f (sl_mm st)\<rparr>"

definition upd_cache :: "nat \<Rightarrow> (mem_cache \<Rightarrow> mem_cache) \<Rightarrow> slst \<Rightarrow> slst" where
  "upd_cache c f st = st\<lparr>kmalloc_caches := (kmalloc_caches st)(c := f (kmalloc_caches st c))\<rparr>"

definition upd_node :: "nat \<Rightarrow> (mem_cache_node \<Rightarrow> mem_cache_node) \<Rightarrow> slst \<Rightarrow> slst" where
  "upd_node c f = upd_cache c (\<lambda>k. k\<lparr>mc_node := f (mc_node k)\<rparr>)"

definition upd_cpu :: "nat \<Rightarrow> nat \<Rightarrow> (mem_cache_cpu \<Rightarrow> mem_cache_cpu) \<Rightarrow> slst \<Rightarrow> slst" where
  "upd_cpu c cpu f = upd_cache c (\<lambda>k. k\<lparr>mc_cpu := (mc_cpu k)(cpu := f (mc_cpu k cpu))\<rparr>)"

definition upd_slab :: "nat \<Rightarrow> (page \<Rightarrow> page) \<Rightarrow> slst \<Rightarrow> slst" where
  "upd_slab p f = upd_mm (upd_page p f)"

abbreviation get_page :: "slst \<Rightarrow> nat \<Rightarrow> page" where "get_page st p \<equiv> mempage (sl_mm st) p"

abbreviation get_cpu_slab :: "slst \<Rightarrow> nat \<Rightarrow> nat \<Rightarrow> mem_cache_cpu" where
  "get_cpu_slab st c cpu \<equiv> mc_cpu (kmalloc_caches st c) cpu"

section \<open>Initialisation\<close>

fun size_map_fill :: "nat \<Rightarrow> nat \<Rightarrow> (nat \<Rightarrow> nat) \<Rightarrow> nat \<Rightarrow> nat" where
  "size_map_fill j 0 m = m(0 := j)"
| "size_map_fill j (Suc i) m = size_map_fill j i (m(Suc i := j))"

fun size_map_classes :: "nat \<Rightarrow> (nat \<Rightarrow> nat) \<Rightarrow> nat \<Rightarrow> nat" where
  "size_map_classes 0 m = m"
| "size_map_classes (Suc j) m = size_map_classes j (size_map_fill j (cache_size j) m)"

definition size_map_init :: "slst \<Rightarrow> slst" where
  "size_map_init st = st\<lparr>size_map := (size_map_classes NCACHES (size_map st))(0 := 0)\<rparr>"

definition percpu_cache_init :: "nat \<Rightarrow> slst \<Rightarrow> slst" where
  "percpu_cache_init c = upd_cache c (\<lambda>k. k\<lparr>mc_cpu := (\<lambda>i. if i < CPUNUMS
      then (mc_cpu k i)\<lparr>cc_freelist := 0, cc_page := None\<rparr> else mc_cpu k i)\<rparr>)"

definition node_cache_init :: "nat \<Rightarrow> slst \<Rightarrow> slst" where
  "node_cache_init c st =
     (let st1 = upd_mm (upd_lists (INIT_LIST_HEAD (FullSlab c))) st;
          st2 = upd_mm (upd_lists (INIT_LIST_HEAD (PartialSlab c))) st1
      in upd_node c (\<lambda>n. n\<lparr>nd_nslub := 0, nd_npartial := 0, nd_nfull := 0, nd_lock := SPIN_LOCK_INIT\<rparr>) st2)"

definition kmem_cache_init_one :: "nat \<Rightarrow> slst \<Rightarrow> slst" where
  "kmem_cache_init_one i st =
     (let st1 = upd_cache i (\<lambda>k. k\<lparr>
            mc_offset := unat (ROUNDUP (of_nat (cache_size i)) 4) div 4,
            mc_size := unat (ROUNDUP (of_nat (cache_size i)) 4) + 4,
            mc_objsize := cache_size i,
            mc_order := SLABORDER\<rparr>) st;
          st2 = upd_cache i (\<lambda>k. k\<lparr>mc_objects := unat PAGE_SIZE * 2 ^ SLABORDER div mc_size k\<rparr>) st1
      in upd_mm (upd_lists (INIT_LIST_HEAD (CacheNode i))) (node_cache_init i (percpu_cache_init i st2)))"

fun kmem_cache_init_upto :: "nat \<Rightarrow> slst \<Rightarrow> slst" where
  "kmem_cache_init_upto 0 st = st"
| "kmem_cache_init_upto (Suc i) st = kmem_cache_init_one i (kmem_cache_init_upto i st)"

definition kmem_cache_init :: "slst \<Rightarrow> slst" where
  "kmem_cache_init = kmem_cache_init_upto NCACHES"

definition slab_init :: "slst \<Rightarrow> slst" where
  "slab_init st = kmem_cache_init (size_map_init st)"

section \<open>Slabs\<close>

definition node_lock :: "nat \<Rightarrow> slst \<Rightarrow> slst option" where
  "node_lock c st = do {
     lk \<leftarrow> spin_lock (nd_lock (mc_node (kmalloc_caches st c)));
     Some (upd_node c (\<lambda>n. n\<lparr>nd_lock := lk\<rparr>) st) }"

definition node_unlock :: "nat \<Rightarrow> slst \<Rightarrow> slst" where
  "node_unlock c = upd_node c (\<lambda>n. n\<lparr>nd_lock := spin_unlock (nd_lock n)\<rparr>)"

definition slab_lock :: "nat \<Rightarrow> slst \<Rightarrow> slst option" where
  "slab_lock p st = do {
     lk \<leftarrow> spin_lock (pg_slublock (get_page st p));
     Some (upd_slab p (\<lambda>g. g\<lparr>pg_slublock := lk\<rparr>) st) }"

definition slab_unlock :: "nat \<Rightarrow> slst \<Rightarrow> slst" where
  "slab_unlock p = upd_slab p (\<lambda>g. g\<lparr>pg_slublock := spin_unlock (pg_slublock g)\<rparr>)"

definition slab_trylock :: "nat \<Rightarrow> slst \<Rightarrow> bool \<times> slst" where
  "slab_trylock p st =
     (let (ok, lk) = spin_trylock (pg_slublock (get_page st p))
      in (ok, upd_slab p (\<lambda>g. g\<lparr>pg_slublock := lk\<rparr>) st))"

definition PageSlubFrozen :: "nat \<Rightarrow> slst \<Rightarrow> bool" where
  "PageSlubFrozen p st \<longleftrightarrow> pg_flags (get_page st p) AND pg_active \<noteq> 0"

definition SetPageSlubFrozen :: "nat \<Rightarrow> slst \<Rightarrow> slst" where
  "SetPageSlubFrozen p = upd_slab p (\<lambda>g. g\<lparr>pg_flags := pg_flags g OR pg_active\<rparr>)"

definition ClearPageSlubFrozen :: "nat \<Rightarrow> slst \<Rightarrow> slst" where
  "ClearPageSlubFrozen p = upd_slab p (\<lambda>g. g\<lparr>pg_flags := pg_flags g AND NOT pg_active\<rparr>)"

text \<open>The loop of \<^verbatim>\<open>new_slab_init\<close> from \<open>start\<close>, with the last object written; a size of 0 would never end.\<close>

function thread_slab :: "nat \<Rightarrow> nat \<Rightarrow> nat \<Rightarrow> nat \<Rightarrow> nat option \<Rightarrow> mmst \<Rightarrow> (nat option \<times> mmst) option" where
  "thread_slab sz off start fin object s =
     (if start < fin then
        if sz = 0 then None
        else thread_slab sz off (start + sz) fin (Some start) (set_link off start (start + sz) s)
      else Some (object, s))"
  by pat_completeness auto
termination
  by (relation "measure (\<lambda>(sz, off, start, fin, object, s). fin - start)") auto

declare thread_slab.simps [simp del]

definition new_slab_init :: "nat \<Rightarrow> nat \<Rightarrow> slst \<Rightarrow> slst option" where
  "new_slab_init c pf st = do {
     v \<leftarrow> page2virt (sl_mm st) pf;
     let k = kmalloc_caches st c;
     let st1 = upd_slab pf (\<lambda>g. g\<lparr>pg_flags := pg_flags g OR pg_slab_flag, pg_freelist := v, pg_inuse := 0,
                 pg_slab := Some c, pg_slublock := SPIN_LOCK_INIT\<rparr>) st;
     let start = pg_freelist (get_page st1 pf);
     (object, s2) \<leftarrow> thread_slab (mc_size k) (mc_offset k) start (start + mc_objects k * mc_size k) None (sl_mm st1);
     obj \<leftarrow> object;
     Some (st1\<lparr>sl_mm := set_link (mc_offset k) obj 0 s2\<rparr>) }"

definition new_slab :: "nat \<Rightarrow> slst \<Rightarrow> (nat option \<times> slst) option" where
  "new_slab c st = do {
     (page, s1) \<leftarrow> pages_alloc GFP_ZERO (mc_order (kmalloc_caches st c)) (sl_mm st);
     let st1 = st\<lparr>sl_mm := s1\<rparr>;
     case page of
       None \<Rightarrow> Some (None, st1)
     | Some p \<Rightarrow> do {
         st2 \<leftarrow> new_slab_init c p st1;
         st3 \<leftarrow> node_lock c st2;
         Some (Some p, node_unlock c (upd_node c (\<lambda>n. n\<lparr>nd_nslub := nd_nslub n + 1\<rparr>) st3)) } }"

definition add_partial :: "nat \<Rightarrow> nat \<Rightarrow> slst \<Rightarrow> slst option" where
  "add_partial c p st = do {
     st1 \<leftarrow> node_lock c st;
     let st2 = upd_node c (\<lambda>n. n\<lparr>nd_npartial := nd_npartial n + 1\<rparr>) st1;
     let st3 = upd_mm (upd_lists (list_add (PageNode p) (PartialSlab c))) st2;
     Some (node_unlock c st3) }"

definition remove_partial :: "nat \<Rightarrow> nat \<Rightarrow> slst \<Rightarrow> slst option" where
  "remove_partial c p st = do {
     st1 \<leftarrow> node_lock c st;
     let st2 = upd_node c (\<lambda>n. n\<lparr>nd_npartial := nd_npartial n - 1\<rparr>) st1;
     let st3 = upd_mm (upd_lists (list_del (PageNode p))) st2;
     Some (node_unlock c st3) }"

definition lock_and_freeze_slab :: "nat \<Rightarrow> nat \<Rightarrow> slst \<Rightarrow> bool \<times> slst" where
  "lock_and_freeze_slab c p st =
     (let (ok, st1) = slab_trylock p st in
      if ok then
        let st2 = upd_mm (upd_lists (list_del (PageNode p))) st1;
            st3 = upd_node c (\<lambda>n. n\<lparr>nd_npartial := nd_npartial n - 1\<rparr>) st2;
            st4 = SetPageSlubFrozen p st3
        in (True, slab_unlock p st4)
      else (False, st1))"

partial_function (option) partial_scan :: "nat \<Rightarrow> mnode \<Rightarrow> slst \<Rightarrow> (nat option \<times> slst) option" where
  "partial_scan c pos st =
     (if pos = PartialSlab c then Some (None, st)
      else case pos of
        PageNode p \<Rightarrow>
          let (ok, st1) = lock_and_freeze_slab c p st in
          if ok then Some (Some p, st1) else partial_scan c (nxt (lists (sl_mm st1)) pos) st1
      | _ \<Rightarrow> None)"

definition get_partial_slab :: "nat \<Rightarrow> slst \<Rightarrow> (nat option \<times> slst) option" where
  "get_partial_slab c st = do {
     st1 \<leftarrow> node_lock c st;
     (page, st2) \<leftarrow> (if nd_npartial (mc_node (kmalloc_caches st1 c)) = 0 then Some (None, st1)
                     else partial_scan c (nxt (lists (sl_mm st1)) (PartialSlab c)) st1);
     Some (page, node_unlock c st2) }"

definition discard_slab :: "nat \<Rightarrow> nat \<Rightarrow> slst \<Rightarrow> slst option" where
  "discard_slab c p st = do {
     st1 \<leftarrow> node_lock c st;
     let st2 = node_unlock c (upd_node c (\<lambda>n. n\<lparr>nd_nslub := nd_nslub n - 1\<rparr>) st1);
     s3 \<leftarrow> pages_free p (mc_order (kmalloc_caches st2 c)) (sl_mm st2);
     Some (st2\<lparr>sl_mm := s3\<rparr>) }"

definition unfreeze_slab :: "nat \<Rightarrow> nat \<Rightarrow> slst \<Rightarrow> slst option" where
  "unfreeze_slab c p st = do {
     let st1 = ClearPageSlubFrozen p st;
     if pg_inuse (get_page st1 p) \<noteq> 0 then do {
       st2 \<leftarrow> (if pg_freelist (get_page st1 p) \<noteq> 0 then add_partial c p st1 else Some st1);
       Some (slab_unlock p st2) }
     else None }"

text \<open>The loop of \<^verbatim>\<open>deactivate_slab\<close> ends its first round in \<^verbatim>\<open>assert(0)\<close>.\<close>

definition deactivate_slab :: "nat \<Rightarrow> nat \<Rightarrow> slst \<Rightarrow> slst option" where
  "deactivate_slab c cpu st = do {
     p \<leftarrow> cc_page (get_cpu_slab st c cpu);
     kassert (cc_freelist (get_cpu_slab st c cpu) = 0);
     unfreeze_slab c p (upd_cpu c cpu (\<lambda>k. k\<lparr>cc_page := None\<rparr>) st) }"

definition get_slab :: "nat \<Rightarrow> slst \<Rightarrow> nat option" where
  "get_slab obj st = virt2page (sl_mm st) (obj - obj mod (unat PAGE_SIZE * 2 ^ SLABORDER))"

section \<open>Allocation and release of objects\<close>

text \<open>\<^verbatim>\<open>_slab_alloc\<close> from the label \<^verbatim>\<open>load_slab\<close> (\<open>load\<close>) or from the label \<^verbatim>\<open>new_slab\<close>.\<close>

partial_function (option) slab_alloc_slow :: "nat \<Rightarrow> nat \<Rightarrow> bool \<Rightarrow> slst \<Rightarrow> (nat \<times> slst) option" where
  "slab_alloc_slow c cpu load st =
     (if load then do {
        p \<leftarrow> cc_page (get_cpu_slab st c cpu);
        st1 \<leftarrow> slab_lock p st;
        let object = pg_freelist (get_page st1 p);
        if object = 0 then do {
          st2 \<leftarrow> deactivate_slab c cpu st1;
          slab_alloc_slow c cpu False st2 }
        else do {
          let st2 = upd_cpu c cpu (\<lambda>k. k\<lparr>cc_freelist := get_link (mc_offset (kmalloc_caches st1 c)) object (sl_mm st1)\<rparr>) st1;
          let st3 = upd_slab p (\<lambda>g. g\<lparr>pg_freelist := 0\<rparr>) st2;
          let st4 = upd_slab p (\<lambda>g. g\<lparr>pg_inuse := int (mc_objects (kmalloc_caches st3 c))\<rparr>) st3;
          Some (object, slab_unlock p st4) } }
      else do {
        (new, st1) \<leftarrow> get_partial_slab c st;
        case new of
          Some p \<Rightarrow> slab_alloc_slow c cpu True (upd_cpu c cpu (\<lambda>k. k\<lparr>cc_page := Some p\<rparr>) st1)
        | None \<Rightarrow> do {
            (new, st2) \<leftarrow> new_slab c st1;
            case new of
              Some p \<Rightarrow> slab_alloc_slow c cpu True
                (SetPageSlubFrozen p (upd_cpu c cpu (\<lambda>k. k\<lparr>cc_page := Some p\<rparr>) st2))
            | None \<Rightarrow> Some (0, st2) } })"

definition slab_alloc :: "nat \<Rightarrow> nat \<Rightarrow> slst \<Rightarrow> (nat \<times> slst) option" where
  "slab_alloc c cpu st =
     (let object = cc_freelist (get_cpu_slab st c cpu) in
      if object = 0 then slab_alloc_slow c cpu (cc_page (get_cpu_slab st c cpu) \<noteq> None) st
      else Some (object,
        upd_cpu c cpu (\<lambda>k. k\<lparr>cc_freelist := get_link (mc_offset (kmalloc_caches st c)) object (sl_mm st)\<rparr>) st))"

definition slab_free_slow :: "nat \<Rightarrow> nat \<Rightarrow> nat \<Rightarrow> slst \<Rightarrow> slst option" where
  "slab_free_slow c p obj st = do {
     st1 \<leftarrow> slab_lock p st;
     let prior = pg_freelist (get_page st1 p);
     let st2 = upd_mm (set_link (mc_offset (kmalloc_caches st1 c)) obj prior) st1;
     let st3 = upd_slab p (\<lambda>g. g\<lparr>pg_freelist := obj\<rparr>) st2;
     let st4 = upd_slab p (\<lambda>g. g\<lparr>pg_inuse := pg_inuse g - 1\<rparr>) st3;
     if PageSlubFrozen p st4 then Some (slab_unlock p st4)
     else if pg_inuse (get_page st4 p) = 0 then do {
       st5 \<leftarrow> (if prior \<noteq> 0 then remove_partial c p st4 else Some st4);
       discard_slab c p (slab_unlock p st5) }
     else do {
       st5 \<leftarrow> (if prior = 0 then do {
                  kassert (pg_inuse (get_page st4 p) = int (mc_objects (kmalloc_caches st4 c)) - 1);
                  add_partial c p st4 }
               else Some st4);
       Some (slab_unlock p st5) } }"

definition slab_free :: "nat \<Rightarrow> nat \<Rightarrow> nat \<Rightarrow> nat \<Rightarrow> slst \<Rightarrow> slst option" where
  "slab_free c cpu obj p st =
     (if pg_flags (get_page st p) AND pg_slab_flag = 0 then Some st
      else if cc_page (get_cpu_slab st c cpu) = Some p then
        let st1 = upd_mm (set_link (mc_offset (kmalloc_caches st c)) obj (cc_freelist (get_cpu_slab st c cpu))) st
        in Some (upd_cpu c cpu (\<lambda>k. k\<lparr>cc_freelist := obj\<rparr>) st1)
      else slab_free_slow c p obj st)"

definition slab_spin_lock :: "slst \<Rightarrow> slst option" where
  "slab_spin_lock st = do { lk \<leftarrow> spin_lock (slablock st); Some (st\<lparr>slablock := lk\<rparr>) }"

definition slab_spin_unlock :: "slst \<Rightarrow> slst" where
  "slab_spin_unlock st = st\<lparr>slablock := spin_unlock (slablock st)\<rparr>"

definition kmalloc :: "nat \<Rightarrow> nat \<Rightarrow> slst \<Rightarrow> (nat \<times> slst) option" where
  "kmalloc cpu sz st =
     (if sz \<le> 0 then Some (0, st)
      else if sz > unat PAGE_SIZE then Some (0, st)
      else do {
        let c = size_map st sz;
        st1 \<leftarrow> slab_spin_lock st;
        (obj, st2) \<leftarrow> slab_alloc c cpu st1;
        Some (obj, slab_spin_unlock st2) })"

definition kfree :: "nat \<Rightarrow> nat \<Rightarrow> slst \<Rightarrow> slst option" where
  "kfree cpu obj st =
     (if obj \<noteq> 0 then do {
        p \<leftarrow> get_slab obj st;
        st1 \<leftarrow> slab_spin_lock st;
        c \<leftarrow> pg_slab (get_page st1 p);
        st2 \<leftarrow> slab_free c cpu obj p st1;
        Some (slab_spin_unlock st2) }
      else Some st)"

end
