(* ===== verification/Slab_Inv.thy ===== *)
theory Slab_Inv
  imports Slab
begin

text \<open>
  The invariant of the object allocator. Every slab page has a chain of free objects, every
  processor a second chain inside its current slab; the objects on no chain are in use.
\<close>

section \<open>Words in the direct mapping\<close>

abbreviation kbase :: nat where "kbase \<equiv> unat KERNEL_BASE_ADDR"

abbreviation aframe :: "nat \<Rightarrow> nat" where "aframe a \<equiv> (a - kbase) div 4096"

lemma halves:
  fixes w :: u64 and v :: u32
  shows "ucast ((w AND NOT (mask 32)) OR ucast v) = v" "ucast (drop_bit 32 ((w AND NOT (mask 32)) OR ucast v)) = (ucast (drop_bit 32 w) :: u32)"
    "ucast ((w AND mask 32) OR push_bit 32 (ucast v)) = (ucast w :: u32)" "ucast (drop_bit 32 ((w AND mask 32) OR push_bit 32 (ucast v))) = v"
  by (rule bit_word_eqI; auto simp: bit_simps dest: bit_imp_le_length)+

lemma peek_poke:
  assumes "4 dvd a" "4 dvd b" "kbase \<le> a" "kbase \<le> b"
  shows "peek32 (poke32 a v s) b = (if b = a then v else peek32 s b)"
proof -
  define x where "x = a - kbase"
  define y where "y = b - kbase"
  have d: "4 dvd x" "4 dvd y" and eq: "x = y \<longleftrightarrow> b = a"
    using assms by (auto simp: x_def y_def KERNEL_BASE_ADDR_def)
  have "4 dvd n \<Longrightarrow> n mod 8 = 0 \<or> n mod 8 = 4" for n :: nat by presburger
  then have half: "x mod 8 = 0 \<or> x mod 8 = 4" "y mod 8 = 0 \<or> y mod 8 = 4" using d by simp_all
  have pos: "x = x div 4096 * 4096 + (x mod 4096 div 8 * 8 + x mod 8)" for x :: nat
  proof -
    have "x mod 8 = x mod 4096 mod 8" by (simp add: mod_mod_cancel)
    then show ?thesis by (simp only: div_mult_mod_eq)
  qed
  have same: "x div 4096 = y div 4096 \<Longrightarrow> x mod 4096 div 8 = y mod 4096 div 8 \<Longrightarrow> x mod 8 = y mod 8 \<Longrightarrow> x = y"
    by (metis pos)
  define f i h f' i' h' where ps: "f = x div 4096" "i = x mod 4096 div 8" "h \<longleftrightarrow> x mod 8 < 4"
    "f' = y div 4096" "i' = y mod 4096 div 8" "h' \<longleftrightarrow> y mod 8 < 4"
  have "f' = f \<and> i' = i \<and> h' = h \<longleftrightarrow> b = a"
    unfolding eq [symmetric] ps using half same by auto
  then have k: "b = a \<longleftrightarrow> f' = f \<and> i' = i \<and> h' = h" by simp
  show ?thesis
    unfolding peek32_def poke32_def Let_def x_def [symmetric] y_def [symmetric] ps [symmetric] k
    by (cases "f' = f"; cases "i' = i"; cases h; cases h') (simp_all add: halves del: drop_bit_or drop_bit_and)
qed

lemma poke_pmem [simp]: "f \<noteq> aframe a \<Longrightarrow> pmem (poke32 a v s) f = pmem s f"
  by (simp add: poke32_def Let_def)

lemma peek_cong: "pmem s' (aframe a) = pmem s (aframe a) \<Longrightarrow> peek32 s' a = peek32 s a"
  by (simp add: peek32_def Let_def)

lemma poke_sel [simp]: "mempage (poke32 a v s) = mempage s" "zones (poke32 a v s) = zones s" "lists (poke32 a v s) = lists s"
  "max_pfn (poke32 a v s) = max_pfn s"
  by (simp_all add: poke32_def Let_def)

section \<open>Objects\<close>

abbreviation osize :: "nat \<Rightarrow> nat" where "osize c \<equiv> cache_size c + 4"
abbreviation nobj :: "nat \<Rightarrow> nat" where "nobj c \<equiv> 4194304 div osize c"
abbreviation sbase :: "nat \<Rightarrow> nat" where "sbase p \<equiv> p * 4096 + kbase"
abbreviation olink :: "nat \<Rightarrow> nat \<Rightarrow> nat" where "olink c obj \<equiv> obj + cache_size c"

definition objs :: "nat \<Rightarrow> nat \<Rightarrow> nat set" where
  "objs c p = (\<lambda>i. sbase p + i * osize c) ` {..<nobj c}"

lemma class_cases: "(c::nat) < 12 \<Longrightarrow> c \<in> {0, 1, 2, 3, 4, 5, 6, 7, 8, 9, 10, 11}"
  unfolding insert_iff empty_iff by presburger

lemma class_size:
  assumes "c < 12"
  shows "4 dvd cache_size c" "8 \<le> cache_size c" "cache_size c \<le> 4096" "1023 \<le> nobj c" "4 * (cache_size c div 4) = cache_size c"
  using class_cases [OF assms] by (elim insertE emptyE; simp add: cache_sizes_def)+

lemma obj_bounds:
  assumes "c < 12" "obj \<in> objs c p"
  shows "sbase p \<le> obj" "obj + osize c \<le> sbase p + 4194304" "4 dvd obj" "obj \<noteq> 0" "kbase \<le> obj"
proof -
  obtain i where i: "i < nobj c" "obj = sbase p + i * osize c" using assms(2) by (auto simp: objs_def)
  have "Suc i * osize c \<le> nobj c * osize c" using i(1) by (intro mult_le_mono1) simp
  also have "\<dots> \<le> 4194304" by (rule div_times_less_eq_dividend)
  finally show "sbase p \<le> obj" "obj + osize c \<le> sbase p + 4194304" using i(2) by simp_all
  have "4 dvd osize c" using class_size(1) [OF assms(1)] by simp
  then show "4 dvd obj" unfolding i(2) by (simp add: KERNEL_BASE_ADDR_def)
  show "obj \<noteq> 0" "kbase \<le> obj" unfolding i(2) by (simp_all add: KERNEL_BASE_ADDR_def)
qed

lemma obj_frame:
  assumes "c < 12" "obj \<in> objs c p" "i < osize c"
  shows "aframe (obj + i) \<in> block p 10"
proof -
  have "p * 4096 \<le> obj + i - kbase" "obj + i - kbase < (p + 1024) * 4096"
    using obj_bounds [OF assms(1,2)] assms(3) by simp_all
  then have "p \<le> aframe (obj + i)" "aframe (obj + i) < p + 1024"
    by (simp_all add: less_eq_div_iff_mult_less_eq div_less_iff_less_mult)
  then show ?thesis by (simp add: block_def)
qed

lemma objs_apart:
  assumes c: "c < 12" and o: "a \<in> objs c p" "b \<in> objs c p" "a \<noteq> b" and i: "i < osize c" "j < osize c"
  shows "a + i \<noteq> b + j"
proof -
  obtain m n where mn: "a = sbase p + m * osize c" "b = sbase p + n * osize c" using o by (auto simp: objs_def)
  then have "m \<noteq> n" using o(3) by auto
  then consider "Suc m \<le> n" | "Suc n \<le> m" by linarith
  then show ?thesis
  proof cases
    case 1
    from mult_le_mono1 [OF this, of "osize c"] show ?thesis using i(1) unfolding mn by simp
  next
    case 2
    from mult_le_mono1 [OF this, of "osize c"] show ?thesis using i(2) unfolding mn by simp
  qed
qed

lemma slabs_apart:
  assumes "1024 dvd p" "1024 dvd q" "p \<noteq> q"
  shows "block p 10 \<inter> block q 10 = {}"
proof -
  obtain m n where mn: "p = 1024 * m" "q = 1024 * n" using assms(1,2) by (auto elim!: dvdE)
  then have "Suc m \<le> n \<or> Suc n \<le> m" using assms(3) by linarith
  then show ?thesis unfolding mn block_def by auto
qed

lemma card_objs: "c < 12 \<Longrightarrow> card (objs c p) = nobj c" "finite (objs c p)"
  unfolding objs_def by (subst card_image) (auto simp: inj_on_def)

section \<open>Chains of free objects\<close>

primrec fchain :: "mmst \<Rightarrow> nat \<Rightarrow> nat \<Rightarrow> nat list \<Rightarrow> bool" where
  "fchain s c a [] \<longleftrightarrow> a = 0"
| "fchain s c a (x # xs) \<longleftrightarrow> a = x \<and> x \<noteq> 0 \<and> fchain s c (unat (peek32 s (olink c x))) xs"

lemma fchain_cong:
  assumes "\<forall>x\<in>set xs. peek32 s' (olink c x) = peek32 s (olink c x)"
  shows "fchain s' c a xs = fchain s c a xs"
  using assms by (induction xs arbitrary: a) auto

lemma fchain_nil: "fchain s c a xs \<Longrightarrow> a = 0 \<longleftrightarrow> xs = []"
  by (cases xs) auto

lemma poke_link:
  assumes "c < 12" "obj \<in> objs c p" "set xs \<subseteq> objs c p" "obj \<notin> set xs"
  shows "fchain (poke32 (olink c obj) v s) c a xs = fchain s c a xs"
proof (intro fchain_cong ballI)
  fix x assume x: "x \<in> set xs"
  then have "x \<in> objs c p" "x \<noteq> obj" using assms by auto
  moreover have "4 dvd olink c x" "4 dvd olink c obj" "kbase \<le> olink c x" "kbase \<le> olink c obj"
    using obj_bounds [OF assms(1)] class_size(1) [OF assms(1)] calculation(1) assms(2) by (auto intro: trans_le_add1)
  ultimately show "peek32 (poke32 (olink c obj) v s) (olink c x) = peek32 s (olink c x)"
    using peek_poke by auto
qed

section \<open>The invariant\<close>

definition frozen :: "mmst \<Rightarrow> nat \<Rightarrow> bool" where
  "frozen s p \<longleftrightarrow> pg_flags (mempage s p) AND pg_active \<noteq> 0"

definition slab_page :: "mmst \<Rightarrow> nat \<Rightarrow> nat \<Rightarrow> nat list \<Rightarrow> bool" where
  "slab_page s c p fl \<longleftrightarrow>
     blk_ok s ZNormal p 10 \<and> 1024 dvd p \<and> (\<forall>q\<in>block p 10. clean s q) \<and> block p 10 \<inter> free_frames s ZNormal = {} \<and>
     pg_slab (mempage s p) = Some c \<and> pg_flags (mempage s p) AND pg_slab_flag \<noteq> 0 \<and> pg_slublock (mempage s p) = 0 \<and>
     fchain s c (pg_freelist (mempage s p)) fl \<and> distinct fl \<and> set fl \<subseteq> objs c p \<and>
     pg_inuse (mempage s p) = int (nobj c) - int (length fl)"

definition cpu_ok :: "mmst \<Rightarrow> nat \<Rightarrow> nat set \<Rightarrow> (nat \<Rightarrow> nat list) \<Rightarrow> mem_cache_cpu \<Rightarrow> nat list \<Rightarrow> bool" where
  "cpu_ok s c S F cc fl \<longleftrightarrow>
     fchain s c (cc_freelist cc) fl \<and> distinct fl \<and> (cc_page cc = None \<longrightarrow> fl = []) \<and>
     (\<forall>p. cc_page cc = Some p \<longrightarrow> p \<in> S \<and> set fl \<subseteq> objs c p - set (F p))"

definition cache_ok :: "nat \<Rightarrow> mem_cache \<Rightarrow> bool" where
  "cache_ok c k \<longleftrightarrow> mc_size k = osize c \<and> mc_offset k = cache_size c div 4 \<and> mc_objsize k = cache_size c \<and>
     mc_order k = SLABORDER \<and> mc_objects k = nobj c \<and> nd_lock (mc_node k) = 0"

text \<open>
  The slabs \<open>S\<close> of class \<open>c\<close>: chains \<open>F p\<close> on the slab pages and \<open>C i\<close> on the processors. A
  page is frozen exactly if it is the slab of a processor, and on the list of partial
  slabs exactly if it is not frozen and has free objects.
\<close>

definition class_ok :: "mnode set \<Rightarrow> (mnode \<Rightarrow> mnode list) \<Rightarrow> mmst \<Rightarrow> mem_cache \<Rightarrow> nat \<Rightarrow> nat set \<Rightarrow>
    (nat \<Rightarrow> nat list) \<Rightarrow> (nat \<Rightarrow> nat list) \<Rightarrow> bool" where
  "class_ok H L s k c S F C \<longleftrightarrow>
     cache_ok c k \<and> PartialSlab c \<in> H \<and>
     (\<forall>p\<in>S. slab_page s c p (F p)) \<and>
     (\<forall>p\<in>S. frozen s p \<longleftrightarrow> (\<exists>i<CPUNUMS. cc_page (mc_cpu k i) = Some p)) \<and>
     (\<forall>p\<in>S. \<not> frozen s p \<longrightarrow> length (F p) < nobj c) \<and>
     (\<forall>h\<in>H - fa_heads UNIV. \<forall>p\<in>S. \<forall>q\<in>block p 10. PageNode q \<in> set (L h) \<longrightarrow> h = PartialSlab c \<and> q = p) \<and>
     (\<forall>i<CPUNUMS. cpu_ok s c S F (mc_cpu k i) (C i)) \<and>
     (\<forall>i<CPUNUMS. \<forall>j<CPUNUMS. cc_page (mc_cpu k i) \<noteq> None \<longrightarrow> cc_page (mc_cpu k i) = cc_page (mc_cpu k j) \<longrightarrow> i = j) \<and>
     set (L (PartialSlab c)) = PageNode ` {p \<in> S. F p \<noteq> [] \<and> \<not> frozen s p} \<and>
     nd_npartial (mc_node k) = int (length (L (PartialSlab c)))"

definition size_map_ok :: "(nat \<Rightarrow> nat) \<Rightarrow> bool" where
  "size_map_ok m \<longleftrightarrow> (\<forall>n. 0 < n \<and> n \<le> 4096 \<longrightarrow> m n < 12 \<and> n \<le> cache_size (m n) \<and> (\<forall>j<m n. cache_size j < n))"

definition sinv :: "mnode set \<Rightarrow> (mnode \<Rightarrow> mnode list) \<Rightarrow> (nat \<Rightarrow> nat set) \<Rightarrow> (nat \<Rightarrow> nat list) \<Rightarrow>
    (nat \<Rightarrow> nat \<Rightarrow> nat list) \<Rightarrow> slst \<Rightarrow> bool" where
  "sinv H L S F C st \<longleftrightarrow>
     binv UNIV H L (sl_mm st) \<and> zone_layout (sl_mm st) \<and> size_map_ok (size_map st) \<and>
     (\<forall>c<12. class_ok H L (sl_mm st) (kmalloc_caches st c) c (S c) F (C c))"

text \<open>The objects of class \<open>c\<close> that are in use.\<close>

definition in_use :: "(nat \<Rightarrow> nat set) \<Rightarrow> (nat \<Rightarrow> nat list) \<Rightarrow> (nat \<Rightarrow> nat \<Rightarrow> nat list) \<Rightarrow> nat \<Rightarrow> nat set" where
  "in_use S F C c = (\<Union>p\<in>S c. objs c p) - (\<Union>p\<in>S c. set (F p)) - (\<Union>i<CPUNUMS. set (C c i))"

section \<open>What leaves a slab alone\<close>

definition same_slab :: "mmst \<Rightarrow> mmst \<Rightarrow> nat \<Rightarrow> bool" where
  "same_slab s s' p \<longleftrightarrow>
     blk_ok s' ZNormal p 10 = blk_ok s ZNormal p 10 \<and> (\<forall>q\<in>block p 10. clean s' q = clean s q \<and> pmem s' q = pmem s q) \<and>
     (block p 10 \<inter> free_frames s ZNormal = {} \<longrightarrow> block p 10 \<inter> free_frames s' ZNormal = {}) \<and>
     (mempage s' p)\<lparr>pg_order := 0\<rparr> = (mempage s p)\<lparr>pg_order := 0\<rparr>"

lemma same_slab_fields:
  assumes "same_slab s s' p"
  shows "pg_slab (mempage s' p) = pg_slab (mempage s p)" "pg_flags (mempage s' p) = pg_flags (mempage s p)"
    "pg_slublock (mempage s' p) = pg_slublock (mempage s p)" "pg_freelist (mempage s' p) = pg_freelist (mempage s p)"
    "pg_inuse (mempage s' p) = pg_inuse (mempage s p)"
proof -
  have e: "(mempage s' p)\<lparr>pg_order := 0\<rparr> = (mempage s p)\<lparr>pg_order := 0\<rparr>" using assms by (simp add: same_slab_def)
  show "pg_slab (mempage s' p) = pg_slab (mempage s p)" "pg_flags (mempage s' p) = pg_flags (mempage s p)"
    "pg_slublock (mempage s' p) = pg_slublock (mempage s p)" "pg_freelist (mempage s' p) = pg_freelist (mempage s p)"
    "pg_inuse (mempage s' p) = pg_inuse (mempage s p)"
    using arg_cong [OF e, of pg_slab] arg_cong [OF e, of pg_flags] arg_cong [OF e, of pg_slublock]
      arg_cong [OF e, of pg_freelist] arg_cong [OF e, of pg_inuse] by simp_all
qed

lemma same_slab_chain:
  assumes "same_slab s s' p" "c < 12" "set fl \<subseteq> objs c p"
  shows "fchain s' c a fl = fchain s c a fl"
proof (intro fchain_cong ballI peek_cong)
  fix x assume "x \<in> set fl"
  then have "aframe (olink c x) \<in> block p 10" using obj_frame [OF assms(2), of x p "cache_size c"] assms(3) by auto
  then show "pmem s' (aframe (olink c x)) = pmem s (aframe (olink c x))" using assms(1) by (simp add: same_slab_def)
qed

lemma same_slab_page:
  assumes "same_slab s s' p" "c < 12" "slab_page s c p fl"
  shows "slab_page s' c p fl"
  using assms(1,3) same_slab_chain [OF assms(1,2)] unfolding slab_page_def same_slab_fields [OF assms(1)]
  by (simp add: same_slab_def)

lemma cpu_ok_same:
  assumes "cpu_ok s c S F cc fl" "c < 12" "\<And>p. cc_page cc = Some p \<Longrightarrow> same_slab s s' p \<and> p \<in> S' \<and> F' p = F p"
  shows "cpu_ok s' c S' F' cc fl"
proof (cases "cc_page cc")
  case None
  then show ?thesis using assms(1) by (auto simp: cpu_ok_def)
next
  case (Some p)
  then show ?thesis using assms(1) assms(3) [OF Some] same_slab_chain [of s s' p c fl] assms(2) by (auto simp: cpu_ok_def)
qed

lemma class_okD:
  assumes "class_ok H L s k c S F C"
  shows "cache_ok c k" "PartialSlab c \<in> H" "p \<in> S \<Longrightarrow> slab_page s c p (F p)"
    "p \<in> S \<Longrightarrow> frozen s p \<longleftrightarrow> (\<exists>i<CPUNUMS. cc_page (mc_cpu k i) = Some p)"
    "p \<in> S \<Longrightarrow> \<not> frozen s p \<Longrightarrow> length (F p) < nobj c"
    "h \<in> H - fa_heads UNIV \<Longrightarrow> p \<in> S \<Longrightarrow> q \<in> block p 10 \<Longrightarrow> PageNode q \<in> set (L h) \<Longrightarrow> h = PartialSlab c \<and> q = p"
    "i < CPUNUMS \<Longrightarrow> cpu_ok s c S F (mc_cpu k i) (C i)"
    "i < CPUNUMS \<Longrightarrow> j < CPUNUMS \<Longrightarrow> cc_page (mc_cpu k i) = Some p \<Longrightarrow> cc_page (mc_cpu k j) = Some p \<Longrightarrow> i = j"
    "set (L (PartialSlab c)) = PageNode ` {p \<in> S. F p \<noteq> [] \<and> \<not> frozen s p}"
    "nd_npartial (mc_node k) = int (length (L (PartialSlab c)))"
  using assms unfolding class_ok_def by (simp_all del: not_None_eq)

text \<open>A step of class \<open>c\<close> that changes page \<open>p\<close> and the record of processor \<open>i\<close>.\<close>

lemma class_step:
  assumes ok: "class_ok H L s k c S F C" and c: "c < 12" and i: "i < CPUNUMS"
    and k': "cache_ok c k'" "mc_cpu k' = (mc_cpu k)(i := cc')" "nd_npartial (mc_node k') = int (length (L' (PartialSlab c)))"
    and others: "\<And>q. q \<in> S \<Longrightarrow> q \<noteq> p \<Longrightarrow> same_slab s s' q" and S': "S' - {p} = S - {p}" and F': "\<And>q. q \<noteq> p \<Longrightarrow> F' q = F q"
    and p: "p \<in> S' \<Longrightarrow> slab_page s' c p (F' p) \<and>
        (frozen s' p \<longleftrightarrow> (\<exists>j<CPUNUMS. cc_page (mc_cpu k' j) = Some p)) \<and> (\<not> frozen s' p \<longrightarrow> length (F' p) < nobj c) \<and>
        (\<forall>h\<in>H - fa_heads UNIV. \<forall>q\<in>block p 10. PageNode q \<in> set (L' h) \<longrightarrow> h = PartialSlab c \<and> q = p)"
    and lst: "\<And>h q. h \<in> H - fa_heads UNIV \<Longrightarrow> PageNode q \<in> set (L' h) \<Longrightarrow> PageNode q \<in> set (L h) \<or> q = p"
    and pS: "\<And>q. q \<in> S \<Longrightarrow> q \<noteq> p \<Longrightarrow> p \<notin> block q 10"
    and cp: "cpu_ok s' c S' F' cc' fl'" "cc_page cc' = cc_page (mc_cpu k i) \<or> {cc_page cc', cc_page (mc_cpu k i)} \<subseteq> {None, Some p}"
    and cj: "\<And>j. j < CPUNUMS \<Longrightarrow> j \<noteq> i \<Longrightarrow> cc_page (mc_cpu k j) = Some p \<Longrightarrow>
        cpu_ok s' c S' F' (mc_cpu k j) (C j) \<and> cc_page cc' \<noteq> Some p"
    and pl: "set (L' (PartialSlab c)) - {PageNode p} = set (L (PartialSlab c)) - {PageNode p}"
      "PageNode p \<in> set (L' (PartialSlab c)) \<longleftrightarrow> p \<in> S' \<and> F' p \<noteq> [] \<and> \<not> frozen s' p"
  shows "class_ok H L' s' k' c S' F' (C(i := fl'))"
proof -
  have S: "q \<in> S' \<longleftrightarrow> q \<in> S" if "q \<noteq> p" for q using S' that by blast
  have fz: "frozen s' q = frozen s q" if "q \<in> S'" "q \<noteq> p" for q
    using same_slab_fields(2) [OF others] S that by (simp add: frozen_def)
  have cpu: "cc_page (mc_cpu k' j) = Some q \<longleftrightarrow> cc_page (mc_cpu k j) = Some q" if "q \<noteq> p" for j q
    using cp(2) that unfolding k'(2) by auto
  note okd = class_okD [OF ok]
  have pages: "slab_page s' c q (F' q)" "frozen s' q \<longleftrightarrow> (\<exists>j<CPUNUMS. cc_page (mc_cpu k' j) = Some q)"
    "\<not> frozen s' q \<longrightarrow> length (F' q) < nobj c"
    "\<forall>h\<in>H - fa_heads UNIV. \<forall>r\<in>block q 10. PageNode r \<in> set (L' h) \<longrightarrow> h = PartialSlab c \<and> r = q" if q: "q \<in> S'" for q
  proof -
    have "slab_page s' c q (F' q) \<and> (frozen s' q \<longleftrightarrow> (\<exists>j<CPUNUMS. cc_page (mc_cpu k' j) = Some q)) \<and>
      (\<not> frozen s' q \<longrightarrow> length (F' q) < nobj c) \<and>
      (\<forall>h\<in>H - fa_heads UNIV. \<forall>r\<in>block q 10. PageNode r \<in> set (L' h) \<longrightarrow> h = PartialSlab c \<and> r = q)"
    proof (cases "q = p")
      case False
      have qS: "q \<in> S" using S [OF False] q by simp
      have "slab_page s' c q (F' q)" using same_slab_page [OF others [OF qS False] c okd(3) [OF qS]] F' [OF False] by simp
      moreover have "h = PartialSlab c \<and> r = q" if "h \<in> H - fa_heads UNIV" "r \<in> block q 10" "PageNode r \<in> set (L' h)" for h r
      proof -
        have "PageNode r \<in> set (L h)" using lst [OF that(1,3)] that(2) pS [OF qS False] by auto
        then show ?thesis using okd(6) [OF that(1) qS that(2)] by simp
      qed
      moreover have "frozen s' q \<longleftrightarrow> (\<exists>j<CPUNUMS. cc_page (mc_cpu k' j) = Some q)"
        using okd(4) [OF qS] fz [OF q False] cpu [OF False] by simp
      moreover have "\<not> frozen s' q \<longrightarrow> length (F' q) < nobj c" using okd(5) [OF qS] fz [OF q False] F' [OF False] by simp
      ultimately show ?thesis by blast
    next
      case True
      then show ?thesis using p q by simp
    qed
    then show "slab_page s' c q (F' q)" "frozen s' q \<longleftrightarrow> (\<exists>j<CPUNUMS. cc_page (mc_cpu k' j) = Some q)"
      "\<not> frozen s' q \<longrightarrow> length (F' q) < nobj c"
      "\<forall>h\<in>H - fa_heads UNIV. \<forall>r\<in>block q 10. PageNode r \<in> set (L' h) \<longrightarrow> h = PartialSlab c \<and> r = q" by simp_all
  qed
  have cpus: "cpu_ok s' c S' F' (mc_cpu k' j) ((C(i := fl')) j)" if "j < CPUNUMS" for j
  proof (cases "j = i \<or> cc_page (mc_cpu k j) = Some p")
    case False
    have old: "cpu_ok s c S F (mc_cpu k j) (C j)" using okd(7) that by blast
    have "same_slab s s' q \<and> q \<in> S' \<and> F' q = F q" if "cc_page (mc_cpu k j) = Some q" for q
    proof -
      have "q \<noteq> p" "q \<in> S" using False that old by (auto simp: cpu_ok_def)
      then show ?thesis using others S F' by blast
    qed
    from cpu_ok_same [OF old c this] show ?thesis using False k'(2) by simp
  qed (use cp(1) cj that k'(2) in auto)
  have uniq: "j = l" if "j < CPUNUMS" "l < CPUNUMS" "cc_page (mc_cpu k' j) = Some q" "cc_page (mc_cpu k' l) = Some q" for j l q
  proof (cases "q = p")
    case True
    then show ?thesis using that cj [of j] cj [of l] okd(8) [of j l q] unfolding k'(2) by (cases "j = i"; cases "l = i") auto
  next
    case False
    then show ?thesis using that cpu [OF False] okd(8) [of j l q] by simp
  qed
  have "PageNode q \<in> set (L' (PartialSlab c)) \<longleftrightarrow> q \<in> S' \<and> F' q \<noteq> [] \<and> \<not> frozen s' q" for q
  proof (cases "q = p")
    case False
    have "PageNode q \<in> set (L' (PartialSlab c)) \<longleftrightarrow> PageNode q \<in> set (L (PartialSlab c))" using pl(1) False by blast
    also have "\<dots> \<longleftrightarrow> q \<in> S \<and> F q \<noteq> [] \<and> \<not> frozen s q" unfolding okd(9) by auto
    finally show ?thesis using S [OF False] fz [OF _ False] F' [OF False] by auto
  qed (use pl(2) in blast)
  moreover have "set (L' (PartialSlab c)) \<subseteq> range PageNode"
  proof
    fix x assume x: "x \<in> set (L' (PartialSlab c))"
    have "x \<in> set (L (PartialSlab c))" if "x \<noteq> PageNode p" using x pl(1) that by blast
    then show "x \<in> range PageNode" unfolding okd(9) by (cases "x = PageNode p") auto
  qed
  ultimately have "set (L' (PartialSlab c)) = PageNode ` {q \<in> S'. F' q \<noteq> [] \<and> \<not> frozen s' q}" by auto
  moreover have "\<forall>i<CPUNUMS. \<forall>j<CPUNUMS. cc_page (mc_cpu k' i) \<noteq> None \<longrightarrow> cc_page (mc_cpu k' i) = cc_page (mc_cpu k' j) \<longrightarrow> i = j"
    using uniq by fastforce
  ultimately show ?thesis
    unfolding class_ok_def using k'(1,3) okd(2) pages cpus by (simp del: not_None_eq)
qed

lemma class_frame:
  assumes ok: "class_ok H L s k c S F C" and c: "c < 12" and p: "\<And>q. q \<in> S \<Longrightarrow> p \<notin> block q 10"
    and same: "\<And>q. q \<in> S \<Longrightarrow> same_slab s s' q" and F': "\<And>q. q \<noteq> p \<Longrightarrow> F' q = F q"
    and L': "L' (PartialSlab c) = L (PartialSlab c)"
    and lst: "\<And>h q. h \<in> H - fa_heads UNIV \<Longrightarrow> PageNode q \<in> set (L' h) \<Longrightarrow> PageNode q \<in> set (L h) \<or> q = p"
  shows "class_ok H L' s' k c S F' C"
proof -
  have pS: "p \<notin> S" using p [of p] by auto
  note okd = class_okD [OF ok]
  have i: "0 < CPUNUMS" by (simp add: CPUNUMS_def)
  have FS: "F' q = F q" if "q \<in> S" for q using F' that pS by metis
  have "cpu_ok s' c S F' (mc_cpu k 0) (C 0)"
    by (rule cpu_ok_same [OF okd(7) [OF i] c]) (use okd(7) [OF i] same FS in \<open>auto simp: cpu_ok_def\<close>)
  moreover have "cc_page (mc_cpu k j) \<noteq> Some p" if "j < CPUNUMS" for j using okd(7) [OF that] pS by (auto simp: cpu_ok_def)
  moreover have "PageNode p \<notin> set (L (PartialSlab c))" unfolding okd(9) using pS by auto
  ultimately have "class_ok H L' s' k c S F' (C(0 := C 0))"
    by (intro class_step [where cc' = "mc_cpu k 0" and p = p, OF ok c i okd(1) _ _ _ refl F' _ lst])
      (use pS p same L' okd(10) in auto)
  then show ?thesis by simp
qed

lemma binv_cong:
  assumes b: "binv UNIV H L s" and z: "zones s' = zones s" "max_pfn s' = max_pfn s"
    and ord: "\<And>q. pg_order (mempage s' q) = pg_order (mempage s q)"
    and cl: "\<And>z q. q \<in> free_frames s z \<Longrightarrow> clean s' q" and fam: "family clist (lists s') H L'"
    and fa: "\<And>h. h \<in> fa_heads UNIV \<Longrightarrow> L' h = L h"
    and ul: "\<And>h q z. h \<in> H - fa_heads UNIV \<Longrightarrow> q \<in> free_frames s z \<Longrightarrow> PageNode q \<notin> set (L' h)"
  shows "binv UNIV H L' s'" "free_frames s' = free_frames s" "in_zone s' = in_zone s" "zone_layout s' = zone_layout s" "blk_ok s' = blk_ok s"
proof -
  show iz: "in_zone s' = in_zone s" and bo: "blk_ok s' = blk_ok s" by (simp_all add: fun_eq_iff in_zone_def blk_ok_def z)
  have fh: "free_head s' = free_head s" by (simp add: fun_eq_iff free_head_def iz ord)
  then show ff: "free_frames s' = free_frames s" by (simp add: fun_eq_iff free_frames_def)
  show "zone_layout s' = zone_layout s" by (simp add: zone_layout_def iz)
  have zo: "zones_ok UNIV s' = zones_ok UNIV s" "coalesced s' = coalesced s"
    by (simp_all add: fun_eq_iff zones_ok_def coalesced_def iz z fh)
  have core: "bcore UNIV H L s" using b by (simp add: binv_def)
  have la: "L' (FreeArea z k) = L (FreeArea z k)" if "k < MAXORDER" for z k using fa that by (auto simp: fa_heads_def)
  have "\<forall>q\<in>block p k. clean s' q" if "free_head s z p k" for z p k
    using cl free_frames_head [OF that] by blast
  moreover have "unlisted UNIV H L' (free_frames s z)" for z using ul by (auto simp: unlisted_def)
  ultimately have "bcore UNIV H L' s'"
    using core fam unfolding bcore_def zo iz bo fh ff z ord by (simp add: la)
  then show "binv UNIV H L' s'" using b unfolding binv_def zo ff z by simp
qed

text \<open>A step of one class keeps the invariant of the others.\<close>

lemma sinv_step:
  assumes i: "sinv H L S F C st" and c: "c < 12" and b: "binv UNIV H L' s'" "zone_layout s'"
    and cl: "class_ok H L' s' k' c S' F' C'"
    and same: "\<And>c' q. c' < 12 \<Longrightarrow> c' \<noteq> c \<Longrightarrow> q \<in> S c' \<Longrightarrow> same_slab (sl_mm st) s' q \<and> p \<notin> block q 10"
    and L': "\<And>c'. c' \<noteq> c \<Longrightarrow> L' (PartialSlab c') = L (PartialSlab c')" and F': "\<And>q. q \<noteq> p \<Longrightarrow> F' q = F q"
    and lst: "\<And>h q. h \<in> H - fa_heads UNIV \<Longrightarrow> PageNode q \<in> set (L' h) \<Longrightarrow> PageNode q \<in> set (L h) \<or> q = p"
    and st': "sl_mm st' = s'" "kmalloc_caches st' = (kmalloc_caches st)(c := k')" "size_map st' = size_map st"
  shows "sinv H L' (S(c := S')) F' (C(c := C')) st'"
proof -
  have "class_ok H L' s' (kmalloc_caches st c') c' (S c') F' (C c')" if c': "c' < 12" "c' \<noteq> c" for c'
  proof (rule class_frame [where p = p and F = F and L = L and s = "sl_mm st", OF _ c'(1) _ _ F' _ lst])
    show "class_ok H L (sl_mm st) (kmalloc_caches st c') c' (S c') F (C c')" using i c' by (simp add: sinv_def)
  qed (use same [OF c'] L' c' in auto)
  then show ?thesis using i b cl c unfolding sinv_def st' by simp
qed

end
