(* ===== verification/Slab_Ops.thy ===== *)
theory Slab_Ops
  imports Slab_Inv
begin

text \<open>The operations of the object allocator against its invariant.\<close>

section \<open>Steps inside one slab\<close>

definition local :: "nat \<Rightarrow> mmst \<Rightarrow> mmst \<Rightarrow> bool" where
  "local p s s' \<longleftrightarrow>
     zones s' = zones s \<and> max_pfn s' = max_pfn s \<and> (\<forall>q. q \<noteq> p \<longrightarrow> mempage s' q = mempage s q) \<and>
     pg_order (mempage s' p) = pg_order (mempage s p) \<and> pg_nref (mempage s' p) = pg_nref (mempage s p) \<and>
     pg_flags (mempage s' p) AND pg_reserved = pg_flags (mempage s p) AND pg_reserved \<and>
     (\<forall>q. q \<notin> block p 10 \<longrightarrow> pmem s' q = pmem s q)"

lemma local_facts:
  assumes "local p s s'"
  shows "clean s' = clean s" "blk_ok s' = blk_ok s" "free_frames s' = free_frames s" "zone_layout s' = zone_layout s"
    "block q 10 \<inter> block p 10 = {} \<Longrightarrow> same_slab s s' q"
proof -
  note l = assms [unfolded local_def]
  have o: "pg_order (mempage s' q) = pg_order (mempage s q)" for q using l by (cases "q = p") auto
  show cl: "clean s' = clean s"
  proof
    fix q show "clean s' q = clean s q" using l by (cases "q = p") (auto simp: clean_def)
  qed
  have iz: "in_zone s' = in_zone s" using l by (simp add: fun_eq_iff in_zone_def)
  show bo: "blk_ok s' = blk_ok s" and "zone_layout s' = zone_layout s"
    using l by (simp_all add: fun_eq_iff blk_ok_def zone_layout_def iz)
  show ff: "free_frames s' = free_frames s" by (simp add: fun_eq_iff free_frames_def free_head_def iz o)
  show "same_slab s s' q" if d: "block q 10 \<inter> block p 10 = {}"
  proof -
    have "q \<in> block q 10" "p \<in> block p 10" by simp_all
    then have "q \<noteq> p" using d by blast
    moreover have "r \<notin> block p 10" if "r \<in> block q 10" for r using d that by blast
    ultimately show ?thesis using l cl bo ff by (simp add: same_slab_def)
  qed
qed

lemma sinvD:
  assumes "sinv H L S F C st"
  shows "binv UNIV H L (sl_mm st)" "zone_layout (sl_mm st)" "size_map_ok (size_map st)"
    "c < 12 \<Longrightarrow> class_ok H L (sl_mm st) (kmalloc_caches st c) c (S c) F (C c)"
    "c < 12 \<Longrightarrow> p \<in> S c \<Longrightarrow> slab_page (sl_mm st) c p (F p)"
proof -
  show k: "c < 12 \<Longrightarrow> class_ok H L (sl_mm st) (kmalloc_caches st c) c (S c) F (C c)" using assms by (simp add: sinv_def)
  show "c < 12 \<Longrightarrow> p \<in> S c \<Longrightarrow> slab_page (sl_mm st) c p (F p)" using class_okD(3) [OF k] .
qed (use assms in \<open>simp_all add: sinv_def\<close>)

lemma slabs_disjoint:
  assumes "sinv H L S F C st" "c < 12" "p \<in> S c" "c' < 12" "q \<in> S c'" "c \<noteq> c' \<or> p \<noteq> q"
  shows "block q 10 \<inter> block p 10 = {}" "p \<noteq> q" "p \<notin> block q 10"
proof -
  have p: "1024 dvd p" "pg_slab (mempage (sl_mm st) p) = Some c" using sinvD(5) [OF assms(1-3)] by (auto simp: slab_page_def)
  have q: "1024 dvd q" "pg_slab (mempage (sl_mm st) q) = Some c'" using sinvD(5) [OF assms(1,4,5)] by (auto simp: slab_page_def)
  show ne: "p \<noteq> q" using p(2) q(2) assms(6) by auto
  show "block q 10 \<inter> block p 10 = {}" using slabs_apart [OF q(1) p(1)] ne by blast
  then show "p \<notin> block q 10" by auto
qed

lemma slab_range:
  assumes b: "binv UNIV H L s" "zone_layout s" and bo: "blk_ok s ZNormal p 10"
  shows "1024 dvd p" "p < max_pfn s" "p * 4096 < 0x30000000" "sbase p + 4194304 < 2 ^ 32"
proof -
  have core: "bcore UNIV H L s" using b by (simp add: binv_def)
  have bq: "p \<in> block p 10" "p + 1023 \<in> block p 10" by (simp_all add: block_def)
  have zn: "in_zone s ZNormal p" "in_zone s ZNormal (p + 1023)" using blk_ok_in_zone [OF bo] bq by blast+
  have "1024 dvd z_mempage (zones s ZNormal)" "1024 dvd p - z_mempage (zones s ZNormal)" "z_mempage (zones s ZNormal) \<le> p"
    using bcore_zones [OF core] bo by (auto simp: zones_ok_def blk_ok_def MAXORDER_def)
  then show "1024 dvd p" using dvd_add [of 1024 "p - z_mempage (zones s ZNormal)" "z_mempage (zones s ZNormal)"] by simp
  have lim: "(p + 1023) * 4096 < 0x30000000" "p < max_pfn s" "p * 4096 < 0x30000000"
    using page_bounds [OF core b(2) zn(1)] page_bounds [OF core b(2) zn(2)] by (simp_all add: PAGE_SHIFT_def NORMAL_ADDR_val)
  then show "p < max_pfn s" "p * 4096 < 0x30000000" "sbase p + 4194304 < 2 ^ 32" by (simp_all add: KERNEL_BASE_ADDR_def)
qed

lemma slab_not_free:
  assumes inv: "sinv H L S F C st" and c: "c < 12" and p: "p \<in> S c"
  shows "p \<notin> free_frames (sl_mm st) z"
proof
  assume f: "p \<in> free_frames (sl_mm st) z"
  have core: "bcore UNIV H L (sl_mm st)" using sinvD(1) [OF inv] by (simp add: binv_def)
  have old: "slab_page (sl_mm st) c p (F p)" using sinvD(5) [OF inv c p] .
  have "in_zone (sl_mm st) z p" using free_frames_in_zone [OF core UNIV_I f] .
  moreover have "in_zone (sl_mm st) ZNormal p" using old blk_ok_in_zone [of "sl_mm st" ZNormal p 10 p] by (simp add: slab_page_def)
  ultimately have "z = ZNormal" using bcore_zones [OF core] by (auto simp: zones_ok_def)
  moreover have "block p 10 \<inter> free_frames (sl_mm st) ZNormal = {}" using old by (simp add: slab_page_def)
  ultimately show False using f head_in_block [of p 10] by blast
qed

lemma slab_unlisted:
  assumes inv: "sinv H L S F C st" and c: "c < 12" and p: "p \<in> S c" and h: "h \<in> H" "h \<noteq> PartialSlab c"
  shows "PageNode p \<notin> set (L h)"
proof (cases "h \<in> fa_heads UNIV")
  case True
  then obtain z j where zj: "h = FreeArea z j" "j < MAXORDER" by (auto simp: fa_heads_def)
  have core: "bcore UNIV H L (sl_mm st)" using sinvD(1) [OF inv] by (simp add: binv_def)
  have "\<not> free_head (sl_mm st) z p j" using slab_not_free [OF inv c p] free_frames_head [of "sl_mm st" z p j] head_in_block by blast
  then show ?thesis using bcore_list [OF core UNIV_I zj(2)] zj(1) by auto
next
  case False
  then show ?thesis using class_okD(6) [OF sinvD(4) [OF inv c] _ p, of h p] h by auto
qed

lemma local_binv:
  assumes inv: "sinv H L S F C st" and c: "c < 12" and p: "p \<in> S c"
    and lo: "local p (sl_mm st) s'" and fam: "family clist (lists s') H L'" and Lo: "\<forall>h. h \<noteq> PartialSlab c \<longrightarrow> L' h = L h"
    and pl: "set (L' (PartialSlab c)) - {PageNode p} = set (L (PartialSlab c)) - {PageNode p}"
  shows "binv UNIV H L' s'" "zone_layout s'"
    "h \<in> H - fa_heads UNIV \<Longrightarrow> PageNode q \<in> set (L' h) \<Longrightarrow> PageNode q \<in> set (L h) \<or> q = p"
    "h \<in> H - fa_heads UNIV \<Longrightarrow> q \<in> block p 10 \<Longrightarrow> PageNode q \<in> set (L' h) \<Longrightarrow> h = PartialSlab c \<and> q = p"
    "c' < 12 \<Longrightarrow> q \<in> S c' \<Longrightarrow> c \<noteq> c' \<or> p \<noteq> q \<Longrightarrow> same_slab (sl_mm st) s' q \<and> p \<notin> block q 10"
proof -
  have L': "L' h = L h" if "h \<noteq> PartialSlab c" for h using Lo that by blast
  note lf = local_facts [OF lo] and ld = lo [unfolded local_def]
  have old: "slab_page (sl_mm st) c p (F p)" using sinvD(5) [OF inv c p] .
  have core: "bcore UNIV H L (sl_mm st)" using sinvD(1) [OF inv] by (simp add: binv_def)
  have lst: "PageNode q \<in> set (L h) \<or> q = p" if "h \<in> H - fa_heads UNIV" "PageNode q \<in> set (L' h)" for h q
    using that L' [of h] pl by (cases "h = PartialSlab c") auto
  then show "h \<in> H - fa_heads UNIV \<Longrightarrow> PageNode q \<in> set (L' h) \<Longrightarrow> PageNode q \<in> set (L h) \<or> q = p" .
  have free: "p \<notin> free_frames (sl_mm st) z" for z using slab_not_free [OF inv c p] .
  show "binv UNIV H L' s'"
  proof (rule binv_cong(1) [OF sinvD(1) [OF inv] _ _ _ _ fam])
    show "pg_order (mempage s' q) = pg_order (mempage (sl_mm st) q)" for q using ld by (cases "q = p") auto
    show "clean s' q" if "q \<in> free_frames (sl_mm st) z" for q z
      using that lf(1) bcore_clean [OF core UNIV_I] by (auto simp: free_frames_def)
    show "L' h = L h" if "h \<in> fa_heads UNIV" for h using L' [of h] that by (auto simp: fa_heads_def)
    show "PageNode q \<notin> set (L' h)" if "h \<in> H - fa_heads UNIV" "q \<in> free_frames (sl_mm st) z" for h q z
      using lst [OF that(1)] bcore_unlisted [OF core UNIV_I, of z] that free by (auto simp: unlisted_def)
  qed (use ld in auto)
  show "zone_layout s'" using lf(4) sinvD(2) [OF inv] by simp
  show "c' < 12 \<Longrightarrow> q \<in> S c' \<Longrightarrow> c \<noteq> c' \<or> p \<noteq> q \<Longrightarrow> same_slab (sl_mm st) s' q \<and> p \<notin> block q 10"
    using slabs_disjoint [OF inv c p] lf(5) by blast
  show "h = PartialSlab c \<and> q = p" if a: "h \<in> H - fa_heads UNIV" "q \<in> block p 10" "PageNode q \<in> set (L' h)"
  proof -
    note o = class_okD(6) [OF sinvD(4) [OF inv c] _ p]
    show ?thesis
    proof (cases "h = PartialSlab c")
      case True
      then show ?thesis using lst [OF a(1,3)] o [OF a(1,2)] by auto
    next
      case False
      then show ?thesis using L' [OF False] a o [OF a(1,2)] by auto
    qed
  qed
qed

lemma local_step:
  assumes inv: "sinv H L S F C st" and c: "c < 12" and i: "i < CPUNUMS" and p: "p \<in> S c"
    and lo: "local p (sl_mm st) s'" and fam: "family clist (lists s') H L'" and L': "\<And>h. h \<noteq> PartialSlab c \<Longrightarrow> L' h = L h"
    and k': "cache_ok c k'" "mc_cpu k' = (mc_cpu (kmalloc_caches st c))(i := cc')" "nd_npartial (mc_node k') = int (length (L' (PartialSlab c)))"
    and pg: "pg_slab (mempage s' p) = Some c" "pg_flags (mempage s' p) AND pg_slab_flag \<noteq> 0" "pg_slublock (mempage s' p) = 0"
      "fchain s' c (pg_freelist (mempage s' p)) fp" "distinct fp" "set fp \<subseteq> objs c p"
      "pg_inuse (mempage s' p) = int (nobj c) - int (length fp)"
      "frozen s' p \<longleftrightarrow> (\<exists>j<CPUNUMS. cc_page (mc_cpu k' j) = Some p)" "\<not> frozen s' p \<longrightarrow> length fp < nobj c"
    and cp: "cpu_ok s' c (S c) (F(p := fp)) cc' fl'"
      "cc_page cc' = cc_page (get_cpu_slab st c i) \<or> {cc_page cc', cc_page (get_cpu_slab st c i)} \<subseteq> {None, Some p}"
    and cj: "\<And>j. j < CPUNUMS \<Longrightarrow> j \<noteq> i \<Longrightarrow> cc_page (get_cpu_slab st c j) = Some p \<Longrightarrow>
        cpu_ok s' c (S c) (F(p := fp)) (get_cpu_slab st c j) (C c j) \<and> cc_page cc' \<noteq> Some p"
    and pl: "set (L' (PartialSlab c)) - {PageNode p} = set (L (PartialSlab c)) - {PageNode p}"
      "PageNode p \<in> set (L' (PartialSlab c)) \<longleftrightarrow> fp \<noteq> [] \<and> \<not> frozen s' p"
    and st': "sl_mm st' = s'" "kmalloc_caches st' = (kmalloc_caches st)(c := k')" "size_map st' = size_map st"
  shows "sinv H L' S (F(p := fp)) (C(c := (C c)(i := fl'))) st'"
proof -
  have Lo: "\<forall>h. h \<noteq> PartialSlab c \<longrightarrow> L' h = L h" using L' by blast
  note lb = local_binv [OF inv c p lo fam Lo pl(1)]
  have sp: "slab_page s' c p fp" using sinvD(5) [OF inv c p] pg local_facts [OF lo] by (simp add: slab_page_def)
  have "class_ok H L' s' k' c (S c) (F(p := fp)) ((C c)(i := fl'))"
  proof (rule class_step [where p = p and L' = L', OF sinvD(4) [OF inv c] c i k'])
    show "PageNode q \<in> set (L h) \<or> q = p" if "h \<in> H - fa_heads UNIV" "PageNode q \<in> set (L' h)" for h q using that by (rule lb(3))
    show "cpu_ok s' c (S c) (F(p := fp)) (get_cpu_slab st c j) (C c j) \<and> cc_page cc' \<noteq> Some p"
      if "j < CPUNUMS" "j \<noteq> i" "cc_page (get_cpu_slab st c j) = Some p" for j using that by (rule cj)
    show "same_slab (sl_mm st) s' q" "p \<notin> block q 10" if "q \<in> S c" "q \<noteq> p" for q using lb(5) [OF c that(1)] that(2) by auto
    show "PageNode p \<in> set (L' (PartialSlab c)) \<longleftrightarrow> p \<in> S c \<and> (F(p := fp)) p \<noteq> [] \<and> \<not> frozen s' p" using pl(2) p by simp
    show "slab_page s' c p ((F(p := fp)) p) \<and> (frozen s' p \<longleftrightarrow> (\<exists>j<CPUNUMS. cc_page (mc_cpu k' j) = Some p)) \<and>
      (\<not> frozen s' p \<longrightarrow> length ((F(p := fp)) p) < nobj c) \<and>
      (\<forall>h\<in>H - fa_heads UNIV. \<forall>q\<in>block p 10. PageNode q \<in> set (L' h) \<longrightarrow> h = PartialSlab c \<and> q = p)"
      using sp pg(8,9) lb(4) by simp
  qed (use cp pl(1) in auto)
  then have "sinv H L' (S(c := S c)) (F(p := fp)) (C(c := (C c)(i := fl'))) st'"
  proof (rule sinv_step [where p = p and L' = L', OF inv c lb(1,2)])
    show "PageNode q \<in> set (L h) \<or> q = p" if "h \<in> H - fa_heads UNIV" "PageNode q \<in> set (L' h)" for h q using that by (rule lb(3))
    show "same_slab (sl_mm st) s' q \<and> p \<notin> block q 10" if "c' < 12" "c' \<noteq> c" "q \<in> S c'" for c' q using lb(5) [OF that(1,3)] that(2) by blast
  qed (use L' st' in auto)
  then show ?thesis by simp
qed

section \<open>Where free objects are\<close>

lemma objs_slab:
  assumes "c < 12" "c' < 12" "1024 dvd p" "1024 dvd q" "obj \<in> objs c p" "obj \<in> objs c' q"
  shows "p = q"
proof (rule ccontr)
  assume "p \<noteq> q"
  then have "block p 10 \<inter> block q 10 = {}" using slabs_apart [OF assms(3,4)] by blast
  moreover have "aframe obj \<in> block p 10" "aframe obj \<in> block q 10"
    using obj_frame [OF assms(1,5), of 0] obj_frame [OF assms(2,6), of 0] by simp_all
  ultimately show False by blast
qed

lemma free_objs:
  assumes inv: "sinv H L S F C st" and c: "c < 12"
  shows "p \<in> S c \<Longrightarrow> obj \<in> set (F p) \<Longrightarrow> obj \<in> objs c p \<and> (\<forall>i<CPUNUMS. obj \<notin> set (C c i)) \<and> (\<forall>q\<in>S c. q \<noteq> p \<longrightarrow> obj \<notin> set (F q))"
    and "i < CPUNUMS \<Longrightarrow> obj \<in> set (C c i) \<Longrightarrow> \<exists>p\<in>S c. cc_page (get_cpu_slab st c i) = Some p \<and> obj \<in> objs c p \<and>
        (\<forall>q\<in>S c. obj \<notin> set (F q)) \<and> (\<forall>j<CPUNUMS. j \<noteq> i \<longrightarrow> obj \<notin> set (C c j))"
proof -
  note ok = sinvD(4) [OF inv c]
  have sp: "1024 dvd p" "set (F p) \<subseteq> objs c p" if "p \<in> S c" for p using sinvD(5) [OF inv c that] by (auto simp: slab_page_def)
  have cp: "\<exists>p\<in>S c. cc_page (get_cpu_slab st c i) = Some p \<and> obj \<in> objs c p \<and> obj \<notin> set (F p)"
    if "i < CPUNUMS" "obj \<in> set (C c i)" for i obj
    using class_okD(7) [OF ok that(1)] that(2) unfolding cpu_ok_def by (cases "cc_page (get_cpu_slab st c i)") auto
  have one: "p = q" if "p \<in> S c" "q \<in> S c" "obj \<in> objs c p" "obj \<in> objs c q" for p q obj
    using objs_slab [OF c c sp(1) [OF that(1)] sp(1) [OF that(2)] that(3,4)] .
  show "obj \<in> objs c p \<and> (\<forall>i<CPUNUMS. obj \<notin> set (C c i)) \<and> (\<forall>q\<in>S c. q \<noteq> p \<longrightarrow> obj \<notin> set (F q))"
    if "p \<in> S c" "obj \<in> set (F p)"
    using that sp(2) cp one by (metis subsetD)
  show "\<exists>p\<in>S c. cc_page (get_cpu_slab st c i) = Some p \<and> obj \<in> objs c p \<and>
        (\<forall>q\<in>S c. obj \<notin> set (F q)) \<and> (\<forall>j<CPUNUMS. j \<noteq> i \<longrightarrow> obj \<notin> set (C c j))"
    if i: "i < CPUNUMS" "obj \<in> set (C c i)"
  proof -
    obtain p where p: "p \<in> S c" "cc_page (get_cpu_slab st c i) = Some p" "obj \<in> objs c p" "obj \<notin> set (F p)" using cp [OF i] by blast
    have "obj \<notin> set (F q)" if "q \<in> S c" for q using one [OF p(1) that p(3)] sp(2) [OF that] p(4) by auto
    moreover have "obj \<notin> set (C c j)" if j: "j < CPUNUMS" "j \<noteq> i" for j
    proof
      assume "obj \<in> set (C c j)"
      then obtain q where q: "q \<in> S c" "cc_page (get_cpu_slab st c j) = Some q" "obj \<in> objs c q" using cp [OF j(1)] by blast
      then have "q = p" using one [OF q(1) p(1) q(3) p(3)] by simp
      then show False using class_okD(8) [OF ok i(1) j(1) p(2)] q(2) j(2) by simp
    qed
    ultimately show ?thesis using p by blast
  qed
qed

section \<open>Allocation from the slab of the processor\<close>

lemmas slab_upds = upd_mm_def upd_cache_def upd_node_def upd_cpu_def upd_slab_def upd_page_def upd_lists_def

lemma link_eq: "c < 12 \<Longrightarrow> cache_ok c k \<Longrightarrow> get_link (mc_offset k) obj s = unat (peek32 s (olink c obj))"
  "c < 12 \<Longrightarrow> cache_ok c k \<Longrightarrow> set_link (mc_offset k) obj v s = poke32 (olink c obj) (of_nat v) s"
  using class_size(5) by (simp_all add: get_link_def set_link_def cache_ok_def)

lemma local_refl: "local p s s" by (simp add: local_def)

lemma sinv_family: "sinv H L S F C st \<Longrightarrow> family clist (lists (sl_mm st)) H L"
  by (rule bcore_family [of UNIV]) (simp add: sinv_def binv_def)

lemma slab_alloc_fast:
  assumes inv: "sinv H L S F C st" and c: "c < 12" and i: "cpu < CPUNUMS" and fl: "C c cpu = obj # fl"
  shows "\<exists>st'. slab_alloc c cpu st = Some (obj, st') \<and> sinv H L S F (C(c := (C c)(cpu := fl))) st' \<and>
    sl_mm st' = sl_mm st \<and> slablock st' = slablock st"
proof -
  note ok = sinvD(4) [OF inv c]
  let ?k = "kmalloc_caches st c" let ?cc = "mc_cpu ?k cpu"
  obtain p where p: "p \<in> S c" "cc_page ?cc = Some p" using free_objs(2) [OF inv c i, of obj] fl by auto
  have co: "cpu_ok (sl_mm st) c (S c) F ?cc (obj # fl)" using class_okD(7) [OF ok i] fl by simp
  then have o: "cc_freelist ?cc = obj" "obj \<noteq> 0" by (auto simp: cpu_ok_def)
  define cc' where "cc' = ?cc\<lparr>cc_freelist := unat (peek32 (sl_mm st) (olink c obj))\<rparr>"
  define k' where "k' = ?k\<lparr>mc_cpu := (mc_cpu ?k)(cpu := cc')\<rparr>"
  define st' where "st' = st\<lparr>kmalloc_caches := (kmalloc_caches st)(c := k')\<rparr>"
  have "slab_alloc c cpu st = Some (obj, st')"
    using o link_eq(1) [OF c class_okD(1) [OF ok]] by (simp add: slab_alloc_def Let_def st'_def k'_def cc'_def slab_upds)
  moreover have "sinv H L S (F(p := F p)) (C(c := (C c)(cpu := fl))) st'"
  proof (rule local_step [OF inv c i p(1) local_refl sinv_family [OF inv]])
    show "cache_ok c k'" using class_okD(1) [OF ok] by (simp add: cache_ok_def k'_def)
    show "cpu_ok (sl_mm st) c (S c) (F(p := F p)) cc' fl" using co by (auto simp: cpu_ok_def cc'_def)
    show "(frozen (sl_mm st) p) = (\<exists>j<CPUNUMS. cc_page (mc_cpu k' j) = Some p)"
      using class_okD(4) [OF ok p(1)] by (auto simp: k'_def cc'_def)
    show "PageNode p \<in> set (L (PartialSlab c)) \<longleftrightarrow> F p \<noteq> [] \<and> \<not> frozen (sl_mm st) p"
      unfolding class_okD(9) [OF ok] using p(1) by auto
    show "cpu_ok (sl_mm st) c (S c) (F(p := F p)) (get_cpu_slab st c j) (C c j) \<and> cc_page cc' \<noteq> Some p"
      if "j < CPUNUMS" "j \<noteq> cpu" "cc_page (get_cpu_slab st c j) = Some p" for j
      using class_okD(8) [OF ok that(1) i that(3) p(2)] that(2) by simp
  qed (use sinvD(5) [OF inv c p(1)] class_okD(5,10) [OF ok] p in \<open>auto simp: slab_page_def k'_def cc'_def st'_def\<close>)
  ultimately show ?thesis by (auto simp: st'_def)
qed

section \<open>Loading, retiring and reviving slabs\<close>

lemma flag_ops:
  fixes x :: u32
  shows "(x OR pg_active) AND pg_reserved = x AND pg_reserved" "(x AND NOT pg_active) AND pg_reserved = x AND pg_reserved"
    "(x OR pg_slab_flag) AND pg_reserved = x AND pg_reserved"
    "(x OR pg_active) AND pg_active \<noteq> 0" "(x AND NOT pg_active) AND pg_active = 0"
    "(x OR pg_active) AND pg_slab_flag = x AND pg_slab_flag" "(x AND NOT pg_active) AND pg_slab_flag = x AND pg_slab_flag"
    "(x OR pg_slab_flag) AND pg_slab_flag \<noteq> 0"
proof -
  have d: "pg_active AND pg_reserved = 0" "NOT pg_active AND pg_reserved = pg_reserved" "pg_slab_flag AND pg_reserved = 0"
    "pg_active AND pg_slab_flag = 0" "NOT pg_active AND pg_slab_flag = pg_slab_flag" "NOT pg_active AND pg_active = 0"
    by (simp_all add: pg_active_def pg_reserved_def pg_slab_flag_def)
  show "(x OR pg_active) AND pg_reserved = x AND pg_reserved" "(x OR pg_slab_flag) AND pg_reserved = x AND pg_reserved"
    "(x OR pg_active) AND pg_slab_flag = x AND pg_slab_flag" using d by (simp_all add: bit.conj_disj_distrib2)
  show "(x AND NOT pg_active) AND pg_reserved = x AND pg_reserved" "(x AND NOT pg_active) AND pg_slab_flag = x AND pg_slab_flag"
    "(x AND NOT pg_active) AND pg_active = 0" unfolding and.assoc d by simp_all
  have "(x OR y) AND y = y" for y :: u32 by (rule bit_word_eqI) (auto simp: bit_simps)
  then show "(x OR pg_active) AND pg_active \<noteq> 0" "(x OR pg_slab_flag) AND pg_slab_flag \<noteq> 0"
    by (simp_all add: pg_active_def pg_slab_flag_def)
qed

lemma fchain_pmem: "pmem s' = pmem s \<Longrightarrow> fchain s' c a fl = fchain s c a fl"
  by (rule fchain_cong) (simp add: peek32_def)

lemma cpu_ok_pmem: "pmem s' = pmem s \<Longrightarrow> cpu_ok s' c S F cc fl = cpu_ok s c S F cc fl"
  using fchain_pmem [of s' s] by (simp add: cpu_ok_def)

lemma slab_load:
  assumes inv: "sinv H L S F C st" and c: "c < 12" and i: "cpu < CPUNUMS" and cc: "cc_page (get_cpu_slab st c cpu) = Some p"
    and e: "C c cpu = []" and fl: "F p = obj # fl"
  shows "\<exists>st'. slab_alloc_slow c cpu True st = Some (obj, st') \<and> sinv H L S (F(p := [])) (C(c := (C c)(cpu := fl))) st' \<and>
    pmem (sl_mm st') = pmem (sl_mm st) \<and> slablock st' = slablock st \<and> free_head (sl_mm st') = free_head (sl_mm st)"
proof -
  note ok = sinvD(4) [OF inv c]
  let ?k = "kmalloc_caches st c" let ?cc = "mc_cpu ?k cpu" let ?s = "sl_mm st" let ?g = "mempage (sl_mm st) p"
  have p: "p \<in> S c" using class_okD(7) [OF ok i] cc by (simp add: cpu_ok_def)
  note sp = sinvD(5) [OF inv c p, unfolded slab_page_def fl]
  have o: "pg_freelist ?g = obj" "obj \<noteq> 0" "pg_slublock ?g = 0" using sp by auto
  have ck: "cache_ok c ?k" and mo: "mc_objects ?k = nobj c" using class_okD(1) [OF ok] by (simp_all add: cache_ok_def)
  define cc' where "cc' = ?cc\<lparr>cc_freelist := unat (peek32 ?s (olink c obj))\<rparr>"
  define k' where "k' = ?k\<lparr>mc_cpu := (mc_cpu ?k)(cpu := cc')\<rparr>"
  define s' where "s' = ?s\<lparr>mempage := (mempage ?s)(p := ?g\<lparr>pg_freelist := 0, pg_inuse := int (nobj c), pg_slublock := 0\<rparr>)\<rparr>"
  define st' where "st' = st\<lparr>kmalloc_caches := (kmalloc_caches st)(c := k'), sl_mm := s'\<rparr>"
  have ln: "get_link (mc_offset ?k) obj t = unat (peek32 t (olink c obj))" for t using link_eq(1) [OF c ck] .
  have pk: "peek32 (t\<lparr>mempage := m\<rparr>) a = peek32 t a" for t m a by (simp add: peek32_def)
  have "slab_alloc_slow c cpu True st = Some (obj, st')"
    using cc o mo by (subst slab_alloc_slow.simps)
      (simp add: slab_lock_def slab_unlock_def slab_upds Let_def st'_def s'_def k'_def cc'_def ln pk)
  moreover have fz: "frozen s' p = frozen ?s p" by (simp add: frozen_def s'_def)
  have fzc: "frozen ?s p" using class_okD(4) [OF ok p] cc i by blast
  have pm: "pmem s' = pmem ?s" by (simp add: s'_def)
  have "sinv H L S (F(p := [])) (C(c := (C c)(cpu := fl))) st'"
  proof (rule local_step [OF inv c i p])
    show "local p ?s s'" by (simp add: local_def s'_def)
    show "family clist (lists s') H L" using sinv_family [OF inv] by (simp add: s'_def)
    show "cache_ok c k'" using ck by (simp add: cache_ok_def k'_def)
    show "cpu_ok s' c (S c) (F(p := [])) cc' fl"
      using sp p unfolding cpu_ok_pmem [OF pm] by (auto simp: cpu_ok_def cc'_def cc)
    show "(frozen s' p) = (\<exists>j<CPUNUMS. cc_page (mc_cpu k' j) = Some p)"
      using class_okD(4) [OF ok p] fz by (auto simp: k'_def cc'_def)
    show "PageNode p \<in> set (L (PartialSlab c)) \<longleftrightarrow> [] \<noteq> [] \<and> \<not> frozen s' p"
      unfolding class_okD(9) [OF ok] using fzc by auto
    show "cpu_ok s' c (S c) (F(p := [])) (get_cpu_slab st c j) (C c j) \<and> cc_page cc' \<noteq> Some p"
      if "j < CPUNUMS" "j \<noteq> cpu" "cc_page (get_cpu_slab st c j) = Some p" for j
      using class_okD(8) [OF ok that(1) i that(3) cc] that(2) by simp
  qed (use sp fz fzc class_okD(10) [OF ok] in \<open>auto simp: k'_def cc'_def st'_def s'_def\<close>)
  moreover have "free_head s' = free_head ?s" by (simp add: fun_eq_iff free_head_def in_zone_def s'_def)
  ultimately show ?thesis using pm by (auto simp: st'_def)
qed

lemma slab_retire:
  assumes inv: "sinv H L S F C st" and c: "c < 12" and i: "cpu < CPUNUMS" and cc: "cc_page (get_cpu_slab st c cpu) = Some p"
    and e: "C c cpu = []" and fl: "F p = []"
  shows "\<exists>st'. slab_alloc_slow c cpu True st = slab_alloc_slow c cpu False st' \<and> sinv H L S F C st' \<and>
    cc_page (get_cpu_slab st' c cpu) = None \<and> pmem (sl_mm st') = pmem (sl_mm st) \<and> slablock st' = slablock st \<and>
    free_head (sl_mm st') = free_head (sl_mm st)"
proof -
  note ok = sinvD(4) [OF inv c]
  let ?k = "kmalloc_caches st c" let ?cc = "mc_cpu ?k cpu" let ?s = "sl_mm st" let ?g = "mempage (sl_mm st) p"
  have p: "p \<in> S c" using class_okD(7) [OF ok i] cc by (simp add: cpu_ok_def)
  note sp = sinvD(5) [OF inv c p, unfolded slab_page_def fl]
  have nz: "0 < nobj c" using class_size(4) [OF c] by simp
  have o: "pg_freelist ?g = 0" "pg_slublock ?g = 0" "pg_inuse ?g \<noteq> 0" using sp nz by auto
  have co: "cpu_ok ?s c (S c) F ?cc []" using class_okD(7) [OF ok i] e by simp
  then have cf: "cc_freelist ?cc = 0" by (simp add: cpu_ok_def)
  have ck: "cache_ok c ?k" and mo: "mc_objects ?k = nobj c" using class_okD(1) [OF ok] by (simp_all add: cache_ok_def)
  define cc' where "cc' = ?cc\<lparr>cc_page := None\<rparr>"
  define k' where "k' = ?k\<lparr>mc_cpu := (mc_cpu ?k)(cpu := cc')\<rparr>"
  define s' where "s' = ?s\<lparr>mempage := (mempage ?s)(p := ?g\<lparr>pg_flags := pg_flags ?g AND NOT pg_active, pg_slublock := 0\<rparr>)\<rparr>"
  define st' where "st' = st\<lparr>kmalloc_caches := (kmalloc_caches st)(c := k'), sl_mm := s'\<rparr>"
  have "slab_alloc_slow c cpu True st = slab_alloc_slow c cpu False st'"
    using cc o cf by (subst slab_alloc_slow.simps)
      (simp add: slab_lock_def slab_unlock_def deactivate_slab_def unfreeze_slab_def ClearPageSlubFrozen_def slab_upds Let_def
        st'_def s'_def k'_def cc'_def)
  moreover have fz: "\<not> frozen s' p" using flag_ops(5) by (simp add: frozen_def s'_def)
  have fzc: "frozen ?s p" using class_okD(4) [OF ok p] cc i by blast
  have pm: "pmem s' = pmem ?s" by (simp add: s'_def)
  have other: "cc_page (get_cpu_slab st c j) \<noteq> Some p" if "j < CPUNUMS" "j \<noteq> cpu" for j
    using class_okD(8) [OF ok that(1) i _ cc] that(2) by blast
  have "sinv H L S (F(p := [])) (C(c := (C c)(cpu := []))) st'"
  proof (rule local_step [OF inv c i p])
    show "local p ?s s'" using flag_ops(2) by (simp add: local_def s'_def)
    show "family clist (lists s') H L" using sinv_family [OF inv] by (simp add: s'_def)
    show "cache_ok c k'" using ck by (simp add: cache_ok_def k'_def)
    show "cpu_ok s' c (S c) (F(p := [])) cc' []"
      unfolding cpu_ok_pmem [OF pm] using cf by (auto simp: cpu_ok_def cc'_def)
    show "(frozen s' p) = (\<exists>j<CPUNUMS. cc_page (mc_cpu k' j) = Some p)"
      using other fz by (auto simp: k'_def cc'_def)
    show "PageNode p \<in> set (L (PartialSlab c)) \<longleftrightarrow> [] \<noteq> [] \<and> \<not> frozen s' p"
      unfolding class_okD(9) [OF ok] using fzc by auto
    show "pg_flags (mempage s' p) AND pg_slab_flag \<noteq> 0" using sp flag_ops(7) by (simp add: s'_def)
    show "cpu_ok s' c (S c) (F(p := [])) (get_cpu_slab st c j) (C c j) \<and> cc_page cc' \<noteq> Some p"
      if "j < CPUNUMS" "j \<noteq> cpu" "cc_page (get_cpu_slab st c j) = Some p" for j
      using other that by blast
  qed (use sp fz fzc class_okD(10) [OF ok] nz cc in \<open>auto simp: k'_def cc'_def st'_def s'_def\<close>)
  moreover have "F(p := []) = F" "(C c)(cpu := []) = C c" using fl e by (auto intro: fun_upd_idem)
  moreover have "free_head s' = free_head ?s" by (simp add: fun_eq_iff free_head_def in_zone_def s'_def)
  ultimately show ?thesis using pm by (auto simp: st'_def k'_def cc'_def)
qed

lemma partial_scan_first:
  assumes "pg_slublock (get_page st p) = 0"
  shows "partial_scan c (PageNode p) st = Some (Some p, snd (lock_and_freeze_slab c p st))"
  using assms by (subst partial_scan.simps) (simp add: lock_and_freeze_slab_def slab_trylock_def spin_trylock_def Let_def)

lemma slab_revive:
  assumes inv: "sinv H L S F C st" and c: "c < 12" and i: "cpu < CPUNUMS" and cc: "cc_page (get_cpu_slab st c cpu) = None"
    and ps: "L (PartialSlab c) = x # ps"
  shows "\<exists>p st' L'. slab_alloc_slow c cpu False st = slab_alloc_slow c cpu True st' \<and> sinv H L' S F C st' \<and>
    p \<in> S c \<and> F p \<noteq> [] \<and>
    cc_page (get_cpu_slab st' c cpu) = Some p \<and> pmem (sl_mm st') = pmem (sl_mm st) \<and> slablock st' = slablock st \<and>
    free_head (sl_mm st') = free_head (sl_mm st)"
proof -
  note ok = sinvD(4) [OF inv c]
  have "x \<in> set (L (PartialSlab c))" using ps by simp
  then obtain p where p: "x = PageNode p" "p \<in> S c" "F p \<noteq> []" "\<not> frozen (sl_mm st) p"
    unfolding class_okD(9) [OF ok] by auto
  let ?k = "kmalloc_caches st c" let ?cc = "mc_cpu ?k cpu" let ?s = "sl_mm st" let ?g = "mempage (sl_mm st) p"
  note sp = sinvD(5) [OF inv c p(2), unfolded slab_page_def]
  note H = class_okD(2) [OF ok]
  have ce: "C c cpu = []" "cc_freelist ?cc = 0" using class_okD(7) [OF ok i] cc by (auto simp: cpu_ok_def)
  have ck: "cache_ok c ?k" "nd_lock (mc_node ?k) = 0" using class_okD(1) [OF ok] by (simp_all add: cache_ok_def)
  have np: "nd_npartial (mc_node ?k) = int (Suc (length ps))" using class_okD(10) [OF ok] ps by simp
  have nx: "nxt (lists ?s) (PartialSlab c) = PageNode p" using kl.fam_first [OF sinv_family [OF inv] H ps] p(1) by simp
  define cc' where "cc' = ?cc\<lparr>cc_page := Some p\<rparr>"
  define k' where "k' = ?k\<lparr>mc_node := mc_node ?k\<lparr>nd_npartial := int (length ps), nd_lock := 0\<rparr>, mc_cpu := (mc_cpu ?k)(cpu := cc')\<rparr>"
  define s' where "s' = ?s\<lparr>lists := list_del (PageNode p) (lists ?s),
     mempage := (mempage ?s)(p := ?g\<lparr>pg_flags := pg_flags ?g OR pg_active, pg_slublock := 0\<rparr>)\<rparr>"
  define st' where "st' = st\<lparr>sl_mm := s', kmalloc_caches := (kmalloc_caches st)(c := k')\<rparr>"
  let ?L = "L(PartialSlab c := ps)"
  have "slab_alloc_slow c cpu False st = slab_alloc_slow c cpu True st'"
    using cc ck(2) np nx sp by (subst slab_alloc_slow.simps)
      (simp add: get_partial_slab_def partial_scan_first node_lock_def node_unlock_def lock_and_freeze_slab_def slab_trylock_def spin_trylock_def
        slab_unlock_def SetPageSlubFrozen_def slab_upds Let_def st'_def s'_def k'_def cc'_def)
  moreover have fz: "frozen s' p" using flag_ops(4) by (simp add: frozen_def s'_def)
  have pm: "pmem s' = pmem ?s" by (simp add: s'_def)
  have other: "cc_page (get_cpu_slab st c j) \<noteq> Some p" if "j < CPUNUMS" for j
    using class_okD(4) [OF ok p(2)] p(4) that by blast
  have fam: "family clist (list_del (PageNode p) (lists ?s)) H ?L"
    using kl.fam_del [OF sinv_family [OF inv] H, of "PageNode p"] ps p(1) by simp
  have dist: "distinct (PageNode p # ps)" using kl.fam_distinct [OF sinv_family [OF inv] H] ps p(1) by simp
  have "sinv H ?L S (F(p := F p)) (C(c := (C c)(cpu := []))) st'"
  proof (rule local_step [OF inv c i p(2)])
    show "local p ?s s'" using flag_ops(1) by (simp add: local_def s'_def)
    show "family clist (lists s') H ?L" using fam by (simp add: s'_def)
    show "cache_ok c k'" using ck by (simp add: cache_ok_def k'_def)
    show "cpu_ok s' c (S c) (F(p := F p)) cc' []"
      unfolding cpu_ok_pmem [OF pm] using ce p(2) by (auto simp: cpu_ok_def cc'_def)
    show "(frozen s' p) = (\<exists>j<CPUNUMS. cc_page (mc_cpu k' j) = Some p)"
      using i fz by (auto simp: k'_def cc'_def)
    show "set (?L (PartialSlab c)) - {PageNode p} = set (L (PartialSlab c)) - {PageNode p}" using ps p(1) by auto
    show "PageNode p \<in> set (?L (PartialSlab c)) \<longleftrightarrow> F p \<noteq> [] \<and> \<not> frozen s' p" using fz dist by simp
    show "pg_flags (mempage s' p) AND pg_slab_flag \<noteq> 0" using sp flag_ops(6) by (simp add: s'_def)
    show "fchain s' c (pg_freelist (mempage s' p)) (F p)" unfolding fchain_pmem [OF pm] using sp by (simp add: s'_def)
    show "cpu_ok s' c (S c) (F(p := F p)) (get_cpu_slab st c j) (C c j) \<and> cc_page cc' \<noteq> Some p"
      if "j < CPUNUMS" "j \<noteq> cpu" "cc_page (get_cpu_slab st c j) = Some p" for j
      using other that by blast
  qed (use sp fz cc in \<open>auto simp: k'_def cc'_def st'_def s'_def\<close>)
  moreover have "(C c)(cpu := []) = C c" using ce by (auto intro: fun_upd_idem)
  moreover have "free_head s' = free_head ?s" by (simp add: fun_eq_iff free_head_def in_zone_def s'_def)
  ultimately show ?thesis using pm p by (intro exI [of _ p] exI [of _ st'] exI [of _ ?L]) (auto simp: st'_def k'_def cc'_def)
qed

end
