(* ===== verification/Slab_Alloc.thy ===== *)
theory Slab_Alloc
  imports Slab_Ops
begin

text \<open>New slabs, and \<^verbatim>\<open>kmalloc\<close> as a whole.\<close>

section \<open>Threading the objects of a new slab\<close>

abbreviation nth_obj :: "nat \<Rightarrow> nat \<Rightarrow> nat \<Rightarrow> nat" where "nth_obj c p j \<equiv> sbase p + j * osize c"

lemma nth_obj_in: "j < nobj c \<Longrightarrow> nth_obj c p j \<in> objs c p"
  by (simp add: objs_def)

lemma nth_obj_inj: "nth_obj c p i = nth_obj c p j \<longleftrightarrow> i = j"
  by simp

lemma peek_poke_obj:
  assumes "c < 12" "i < nobj c" "j < nobj c"
  shows "peek32 (poke32 (olink c (nth_obj c p i)) v s) (olink c (nth_obj c p j)) =
    (if j = i then v else peek32 s (olink c (nth_obj c p j)))"
proof -
  note b = obj_bounds [OF assms(1) nth_obj_in [OF assms(2)], of p] obj_bounds [OF assms(1) nth_obj_in [OF assms(3)], of p]
  have d: "4 dvd olink c (nth_obj c p i)" "4 dvd olink c (nth_obj c p j)"
    using b(3,8) class_size(1) [OF assms(1)] by (auto intro: dvd_add)
  have k: "kbase \<le> olink c (nth_obj c p i)" "kbase \<le> olink c (nth_obj c p j)" using b(5,10) by (auto intro: trans_le_add1)
  have "olink c (nth_obj c p j) = olink c (nth_obj c p i) \<longleftrightarrow> j = i" using nth_obj_inj [of c p j i] by simp
  then show ?thesis unfolding peek_poke [OF d k] by (simp only:)
qed

lemma poke_outside:
  assumes "c < 12" "i < nobj c" "q \<notin> block p 10"
  shows "pmem (poke32 (olink c (nth_obj c p i)) v s) q = pmem s q"
proof -
  have "aframe (olink c (nth_obj c p i)) \<in> block p 10"
    by (rule obj_frame [OF assms(1) nth_obj_in [OF assms(2)]]) simp
  then show ?thesis using assms(3) by (intro poke_pmem) auto
qed

lemma thread_spec:
  assumes c: "c < 12" and n: "i \<le> n" "n \<le> nobj c" and hi: "sbase p + 4194304 < 2 ^ 32"
  shows "\<exists>s'. thread_slab (osize c) (cache_size c div 4) (nth_obj c p i) (nth_obj c p n) ob s =
      Some (if i < n then Some (nth_obj c p (n - 1)) else ob, s') \<and>
    mempage s' = mempage s \<and> zones s' = zones s \<and> lists s' = lists s \<and> max_pfn s' = max_pfn s \<and>
    (\<forall>q. q \<notin> block p 10 \<longrightarrow> pmem s' q = pmem s q) \<and>
    (\<forall>j<nobj c. unat (peek32 s' (olink c (nth_obj c p j))) =
       (if i \<le> j \<and> j < n then nth_obj c p (Suc j) else unat (peek32 s (olink c (nth_obj c p j)))))"
  using n
proof (induction "n - i" arbitrary: i ob s)
  case 0
  then have "i = n" by simp
  then show ?case by (subst thread_slab.simps) auto
next
  case (Suc d)
  then have i: "i < n" "i < nobj c" and d: "d = n - Suc i" "Suc i \<le> n" "n \<le> nobj c" by simp_all
  let ?s = "poke32 (olink c (nth_obj c p i)) (of_nat (nth_obj c p (Suc i))) s"
  have o: "nth_obj c p i < nth_obj c p n" using i(1) by (simp add: mult_less_mono1)
  have sl: "set_link (cache_size c div 4) (nth_obj c p i) (nth_obj c p i + osize c) s = ?s"
    using class_size(5) [OF c] by (simp add: set_link_def algebra_simps)
  have v: "unat (of_nat (nth_obj c p (Suc i)) :: u32) = nth_obj c p (Suc i)"
  proof -
    have "nth_obj c p (Suc i) \<le> sbase p + 4194304" using obj_bounds(2) [OF c nth_obj_in [OF i(2)]] by simp
    also have "\<dots> < 2 ^ LENGTH(32)" using hi by simp
    finally show ?thesis by (simp only: unat_of_nat mod_less)
  qed
  obtain s' where s': "thread_slab (osize c) (cache_size c div 4) (nth_obj c p (Suc i)) (nth_obj c p n) (Some (nth_obj c p i)) ?s =
      Some (if Suc i < n then Some (nth_obj c p (n - 1)) else Some (nth_obj c p i), s')"
    "mempage s' = mempage ?s \<and> zones s' = zones ?s \<and> lists s' = lists ?s \<and> max_pfn s' = max_pfn ?s"
    "\<forall>q. q \<notin> block p 10 \<longrightarrow> pmem s' q = pmem ?s q"
    "\<forall>j<nobj c. unat (peek32 s' (olink c (nth_obj c p j))) =
       (if Suc i \<le> j \<and> j < n then nth_obj c p (Suc j) else unat (peek32 ?s (olink c (nth_obj c p j))))"
    using Suc.hyps(1) [OF d, of "Some (nth_obj c p i)" ?s] by blast
  have "thread_slab (osize c) (cache_size c div 4) (nth_obj c p i) (nth_obj c p n) ob s =
      thread_slab (osize c) (cache_size c div 4) (nth_obj c p (Suc i)) (nth_obj c p n) (Some (nth_obj c p i)) ?s"
    using o sl by (subst thread_slab.simps) (simp add: algebra_simps)
  also have "\<dots> = Some (Some (nth_obj c p (n - 1)), s')"
    unfolding s'(1) using i(1) by (cases "Suc i < n") (auto simp: less_Suc_eq dest: Suc_lessI)
  finally have run: "thread_slab (osize c) (cache_size c div 4) (nth_obj c p i) (nth_obj c p n) ob s = Some (Some (nth_obj c p (n - 1)), s')" .
  have "unat (peek32 s' (olink c (nth_obj c p j))) =
       (if i \<le> j \<and> j < n then nth_obj c p (Suc j) else unat (peek32 s (olink c (nth_obj c p j))))" if j: "j < nobj c" for j
    using s'(4) j peek_poke_obj [OF c i(2) j] v i(1) by (cases "j = i") auto
  then show ?case using run s'(2,3) i poke_outside [OF c i(2)] by (intro exI [of _ s']) simp
qed

lemma fchain_upt:
  assumes "i < n" "\<forall>j. i \<le> j \<and> j < n \<longrightarrow> unat (peek32 s (olink c (nth_obj c p j))) = (if Suc j < n then nth_obj c p (Suc j) else 0)"
  shows "fchain s c (nth_obj c p i) (map (nth_obj c p) [i..<n])"
  using assms
proof (induction "n - i" arbitrary: i)
  case (Suc d)
  have z: "nth_obj c p i \<noteq> 0" by (simp add: KERNEL_BASE_ADDR_def)
  show ?case
  proof (cases "Suc i < n")
    case True
    then have "fchain s c (nth_obj c p (Suc i)) (map (nth_obj c p) [Suc i..<n])" using Suc by (intro Suc.hyps(1)) auto
    then show ?thesis using Suc.prems True z by (simp add: upt_conv_Cons)
  next
    case False
    then have "n = Suc i" using Suc.prems(1) by simp
    then show ?thesis using Suc.prems(2) z by simp
  qed
qed simp

definition all_objs :: "nat \<Rightarrow> nat \<Rightarrow> nat list" where
  "all_objs c p = map (nth_obj c p) [0..<nobj c]"

lemma all_objs: "set (all_objs c p) = objs c p" "distinct (all_objs c p)" "length (all_objs c p) = nobj c"
  by (auto simp: all_objs_def objs_def distinct_map inj_on_def)

text \<open>What \<^verbatim>\<open>new_slab\<close> makes of the memory manager: \<open>s\<close> before, \<open>s'\<close> after, slab \<open>p\<close> of class \<open>c\<close>.\<close>

definition slab_made :: "mnode set \<Rightarrow> (mnode \<Rightarrow> mnode list) \<Rightarrow> (mnode \<Rightarrow> mnode list) \<Rightarrow> nat \<Rightarrow> nat \<Rightarrow> mmst \<Rightarrow> mmst \<Rightarrow> bool" where
  "slab_made H L L' c p s s' \<longleftrightarrow>
     binv UNIV H L' s' \<and> zone_layout s' \<and> same_off UNIV L L' \<and> unlisted UNIV H L' (block p 10) \<and>
     block p 10 \<subseteq> free_frames s ZNormal \<and> free_frames s' ZNormal = free_frames s ZNormal - block p 10 \<and> (\<forall>q. q \<notin> block p 10 \<longrightarrow> pmem s' q = pmem s q) \<and>
     (\<forall>q. block q 10 \<inter> free_frames s ZNormal = {} \<longrightarrow> same_slab s s' q) \<and> slab_page s' c p (all_objs c p)"

lemma new_slab_init_spec:
  assumes b: "binv UNIV H L s" "zone_layout s" and lo: "loose UNIV H L ZNormal p 10 s" and c: "c < 12" and ck: "cache_ok c (kmalloc_caches st c)"
    and st: "sl_mm st = s"
  shows "\<exists>s'. new_slab_init c p st = Some (st\<lparr>sl_mm := s'\<rparr>) \<and> binv UNIV H L s' \<and> zone_layout s' \<and> free_frames s' = free_frames s \<and>
    local p s s' \<and> slab_page s' c p (all_objs c p)"
proof -
  have core: "bcore UNIV H L s" using b by (simp add: binv_def)
  have bo: "blk_ok s ZNormal p 10" and cl: "\<forall>q\<in>block p 10. clean s q" and fr: "block p 10 \<inter> free_frames s ZNormal = {}"
    and ul: "unlisted UNIV H L (block p 10)" using lo by (simp_all add: loose_def)
  note lim = slab_range(2,3) [OF b bo] and al = slab_range(1) [OF b bo] and hi = slab_range(4) [OF b bo]
  have pv: "page2virt s p = Some (sbase p)"
    using lim by (simp add: page2virt_def page2phys_def page2pfn_def p2v_def PAGE_SHIFT_def NORMAL_ADDR_val)
  let ?g = "(mempage s p)\<lparr>pg_flags := pg_flags (mempage s p) OR pg_slab_flag, pg_freelist := sbase p, pg_inuse := 0,
     pg_slab := Some c, pg_slublock := 0\<rparr>"
  let ?s1 = "s\<lparr>mempage := (mempage s)(p := ?g)\<rparr>"
  have n: "0 < nobj c" using class_size(4) [OF c] by simp
  obtain s2 where s2: "thread_slab (osize c) (cache_size c div 4) (nth_obj c p 0) (nth_obj c p (nobj c)) None ?s1 =
      Some (Some (nth_obj c p (nobj c - 1)), s2)"
    "mempage s2 = mempage ?s1 \<and> zones s2 = zones ?s1 \<and> lists s2 = lists ?s1 \<and> max_pfn s2 = max_pfn ?s1"
    "\<forall>q. q \<notin> block p 10 \<longrightarrow> pmem s2 q = pmem ?s1 q"
    "\<forall>j<nobj c. unat (peek32 s2 (olink c (nth_obj c p j))) = (if 0 \<le> j \<and> j < nobj c then nth_obj c p (Suc j) else unat (peek32 ?s1 (olink c (nth_obj c p j))))"
    using thread_spec [OF c le0 order_refl hi, of None ?s1] n by auto
  have last: "nobj c - 1 < nobj c" using n by simp
  define s' where "s' = poke32 (olink c (nth_obj c p (nobj c - 1))) 0 s2"
  have run: "new_slab_init c p st = Some (st\<lparr>sl_mm := s'\<rparr>)"
    using pv st s2(1) ck link_eq(2) [OF c ck] by (simp add: new_slab_init_def slab_upds Let_def ksync cache_ok_def s'_def)
  have out: "\<forall>q. q \<notin> block p 10 \<longrightarrow> pmem s' q = pmem s q"
    using s2(3) poke_outside [OF c last] by (simp add: s'_def)
  have lc: "local p s s'" using s2(2) out flag_ops(3) by (simp add: local_def s'_def)
  note lf = local_facts [OF lc]
  have chain: "fchain s' c (nth_obj c p 0) (all_objs c p)"
    unfolding all_objs_def
  proof (rule fchain_upt [OF n], intro allI impI)
    fix j assume j: "0 \<le> j \<and> j < nobj c"
    then have "j = nobj c - 1 \<longleftrightarrow> \<not> Suc j < nobj c" by auto
    then show "unat (peek32 s' (olink c (nth_obj c p j))) = (if Suc j < nobj c then nth_obj c p (Suc j) else 0)"
      using peek_poke_obj [OF c last, of j p 0 s2] s2(4) j by (simp add: s'_def)
  qed
  have "binv UNIV H L s'"
  proof (rule binv_cong(1) [OF b(1)])
    show "pg_order (mempage s' q) = pg_order (mempage s q)" for q using lc by (cases "q = p") (auto simp: local_def)
    show "family clist (lists s') H L" using bcore_family [OF core] s2(2) by (simp add: s'_def)
    show "clean s' q" if "q \<in> free_frames s z" for q z
      using that lf(1) bcore_clean [OF core UNIV_I] by (auto simp: free_frames_def)
    show "PageNode q \<notin> set (L h)" if "h \<in> H - fa_heads UNIV" "q \<in> free_frames s z" for h q z
      using bcore_unlisted [OF core UNIV_I, of z] that by (auto simp: unlisted_def)
  qed (use lc in \<open>auto simp: local_def\<close>)
  moreover have "slab_page s' c p (all_objs c p)"
    using bo al cl fr chain s2(2) flag_ops(8) unfolding slab_page_def lf by (simp add: s'_def all_objs)
  ultimately show ?thesis using run lc lf(3,4) b(2) by blast
qed

lemma node_same: "nd_lock (mc_node k) = 0 \<Longrightarrow> k\<lparr>mc_node := mc_node k\<lparr>nd_lock := 0\<rparr>\<rparr> = k"
  by simp

lemma new_slab_spec:
  assumes inv: "sinv H L S F C st" and c: "c < 12"
  shows "new_slab c st = Some (None, st) \<and> (\<forall>p j. 10 \<le> j \<longrightarrow> \<not> free_head (sl_mm st) ZNormal p j) \<or>
    (\<exists>p s' L' k'. new_slab c st = Some (Some p, st\<lparr>sl_mm := s', kmalloc_caches := (kmalloc_caches st)(c := k')\<rparr>) \<and>
       slab_made H L L' c p (sl_mm st) s' \<and> cache_ok c k' \<and> mc_cpu k' = mc_cpu (kmalloc_caches st c) \<and>
       nd_npartial (mc_node k') = nd_npartial (mc_node (kmalloc_caches st c)))"
proof -
  let ?k = "kmalloc_caches st c" let ?s = "sl_mm st"
  have ck: "cache_ok c ?k" "mc_order ?k = 10" "nd_lock (mc_node ?k) = 0"
    using class_okD(1) [OF sinvD(4) [OF inv c]] by (simp_all add: cache_ok_def SLABORDER_def)
  have fl: "\<not> (GFP_ZERO AND GFP_ZERO \<noteq> 0 \<and> GFP_ZERO AND GFP_HIGH \<noteq> 0)" and z: "gfp_zone GFP_ZERO = ZNormal" and m: "10 < MAXORDER"
    by (simp_all add: GFP_ZERO_def GFP_HIGH_def gfp_zone_def MAXORDER_def)
  from pages_alloc_spec [OF sinvD(1,2) [OF inv] m fl, unfolded z] show ?thesis
  proof (elim disjE exE conjE)
    assume "pages_alloc GFP_ZERO 10 ?s = Some (None, ?s)" "\<forall>p j. 10 \<le> j \<longrightarrow> \<not> free_head ?s ZNormal p j"
    then show ?thesis using ck(2) by (simp add: new_slab_def Let_def)
  next
    fix p s1 L1
    assume a: "pages_alloc GFP_ZERO 10 ?s = Some (Some p, s1)" "binv UNIV H L1 s1" "same_off UNIV L L1"
      "loose UNIV H L1 ZNormal p 10 s1" "block p 10 \<subseteq> free_frames ?s ZNormal" "same_shape ?s (s1\<lparr>pmem := pmem ?s\<rparr>)"
      "\<forall>z'. free_frames s1 z' = (if z' = ZNormal then free_frames ?s z' - block p 10 else free_frames ?s z')"
      "\<forall>f. pmem s1 f = (if GFP_ZERO AND GFP_ZERO \<noteq> 0 \<and> f \<in> block p 10 then (\<lambda>_. 0) else pmem ?s f)"
    have iz: "in_zone s1 = in_zone ?s" "clean s1 = clean ?s" "blk_ok s1 = blk_ok ?s"
      using same_shape_sel(1-3) [OF a(6)] by (simp_all add: fun_eq_iff in_zone_def clean_def blk_ok_def)
    have lay: "zone_layout s1" using sinvD(2) [OF inv] by (simp add: zone_layout_def iz)
    have mp: "(mempage s1 q)\<lparr>pg_order := 0\<rparr> = (mempage ?s q)\<lparr>pg_order := 0\<rparr>" for q using a(6) by (simp add: same_shape_def)
    obtain s' where s': "new_slab_init c p (st\<lparr>sl_mm := s1\<rparr>) = Some (st\<lparr>sl_mm := s'\<rparr>)" "binv UNIV H L1 s'" "zone_layout s'"
      "free_frames s' = free_frames s1" "local p s1 s'" "slab_page s' c p (all_objs c p)"
      using new_slab_init_spec [OF a(2) lay a(4) c, of "st\<lparr>sl_mm := s1\<rparr>"] ck(1) by auto
    note lf = local_facts [OF s'(5)]
    have "same_slab ?s s' q" if q: "block q 10 \<inter> free_frames ?s ZNormal = {}" for q
    proof -
      have d: "block q 10 \<inter> block p 10 = {}" using q a(5) by blast
      then have n: "q \<noteq> p" using head_in_block [of p 10] head_in_block [of q 10] by blast
      have "pmem s' r = pmem ?s r" if "r \<in> block q 10" for r
      proof -
        have "r \<notin> block p 10" using d that by blast
        then show ?thesis using s'(5) a(8) by (simp add: local_def)
      qed
      moreover have "mempage s' q = mempage s1 q" using s'(5) n by (simp add: local_def)
      ultimately show ?thesis using mp [of q] q lf(1,2) iz s'(4) a(7) by (auto simp: same_slab_def)
    qed
    moreover have "pmem s' q = pmem ?s q" if "q \<notin> block p 10" for q using s'(5) a(8) that by (simp add: local_def)
    moreover have "unlisted UNIV H L1 (block p 10)" using a(4) by (simp add: loose_def)
    ultimately have "slab_made H L L1 c p ?s s'" using s'(2,3,4,6) a(3,5,7) by (auto simp: slab_made_def)
    moreover define k' where "k' = ?k\<lparr>mc_node := mc_node ?k\<lparr>nd_nslub := nd_nslub (mc_node ?k) + 1, nd_lock := 0\<rparr>\<rparr>"
    have "new_slab c st = Some (Some p, st\<lparr>sl_mm := s', kmalloc_caches := (kmalloc_caches st)(c := k')\<rparr>)"
      using a(1) ck s'(1) by (simp add: new_slab_def Let_def node_lock_def node_unlock_def slab_upds k'_def)
    moreover have "cache_ok c k'" using ck by (simp add: cache_ok_def k'_def)
    moreover have "mc_cpu k' = mc_cpu ?k" "nd_npartial (mc_node k') = nd_npartial (mc_node ?k)" by (simp_all add: k'_def)
    ultimately show ?thesis by blast
  qed
qed

lemma slab_fresh:
  assumes inv: "sinv H L S F C st" and c: "c < 12" and i: "cpu < CPUNUMS" and cc: "cc_page (get_cpu_slab st c cpu) = None"
    and ps: "L (PartialSlab c) = []"
  shows "slab_alloc_slow c cpu False st = Some (0, st) \<and> (\<forall>p j. 10 \<le> j \<longrightarrow> \<not> free_head (sl_mm st) ZNormal p j) \<or>
    (\<exists>p st' L'. slab_alloc_slow c cpu False st = slab_alloc_slow c cpu True st' \<and>
       sinv H L' (S(c := insert p (S c))) (F(p := all_objs c p)) C st' \<and> block p 10 \<subseteq> free_frames (sl_mm st) ZNormal \<and>
       cc_page (get_cpu_slab st' c cpu) = Some p \<and> (\<forall>q. q \<notin> block p 10 \<longrightarrow> pmem (sl_mm st') q = pmem (sl_mm st) q) \<and>
       slablock st' = slablock st \<and> free_frames (sl_mm st') ZNormal = free_frames (sl_mm st) ZNormal - block p 10)"
proof -
  note ok = sinvD(4) [OF inv c]
  let ?k = "kmalloc_caches st c" let ?cc = "mc_cpu ?k cpu" let ?s = "sl_mm st"
  have ck: "cache_ok c ?k" "nd_lock (mc_node ?k) = 0" using class_okD(1) [OF ok] by (simp_all add: cache_ok_def)
  have ce: "C c cpu = []" "cc_freelist ?cc = 0" using class_okD(7) [OF ok i] cc by (auto simp: cpu_ok_def)
  have np: "nd_npartial (mc_node ?k) = 0" using class_okD(10) [OF ok] ps by simp
  have gp: "get_partial_slab c st = Some (None, st)"
    using ck(2) np by (simp add: get_partial_slab_def node_lock_def node_unlock_def slab_upds node_same)
  from new_slab_spec [OF inv c] show ?thesis
  proof (elim disjE exE conjE)
    assume "new_slab c st = Some (None, st)" "\<forall>p j. 10 \<le> j \<longrightarrow> \<not> free_head ?s ZNormal p j"
    then show ?thesis using gp by (subst slab_alloc_slow.simps) simp
  next
    fix p s1 L1 k1
    assume a: "new_slab c st = Some (Some p, st\<lparr>sl_mm := s1, kmalloc_caches := (kmalloc_caches st)(c := k1)\<rparr>)"
      "slab_made H L L1 c p ?s s1" "cache_ok c k1" "mc_cpu k1 = mc_cpu ?k" "nd_npartial (mc_node k1) = nd_npartial (mc_node ?k)"
    note sm = a(2) [unfolded slab_made_def]
    let ?g = "mempage s1 p"
    define cc' where "cc' = ?cc\<lparr>cc_page := Some p\<rparr>"
    define k' where "k' = k1\<lparr>mc_cpu := (mc_cpu ?k)(cpu := cc')\<rparr>"
    define s' where "s' = s1\<lparr>mempage := (mempage s1)(p := ?g\<lparr>pg_flags := pg_flags ?g OR pg_active\<rparr>)\<rparr>"
    define st' where "st' = st\<lparr>kmalloc_caches := (kmalloc_caches st)(c := k'), sl_mm := s'\<rparr>"
    have run: "slab_alloc_slow c cpu False st = slab_alloc_slow c cpu True st'"
      using gp a(1,4) by (subst slab_alloc_slow.simps) (simp add: SetPageSlubFrozen_def slab_upds st'_def s'_def k'_def cc'_def)
    have lc: "local p s1 s'" using flag_ops(1) by (simp add: local_def s'_def)
    note lf = local_facts [OF lc]
    have pm: "pmem s' = pmem s1" by (simp add: s'_def)
    have fz: "frozen s' p" using flag_ops(4) by (simp add: frozen_def s'_def)
    have off: "L1 h = L h" if "h \<notin> fa_heads UNIV" for h using sm that by (simp add: same_off_def)
    have hp: "PartialSlab x \<notin> fa_heads UNIV" for x by (auto simp: fa_heads_def)
    have b: "binv UNIV H L1 s'" "zone_layout s'"
    proof -
      have b1: "binv UNIV H L1 s1" and core: "bcore UNIV H L1 s1" using sm by (simp_all add: binv_def)
      show "binv UNIV H L1 s'"
      proof (rule binv_cong(1) [OF b1])
        show "pg_order (mempage s' q) = pg_order (mempage s1 q)" for q by (simp add: s'_def)
        show "family clist (lists s') H L1" using bcore_family [OF core] by (simp add: s'_def)
        show "clean s' q" if "q \<in> free_frames s1 z" for q z
          using that lf(1) bcore_clean [OF core UNIV_I] by (auto simp: free_frames_def)
        show "PageNode q \<notin> set (L1 h)" if "h \<in> H - fa_heads UNIV" "q \<in> free_frames s1 z" for h q z
          using bcore_unlisted [OF core UNIV_I, of z] that by (auto simp: unlisted_def)
      qed (simp_all add: s'_def)
      show "zone_layout s'" using sm lf(4) by simp
    qed
    have sp: "slab_page s' c p (all_objs c p)"
      using sm flag_ops(6) unfolding slab_page_def lf fchain_pmem [OF pm] by (simp add: s'_def)
    have apart: "same_slab ?s s' q \<and> p \<notin> block q 10" if q: "c' < 12" "q \<in> S c'" for c' q
    proof -
      have f: "block q 10 \<inter> free_frames ?s ZNormal = {}" using sinvD(5) [OF inv q] by (simp add: slab_page_def)
      then have d: "p \<notin> block q 10" using sm head_in_block [of p 10] by blast
      then have "q \<noteq> p" using head_in_block [of q 10] by auto
      moreover have "same_slab ?s s1 q" using sm f by blast
      ultimately show ?thesis using d lf(1,2,3) pm by (simp add: same_slab_def s'_def)
    qed
    have npS: "p \<notin> S c" using apart [OF c, of p] head_in_block [of p 10] by blast
    have nocpu: "cc_page (get_cpu_slab st c j) \<noteq> Some p" if "j < CPUNUMS" for j
      using class_okD(7) [OF ok that] npS by (auto simp: cpu_ok_def)
    have lst: "PageNode q \<in> set (L h)" if "h \<in> H - fa_heads UNIV" "PageNode q \<in> set (L1 h)" for h q using that off by auto
    have "class_ok H L1 s' k' c (insert p (S c)) (F(p := all_objs c p)) ((C c)(cpu := []))"
    proof (rule class_step [where p = p and L' = L1 and cc' = cc', OF ok c i])
      show "cache_ok c k'" using a(3) by (simp add: cache_ok_def k'_def)
      show "cpu_ok s' c (insert p (S c)) (F(p := all_objs c p)) cc' []" using ce by (simp add: cpu_ok_def cc'_def)
      show "slab_page s' c p ((F(p := all_objs c p)) p) \<and> (frozen s' p \<longleftrightarrow> (\<exists>j<CPUNUMS. cc_page (mc_cpu k' j) = Some p)) \<and>
        (\<not> frozen s' p \<longrightarrow> length ((F(p := all_objs c p)) p) < nobj c) \<and>
        (\<forall>h\<in>H - fa_heads UNIV. \<forall>q\<in>block p 10. PageNode q \<in> set (L1 h) \<longrightarrow> h = PartialSlab c \<and> q = p)"
        using sp fz i sm by (auto simp: k'_def cc'_def unlisted_def)
      show "PageNode p \<in> set (L1 (PartialSlab c)) \<longleftrightarrow> p \<in> insert p (S c) \<and> (F(p := all_objs c p)) p \<noteq> [] \<and> \<not> frozen s' p"
        using fz off [OF hp] ps by simp
    qed (use apart [OF c] nocpu lst off [OF hp] np ps a(5) cc in \<open>auto simp: k'_def cc'_def\<close>)
    then have "sinv H L1 (S(c := insert p (S c))) (F(p := all_objs c p)) (C(c := (C c)(cpu := []))) st'"
    proof (rule sinv_step [where p = p and L' = L1, OF inv c b])
      show "PageNode q \<in> set (L h) \<or> q = p" if "h \<in> H - fa_heads UNIV" "PageNode q \<in> set (L1 h)" for h q using lst [OF that] by simp
    qed (use apart off hp in \<open>auto simp: st'_def\<close>)
    moreover have "(C c)(cpu := []) = C c" using ce by (auto intro: fun_upd_idem)
    ultimately show ?thesis using run sm pm lf(3) by (intro disjI2 exI [of _ p] exI [of _ st'] exI [of _ L1]) (auto simp: st'_def k'_def cc'_def)
  qed
qed

section \<open>Objects in use\<close>

abbreviation slabs_free :: "(nat \<Rightarrow> nat set) \<Rightarrow> (nat \<Rightarrow> nat list) \<Rightarrow> nat \<Rightarrow> nat set" where
  "slabs_free S F c \<equiv> (\<Union>p\<in>S c. set (F p))"

abbreviation cpu_free :: "(nat \<Rightarrow> nat \<Rightarrow> nat list) \<Rightarrow> nat \<Rightarrow> nat set" where
  "cpu_free C c \<equiv> (\<Union>i<CPUNUMS. set (C c i))"

lemma UN_split: "i \<in> A \<Longrightarrow> (\<Union>j\<in>A. f j) = f i \<union> (\<Union>j\<in>A - {i}. f j)"
  by auto

lemma cpu_free_split:
  assumes "i < CPUNUMS"
  shows "cpu_free C c = set (C c i) \<union> (\<Union>j\<in>{..<CPUNUMS} - {i}. set (C c j))"
    "cpu_free (C(c := (C c)(i := fl))) c = set fl \<union> (\<Union>j\<in>{..<CPUNUMS} - {i}. set (C c j))"
  using UN_split [of i "{..<CPUNUMS}" "\<lambda>j. set (C c j)"] UN_split [of i "{..<CPUNUMS}" "\<lambda>j. set (((C c)(i := fl)) j)"] assms
  by simp_all

lemma slab_free_split:
  assumes "p \<in> S c"
  shows "slabs_free S F c = set (F p) \<union> (\<Union>q\<in>S c - {p}. set (F q))"
    "slabs_free S (F(p := fl)) c = set fl \<union> (\<Union>q\<in>S c - {p}. set (F q))"
  using UN_split [of p "S c" "\<lambda>q. set (F q)"] UN_split [of p "S c" "\<lambda>q. set ((F(p := fl)) q)"] assms by simp_all

lemma in_use_fast:
  assumes inv: "sinv H L S F C st" and c: "c < 12" and i: "cpu < CPUNUMS" and fl: "C c cpu = obj # fl"
  shows "in_use S F (C(c := (C c)(cpu := fl))) c = insert obj (in_use S F C c)" "obj \<notin> in_use S F C c"
proof -
  have o: "\<exists>p\<in>S c. obj \<in> objs c p" "obj \<notin> slabs_free S F c" "obj \<notin> (\<Union>j\<in>{..<CPUNUMS} - {cpu}. set (C c j))"
    using free_objs(2) [OF inv c i, of obj] fl by auto
  have d: "obj \<notin> set fl" using class_okD(7) [OF sinvD(4) [OF inv c] i] fl by (simp add: cpu_ok_def)
  show "in_use S F (C(c := (C c)(cpu := fl))) c = insert obj (in_use S F C c)" "obj \<notin> in_use S F C c"
    unfolding in_use_def cpu_free_split [OF i, of C c] cpu_free_split(2) [OF i, of C c fl] fl using o d by auto
qed

lemma in_use_load:
  assumes inv: "sinv H L S F C st" and c: "c < 12" and i: "cpu < CPUNUMS" and e: "C c cpu = []" and p: "p \<in> S c" and fl: "F p = obj # fl"
  shows "in_use S (F(p := [])) (C(c := (C c)(cpu := fl))) c = insert obj (in_use S F C c)" "obj \<notin> in_use S F C c"
proof -
  note fo = free_objs(1) [OF inv c p]
  have d: "obj \<notin> set fl" using sinvD(5) [OF inv c p] fl by (simp add: slab_page_def)
  have o: "obj \<in> (\<Union>p\<in>S c. objs c p)" "obj \<notin> (\<Union>q\<in>S c - {p}. set (F q))" "obj \<notin> (\<Union>j\<in>{..<CPUNUMS} - {cpu}. set (C c j))"
    using fo [of obj] fl p by auto
  show "in_use S (F(p := [])) (C(c := (C c)(cpu := fl))) c = insert obj (in_use S F C c)" "obj \<notin> in_use S F C c"
    unfolding in_use_def cpu_free_split [OF i, of C c] cpu_free_split(2) [OF i, of C c fl]
      slab_free_split(1) [of p S c F, OF p] slab_free_split(2) [of p S c F, OF p] fl e using o d by auto
qed

lemma in_use_fresh:
  assumes "p \<notin> S c" "\<forall>q\<in>S c. objs c p \<inter> objs c q = {}"
  shows "in_use (S(c := insert p (S c))) (F(p := all_objs c p)) C c = in_use S F C c"
proof -
  have "slabs_free (S(c := insert p (S c))) (F(p := all_objs c p)) c = slabs_free S F c \<union> objs c p"
    using assms(1) by (auto simp: all_objs split: if_splits)
  then show ?thesis using assms(2) by (auto simp: in_use_def)
qed

lemma in_use_other:
  assumes "c' \<noteq> c" "p \<notin> S c'"
  shows "in_use (S(c := T)) (F(p := fl)) (C(c := D)) c' = in_use S F C c'"
proof -
  have "slabs_free S (F(p := fl)) c' = slabs_free S F c'" using assms(2) by (auto split: if_splits)
  then show ?thesis using assms(1) by (simp add: in_use_def)
qed

section \<open>Allocation\<close>

text \<open>The result \<open>r\<close> of an allocation in class \<open>c\<close>.\<close>

definition allocated :: "mnode set \<Rightarrow> (nat \<Rightarrow> nat set) \<Rightarrow> (nat \<Rightarrow> nat list) \<Rightarrow> (nat \<Rightarrow> nat \<Rightarrow> nat list) \<Rightarrow> nat \<Rightarrow>
    slst \<Rightarrow> nat \<Rightarrow> slst \<Rightarrow> bool" where
  "allocated H S F C c st r st' \<longleftrightarrow>
     (\<exists>L' S' F' C'. sinv H L' S' F' C' st' \<and> (\<forall>c'<12. c' \<noteq> c \<longrightarrow> in_use S' F' C' c' = in_use S F C c') \<and>
       (r = 0 \<and> in_use S' F' C' c = in_use S F C c \<and> (\<forall>p j. 10 \<le> j \<longrightarrow> \<not> free_head (sl_mm st) ZNormal p j) \<or>
        r \<noteq> 0 \<and> r \<notin> in_use S F C c \<and> in_use S' F' C' c = insert r (in_use S F C c))) \<and>
     (\<forall>q. q \<notin> free_frames (sl_mm st) ZNormal \<longrightarrow> pmem (sl_mm st') q = pmem (sl_mm st) q) \<and> slablock st' = slablock st"

lemma free_head_frames: "free_head s' = free_head s \<Longrightarrow> free_frames s' = free_frames s"
  by (simp add: free_frames_def fun_eq_iff)

text \<open>At most one aligned block of 4 MB leaves the free memory.\<close>

definition takes :: "slst \<Rightarrow> slst \<Rightarrow> bool" where
  "takes st st' \<longleftrightarrow>
     (\<exists>p. 1024 dvd p \<and> free_frames (sl_mm st) ZNormal - block p 10 \<subseteq> free_frames (sl_mm st') ZNormal)"

lemma takes_same: "free_frames (sl_mm st') = free_frames (sl_mm st) \<Longrightarrow> takes st st'"
  by (auto simp: takes_def intro: exI [of _ 0])

lemma takes_frames: "free_frames (sl_mm s) = free_frames (sl_mm st) \<Longrightarrow> takes s st' = takes st st'"
  by (simp add: takes_def)

lemma allocated_load:
  assumes inv: "sinv H L S F C st" and c: "c < 12" and i: "cpu < CPUNUMS" and cc: "cc_page (get_cpu_slab st c cpu) = Some p"
    and e: "C c cpu = []" and fl: "F p \<noteq> []"
  shows "\<exists>r st'. slab_alloc_slow c cpu True st = Some (r, st') \<and> r \<noteq> 0 \<and> allocated H S F C c st r st' \<and>
    free_frames (sl_mm st') = free_frames (sl_mm st)"
proof -
  obtain obj fl where f: "F p = obj # fl" using fl by (cases "F p") auto
  have p: "p \<in> S c" using class_okD(7) [OF sinvD(4) [OF inv c] i] cc by (simp add: cpu_ok_def)
  obtain st' where st': "slab_alloc_slow c cpu True st = Some (obj, st')" "sinv H L S (F(p := [])) (C(c := (C c)(cpu := fl))) st'"
    "pmem (sl_mm st') = pmem (sl_mm st)" "slablock st' = slablock st" "free_head (sl_mm st') = free_head (sl_mm st)"
    using slab_load [OF inv c i cc e f] by blast
  have "obj \<noteq> 0" using sinvD(5) [OF inv c p] f by (simp add: slab_page_def)
  moreover have "in_use S (F(p := [])) (C(c := (C c)(cpu := fl))) c' = in_use S F C c'" if "c' < 12" "c' \<noteq> c" for c'
  proof -
    have "p \<notin> S c'" using slabs_disjoint(2) [OF inv c p that(1), of p] that(2) by blast
    then show ?thesis using in_use_other [OF that(2), of p S "S c" F "[]" C "(C c)(cpu := fl)"] by simp
  qed
  ultimately show ?thesis
    using st' free_head_frames [OF st'(5)] in_use_load [where F = F, OF inv c i e p f] by (auto simp: allocated_def)
qed

lemma allocated_trans:
  assumes "allocated H S1 F1 C1 c st1 r st'" "\<And>c'. c' < 12 \<Longrightarrow> in_use S1 F1 C1 c' = in_use S F C c'"
    "\<And>q. q \<notin> free_frames (sl_mm st) ZNormal \<Longrightarrow> q \<notin> free_frames (sl_mm st1) ZNormal \<and> pmem (sl_mm st1) q = pmem (sl_mm st) q"
    "slablock st1 = slablock st" "r = 0 \<Longrightarrow> free_head (sl_mm st1) = free_head (sl_mm st)" "c < 12"
  shows "allocated H S F C c st r st'"
  using assms unfolding allocated_def by (auto; metis)

lemma alloc_new:
  assumes inv: "sinv H L S F C st" and c: "c < 12" and i: "cpu < CPUNUMS" and cc: "cc_page (get_cpu_slab st c cpu) = None"
  shows "\<exists>r st'. slab_alloc_slow c cpu False st = Some (r, st') \<and> allocated H S F C c st r st' \<and> takes st st'"
proof -
  have e: "C c cpu = []" using class_okD(7) [OF sinvD(4) [OF inv c] i] cc by (simp add: cpu_ok_def)
  show ?thesis
  proof (cases "L (PartialSlab c)")
    case (Cons x ps)
    obtain p st1 L1 where a: "slab_alloc_slow c cpu False st = slab_alloc_slow c cpu True st1" "sinv H L1 S F C st1"
      "F p \<noteq> []" "cc_page (get_cpu_slab st1 c cpu) = Some p" "pmem (sl_mm st1) = pmem (sl_mm st)" "slablock st1 = slablock st"
      "free_head (sl_mm st1) = free_head (sl_mm st)"
      using slab_revive [OF inv c i cc Cons] by blast
    obtain r st' where r: "slab_alloc_slow c cpu True st1 = Some (r, st')" "allocated H S F C c st1 r st'"
      "free_frames (sl_mm st') = free_frames (sl_mm st1)"
      using allocated_load [OF a(2) c i a(4) e a(3)] by blast
    have "allocated H S F C c st r st'"
      by (rule allocated_trans [OF r(2)]) (use a(5-7) free_head_frames [OF a(7)] c in auto)
    moreover have "takes st st'" using r(3) free_head_frames [OF a(7)] by (intro takes_same) simp
    ultimately show ?thesis using a(1) r(1) by auto
  next
    case Nil
    from slab_fresh [OF inv c i cc Nil] show ?thesis
    proof (elim disjE exE conjE)
      assume "slab_alloc_slow c cpu False st = Some (0, st)" "\<forall>p j. 10 \<le> j \<longrightarrow> \<not> free_head (sl_mm st) ZNormal p j"
      then show ?thesis using inv takes_same [of st st] by (auto simp: allocated_def)
    next
      fix p st1 L1
      let ?S = "S(c := insert p (S c))" let ?F = "F(p := all_objs c p)"
      assume a: "slab_alloc_slow c cpu False st = slab_alloc_slow c cpu True st1" "sinv H L1 ?S ?F C st1"
        "block p 10 \<subseteq> free_frames (sl_mm st) ZNormal" "cc_page (get_cpu_slab st1 c cpu) = Some p"
        "\<forall>q. q \<notin> block p 10 \<longrightarrow> pmem (sl_mm st1) q = pmem (sl_mm st) q" "slablock st1 = slablock st"
        "free_frames (sl_mm st1) ZNormal = free_frames (sl_mm st) ZNormal - block p 10"
      have ne: "?F p \<noteq> []" using class_size(4) [OF c] by (auto simp: all_objs_def)
      obtain r st' where r: "slab_alloc_slow c cpu True st1 = Some (r, st')" "r \<noteq> 0" "allocated H ?S ?F C c st1 r st'"
        "free_frames (sl_mm st') = free_frames (sl_mm st1)"
        using allocated_load [where F = ?F, OF a(2) c i a(4) e ne] by blast
      have new: "p \<notin> S c'" if "c' < 12" for c'
      proof
        assume "p \<in> S c'"
        then have "block p 10 \<inter> free_frames (sl_mm st) ZNormal = {}" using sinvD(5) [OF inv that] by (simp add: slab_page_def)
        then show False using a(3) head_in_block [of p 10] by blast
      qed
      have al: "1024 dvd q" if "q \<in> ?S c" for q using sinvD(5) [OF a(2) c that] by (simp add: slab_page_def)
      have "\<forall>q\<in>S c. objs c p \<inter> objs c q = {}"
        using objs_slab [OF c c al al] new [OF c] by (metis disjoint_iff fun_upd_same insertCI)
      then have "in_use ?S ?F C c = in_use S F C c" using in_use_fresh [of p S c F C] new [OF c] by simp
      then have iu: "in_use ?S ?F C c' = in_use S F C c'" if "c' < 12" for c'
        using in_use_other [of c' c p S "insert p (S c)" F "all_objs c p" C "C c"] new [OF that] by (cases "c' = c") auto
      have "allocated H S F C c st r st'"
        by (rule allocated_trans [OF r(3) iu]) (use a(3,5-7) r(2) c in auto)
      moreover have "takes st st'" using al [of p] r(4) a(7) by (auto simp: takes_def)
      ultimately show ?thesis using a(1) r(1) by auto
    qed
  qed
qed

lemma slab_alloc_spec:
  assumes inv: "sinv H L S F C st" and c: "c < 12" and i: "cpu < CPUNUMS"
  shows "\<exists>r st'. slab_alloc c cpu st = Some (r, st') \<and> allocated H S F C c st r st' \<and> takes st st'"
proof -
  note ok = sinvD(4) [OF inv c] and co = class_okD(7) [OF sinvD(4) [OF inv c] i]
  show ?thesis
  proof (cases "C c cpu")
    case (Cons obj fl)
    obtain st' where st': "slab_alloc c cpu st = Some (obj, st')" "sinv H L S F (C(c := (C c)(cpu := fl))) st'" "sl_mm st' = sl_mm st" "slablock st' = slablock st"
      using slab_alloc_fast [where C = C, OF inv c i Cons] by blast
    moreover have "obj \<noteq> 0" using co Cons by (simp add: cpu_ok_def)
    moreover have "in_use S F (C(c := (C c)(cpu := fl))) c' = in_use S F C c'" if "c' \<noteq> c" for c'
      using that by (simp add: in_use_def)
    ultimately have "allocated H S F C c st obj st'" using in_use_fast [where C = C, OF inv c i Cons]
      unfolding allocated_def by (intro conjI exI [of _ L] exI [of _ S] exI [of _ F] exI [of _ "C(c := (C c)(cpu := fl))"]) simp_all
    moreover have "takes st st'" using st'(3) by (simp add: takes_same)
    ultimately show ?thesis using st'(1) by blast
  next
    case Nil
    then have z: "cc_freelist (get_cpu_slab st c cpu) = 0" using co by (simp add: cpu_ok_def)
    show ?thesis
    proof (cases "cc_page (get_cpu_slab st c cpu)")
      case None
      then show ?thesis using alloc_new [OF inv c i None] z by (simp add: slab_alloc_def Let_def)
    next
      case (Some p)
      have run: "slab_alloc c cpu st = slab_alloc_slow c cpu True st" using z Some by (simp add: slab_alloc_def Let_def)
      show ?thesis
      proof (cases "F p")
        case Cons
        then show ?thesis using allocated_load [where F = F, OF inv c i Some Nil] run takes_same by fastforce
      next
        case e: Nil
        obtain st1 where a: "slab_alloc_slow c cpu True st = slab_alloc_slow c cpu False st1" "sinv H L S F C st1"
          "cc_page (get_cpu_slab st1 c cpu) = None" "pmem (sl_mm st1) = pmem (sl_mm st)" "slablock st1 = slablock st"
          "free_head (sl_mm st1) = free_head (sl_mm st)"
          using slab_retire [where F = F, OF inv c i Some Nil e] by blast
        obtain r st' where r: "slab_alloc_slow c cpu False st1 = Some (r, st')" "allocated H S F C c st1 r st'" "takes st1 st'"
          using alloc_new [OF a(2) c i a(3)] by blast
        have "allocated H S F C c st r st'"
          by (rule allocated_trans [OF r(2)]) (use a(4-6) free_head_frames [OF a(6)] c in auto)
        moreover have "takes st st'" using r(3) takes_frames free_head_frames [OF a(6)] by blast
        ultimately show ?thesis using run a(1) r(1) by auto
      qed
    qed
  qed
qed

end
