(* ===== verification/Slab_Free.thy ===== *)
theory Slab_Free
  imports Slab_Alloc
begin

text \<open>Releasing objects: \<^verbatim>\<open>slab_free\<close> and \<^verbatim>\<open>kfree\<close>.\<close>

section \<open>Pushing an object on a chain\<close>

lemma fchain_push:
  assumes c: "c < 12" and hi: "sbase p + 4194304 < 2 ^ 32" and fl: "fchain s c a fl" "set fl \<subseteq> objs c p" and obj: "obj \<in> objs c p" "obj \<notin> set fl"
  shows "fchain (poke32 (olink c obj) (of_nat a) s) c obj (obj # fl)"
proof -
  have "a < 2 ^ 32"
  proof (cases fl)
    case (Cons x xs)
    then have "a \<in> objs c p" using fl by auto
    then show ?thesis using obj_bounds(2) [OF c] hi by fastforce
  qed (use fl in simp)
  then have "unat (of_nat a :: u32) = a" by (simp add: unat_of_nat)
  moreover have "4 dvd olink c obj" "kbase \<le> olink c obj"
    using obj_bounds(3,5) [OF c obj(1)] class_size(1) [OF c] by (auto intro: trans_le_add1)
  then have "peek32 (poke32 (olink c obj) (of_nat a) s) (olink c obj) = of_nat a" using peek_poke by simp
  ultimately show ?thesis using poke_link [OF c obj(1) fl(2) obj(2)] fl(1) obj_bounds(4) [OF c obj(1)] by simp
qed

lemma poke_local:
  assumes "c < 12" "obj \<in> objs c p" "q \<notin> block p 10"
  shows "pmem (poke32 (olink c obj) v s) q = pmem s q"
proof -
  have "aframe (olink c obj) \<in> block p 10" by (rule obj_frame [OF assms(1,2)]) simp
  then show ?thesis using assms(3) by (intro poke_pmem) auto
qed

lemma peek_released:
  assumes "c < 12" "obj \<in> objs c p" "pmem s' = pmem (poke32 (olink c obj) v s)" "4 dvd a" "kbase \<le> a" "a \<noteq> olink c obj"
  shows "peek32 s' a = peek32 s a"
proof -
  have "4 dvd olink c obj" "kbase \<le> olink c obj"
    using obj_bounds(3,5) [OF assms(1,2)] class_size(1) [OF assms(1)] by (auto intro: trans_le_add1)
  moreover have "peek32 s' a = peek32 (poke32 (olink c obj) v s) a" by (rule peek_cong) (simp only: assms(3))
  ultimately show ?thesis using peek_poke assms(4-6) by simp
qed

text \<open>What a release of \<open>obj\<close> of class \<open>c\<close> leaves.\<close>

definition released :: "mnode set \<Rightarrow> (nat \<Rightarrow> nat set) \<Rightarrow> (nat \<Rightarrow> nat list) \<Rightarrow> (nat \<Rightarrow> nat \<Rightarrow> nat list) \<Rightarrow> nat \<Rightarrow> nat \<Rightarrow>
    slst \<Rightarrow> slst \<Rightarrow> bool" where
  "released H S F C c obj st st' \<longleftrightarrow>
     (\<exists>L' S' F' C'. sinv H L' S' F' C' st' \<and> (\<forall>c'<12. in_use S' F' C' c' = (if c' = c then in_use S F C c - {obj} else in_use S F C c'))) \<and>
     (\<forall>q. q \<noteq> aframe (olink c obj) \<longrightarrow> pmem (sl_mm st') q = pmem (sl_mm st) q) \<and>
     (\<forall>a. 4 dvd a \<longrightarrow> kbase \<le> a \<longrightarrow> a \<noteq> olink c obj \<longrightarrow> peek32 (sl_mm st') a = peek32 (sl_mm st) a) \<and>
     slablock st' = slablock st"

lemma in_useD:
  assumes "obj \<in> in_use S F C c"
  shows "\<exists>p\<in>S c. obj \<in> objs c p" "p \<in> S c \<Longrightarrow> obj \<notin> set (F p)" "i < CPUNUMS \<Longrightarrow> obj \<notin> set (C c i)"
  using assms by (auto simp: in_use_def)

lemma in_use_push_cpu:
  assumes "i < CPUNUMS"
  shows "in_use S F (C(c := (C c)(i := obj # C c i))) c = in_use S F C c - {obj}"
  unfolding in_use_def cpu_free_split(2) [OF assms, of C c] cpu_free_split(1) [OF assms, of C c] by auto

lemma in_use_push_page:
  assumes "p \<in> S c"
  shows "in_use S (F(p := obj # F p)) C c = in_use S F C c - {obj}"
  unfolding in_use_def slab_free_split(2) [of p S c F, OF assms] slab_free_split(1) [of p S c F, OF assms] by auto

lemma release_fast:
  assumes inv: "sinv H L S F C st" and c: "c < 12" and i: "cpu < CPUNUMS" and obj: "obj \<in> in_use S F C c" "obj \<in> objs c p"
    and cc: "cc_page (get_cpu_slab st c cpu) = Some p"
  shows "\<exists>st'. slab_free c cpu obj p st = Some st' \<and> released H S F C c obj st st'"
proof -
  note ok = sinvD(4) [OF inv c]
  let ?k = "kmalloc_caches st c" let ?cc = "mc_cpu ?k cpu" let ?s = "sl_mm st"
  have co: "cpu_ok ?s c (S c) F ?cc (C c cpu)" using class_okD(7) [OF ok i] .
  then have p: "p \<in> S c" "set (C c cpu) \<subseteq> objs c p - set (F p)" using cc by (auto simp: cpu_ok_def)
  note sp = sinvD(5) [OF inv c p(1), unfolded slab_page_def] and ck = class_okD(1) [OF ok]
  have hi: "sbase p + 4194304 < 2 ^ 32" using slab_range(4) [OF sinvD(1,2) [OF inv]] sp by blast
  note no = in_useD(2) [OF obj(1) p(1)] in_useD(3) [OF obj(1)]
  define cc' where "cc' = ?cc\<lparr>cc_freelist := obj\<rparr>"
  define k' where "k' = ?k\<lparr>mc_cpu := (mc_cpu ?k)(cpu := cc')\<rparr>"
  define s' where "s' = poke32 (olink c obj) (of_nat (cc_freelist ?cc)) ?s"
  define st' where "st' = st\<lparr>sl_mm := s', kmalloc_caches := (kmalloc_caches st)(c := k')\<rparr>"
  have run: "slab_free c cpu obj p st = Some st'"
    using sp cc by (simp add: slab_free_def Let_def link_eq(2) [OF c ck] slab_upds st'_def s'_def k'_def cc'_def)
  have "sinv H L S (F(p := F p)) (C(c := (C c)(cpu := obj # C c cpu))) st'"
  proof (rule local_step [OF inv c i p(1)])
    show "local p ?s s'" using poke_local [OF c obj(2)] by (simp add: local_def s'_def)
    show "family clist (lists s') H L" using sinv_family [OF inv] by (simp add: s'_def)
    show "cache_ok c k'" using ck by (simp add: cache_ok_def k'_def)
    show "cpu_ok s' c (S c) (F(p := F p)) cc' (obj # C c cpu)"
      using fchain_push [OF c hi _ _ obj(2) no(2) [OF i], of ?s "cc_freelist ?cc"] co p obj(2) no i
      by (auto simp: cpu_ok_def cc'_def s'_def cc)
    show "fchain s' c (pg_freelist (mempage s' p)) (F p)"
      using poke_link [OF c obj(2) _ no(1)] sp by (simp add: s'_def)
    show "(frozen s' p) = (\<exists>j<CPUNUMS. cc_page (mc_cpu k' j) = Some p)"
      using class_okD(4) [OF ok p(1)] by (auto simp: k'_def cc'_def frozen_def s'_def)
    show "PageNode p \<in> set (L (PartialSlab c)) \<longleftrightarrow> F p \<noteq> [] \<and> \<not> frozen s' p"
      unfolding class_okD(9) [OF ok] using p(1) by (auto simp: frozen_def s'_def)
    show "cpu_ok s' c (S c) (F(p := F p)) (get_cpu_slab st c j) (C c j) \<and> cc_page cc' \<noteq> Some p"
      if "j < CPUNUMS" "j \<noteq> cpu" "cc_page (get_cpu_slab st c j) = Some p" for j
      using class_okD(8) [OF ok that(1) i that(3) cc] that(2) by simp
    show "\<not> frozen s' p \<longrightarrow> length (F p) < nobj c" using class_okD(5) [OF ok p(1)] by (simp add: frozen_def s'_def)
  qed (use sp class_okD(10) [OF ok] in \<open>auto simp: k'_def cc'_def st'_def s'_def\<close>)
  then have "sinv H L S F (C(c := (C c)(cpu := obj # C c cpu))) st'" by simp
  moreover have "in_use S F (C(c := (C c)(cpu := obj # C c cpu))) c' = (if c' = c then in_use S F C c - {obj} else in_use S F C c')" for c'
    using in_use_push_cpu [OF i, of S F C c obj] by (auto simp: in_use_def)
  moreover have "peek32 s' a = peek32 ?s a" if "4 dvd a" "kbase \<le> a" "a \<noteq> olink c obj" for a
    by (rule peek_released [OF c obj(2) _ that]) (simp add: s'_def)
  ultimately have "released H S F C c obj st st'"
    unfolding released_def by (intro conjI exI [of _ L] exI [of _ S] exI [of _ F] exI [of _ "C(c := (C c)(cpu := obj # C c cpu))"])
      (auto simp: st'_def s'_def)
  then show ?thesis using run by blast
qed

section \<open>Release to a slab that is not the current one\<close>

lemma release_page:
  assumes inv: "sinv H L S F C st" and c: "c < 12" and i: "cpu < CPUNUMS" and p: "p \<in> S c" and obj: "obj \<in> in_use S F C c" "obj \<in> objs c p"
    and cc: "cc_page (get_cpu_slab st c cpu) \<noteq> Some p"
    and m: "pmem s' = pmem (poke32 (olink c obj) (of_nat (pg_freelist (mempage (sl_mm st) p))) (sl_mm st))"
      "mempage s' = (mempage (sl_mm st))(p := (mempage (sl_mm st) p)\<lparr>pg_freelist := obj, pg_inuse := pg_inuse (mempage (sl_mm st) p) - 1, pg_slublock := 0\<rparr>)"
      "zones s' = zones (sl_mm st)" "max_pfn s' = max_pfn (sl_mm st)"
    and fam: "family clist (lists s') H L'" and L': "\<And>h. h \<noteq> PartialSlab c \<Longrightarrow> L' h = L h"
    and k': "cache_ok c k'" "mc_cpu k' = mc_cpu (kmalloc_caches st c)" "nd_npartial (mc_node k') = int (length (L' (PartialSlab c)))"
    and pl: "set (L' (PartialSlab c)) - {PageNode p} = set (L (PartialSlab c)) - {PageNode p}"
      "PageNode p \<in> set (L' (PartialSlab c)) \<longleftrightarrow> \<not> frozen (sl_mm st) p" "frozen (sl_mm st) p \<or> Suc (length (F p)) < nobj c"
    and st': "sl_mm st' = s'" "kmalloc_caches st' = (kmalloc_caches st)(c := k')" "size_map st' = size_map st"
  shows "sinv H L' S (F(p := obj # F p)) C st'"
proof -
  note ok = sinvD(4) [OF inv c]
  let ?s = "sl_mm st" let ?q = "poke32 (olink c obj) (of_nat (pg_freelist (mempage ?s p))) ?s"
  note sp = sinvD(5) [OF inv c p, unfolded slab_page_def]
  have hi: "sbase p + 4194304 < 2 ^ 32" using slab_range(4) [OF sinvD(1,2) [OF inv]] sp by blast
  note no = in_useD(2) [OF obj(1) p] in_useD(3) [OF obj(1)]
  have fz: "frozen s' p = frozen ?s p" using m(2) by (simp add: frozen_def)
  have lc: "local p ?s s'" using m poke_local [OF c obj(2)] by (simp add: local_def)
  note lf = local_facts [OF lc]
  have fc: "fchain s' c a fl = fchain ?q c a fl" for a fl using fchain_pmem [of s' ?q] m(1) by blast
  let ?F = "F(p := obj # F p)"
  have co: "cpu_ok s' c (S c) ?F (get_cpu_slab st c j) (C c j)" if j: "j < CPUNUMS" for j
  proof (cases "cc_page (get_cpu_slab st c j) = Some p")
    case True
    have "cpu_ok ?s c (S c) F (get_cpu_slab st c j) (C c j)" using class_okD(7) [OF ok j] .
    then show ?thesis using True poke_link [OF c obj(2) _ no(2) [OF j]] no(2) [OF j] p by (auto simp: cpu_ok_def fc)
  next
    case False
    have o: "cpu_ok ?s c (S c) F (get_cpu_slab st c j) (C c j)" using class_okD(7) [OF ok j] .
    show ?thesis
    proof (rule cpu_ok_same [OF o c])
      fix q assume q: "cc_page (get_cpu_slab st c j) = Some q"
      then have "q \<in> S c" "q \<noteq> p" using o False by (auto simp: cpu_ok_def)
      then show "same_slab ?s s' q \<and> q \<in> S c \<and> ?F q = F q" using slabs_disjoint(1) [OF inv c p c, of q] lf(5) by auto
    qed
  qed
  have "sinv H L' S ?F (C(c := (C c)(cpu := C c cpu))) st'"
  proof (rule local_step [OF inv c i p lc fam])
    show "fchain s' c (pg_freelist (mempage s' p)) (obj # F p)"
      unfolding fc using fchain_push [OF c hi _ _ obj(2) no(1), of ?s "pg_freelist (mempage ?s p)"] sp m(2) by simp
    show "mc_cpu k' = (mc_cpu (kmalloc_caches st c))(cpu := get_cpu_slab st c cpu)" using k'(2) by simp
    show "(frozen s' p) = (\<exists>j<CPUNUMS. cc_page (mc_cpu k' j) = Some p)" using class_okD(4) [OF ok p] fz k'(2) by simp
    show "PageNode p \<in> set (L' (PartialSlab c)) \<longleftrightarrow> obj # F p \<noteq> [] \<and> \<not> frozen s' p" using pl(2) fz by simp
    show "\<not> frozen s' p \<longrightarrow> length (obj # F p) < nobj c" using pl(3) fz by auto
    show "cpu_ok s' c (S c) ?F (get_cpu_slab st c j) (C c j) \<and> cc_page (get_cpu_slab st c cpu) \<noteq> Some p"
      if "j < CPUNUMS" for j using co [OF that] cc by blast
  qed (use sp m(2) no(1) obj(2) L' k'(1,3) co [OF i] pl(1) st' in auto)
  then show ?thesis by simp
qed

lemma released_page:
  assumes inv: "sinv H L S F C st" and c: "c < 12" and p: "p \<in> S c" and obj: "obj \<in> objs c p"
    and s': "sinv H L' S (F(p := obj # F p)) C st'" "pmem (sl_mm st') = pmem (poke32 (olink c obj) v (sl_mm st))" "slablock st' = slablock st"
  shows "released H S F C c obj st st'"
proof -
  have "in_use S (F(p := obj # F p)) C c' = (if c' = c then in_use S F C c - {obj} else in_use S F C c')" if "c' < 12" for c'
  proof (cases "c' = c")
    case False
    then have "p \<notin> S c'" using slabs_disjoint(2) [OF inv c p that, of p] by blast
    then show ?thesis using in_use_other [OF False, of p S "S c" F "obj # F p" C "C c"] False by simp
  qed (use in_use_push_page [of p S c F obj C] p in simp)
  moreover have "peek32 (sl_mm st') a = peek32 (sl_mm st) a" if "4 dvd a" "kbase \<le> a" "a \<noteq> olink c obj" for a
    using peek_released [OF c obj s'(2) that] .
  ultimately show ?thesis using s' poke_pmem unfolding released_def by (intro conjI exI) auto
qed

lemma frozen_test: "PageSlubFrozen p st \<longleftrightarrow> frozen (sl_mm st) p"
  by (simp add: PageSlubFrozen_def frozen_def)

lemma poke_fields: "poke32 a v (s\<lparr>mempage := m\<rparr>) = (poke32 a v s)\<lparr>mempage := m\<rparr>"
  by (simp add: poke32_def Let_def)

text \<open>The common first half of \<^verbatim>\<open>_slab_free\<close>.\<close>

lemma slow_unfold:
  fixes st p obj c
  defines "g \<equiv> mempage (sl_mm st) p"
  defines "st4 \<equiv> st\<lparr>sl_mm := (poke32 (olink c obj) (of_nat (pg_freelist g)) (sl_mm st))\<lparr>mempage := (mempage (sl_mm st))(p :=
     g\<lparr>pg_slublock := 1, pg_freelist := obj, pg_inuse := pg_inuse g - 1\<rparr>)\<rparr>\<rparr>"
  assumes "c < 12" "cache_ok c (kmalloc_caches st c)" "pg_slublock g = 0"
  shows "slab_free_slow c p obj st =
    (if frozen (sl_mm st) p then Some (slab_unlock p st4)
     else if pg_inuse g - 1 = 0 then do {
       st5 \<leftarrow> (if pg_freelist g \<noteq> 0 then remove_partial c p st4 else Some st4);
       discard_slab c p (slab_unlock p st5) }
     else do {
       st5 \<leftarrow> (if pg_freelist g = 0 then do {
                  kassert (pg_inuse g - 1 = int (mc_objects (kmalloc_caches st c)) - 1);
                  add_partial c p st4 }
               else Some st4);
       Some (slab_unlock p st5) })"
  using assms(5) unfolding slab_free_slow_def st4_def g_def
  by (simp add: slab_lock_def slab_upds Let_def link_eq(2) [OF assms(3,4)] poke_fields frozen_test) (simp add: frozen_def)

lemma release_keep:
  assumes inv: "sinv H L S F C st" and c: "c < 12" and i: "cpu < CPUNUMS" and p: "p \<in> S c" and obj: "obj \<in> in_use S F C c" "obj \<in> objs c p"
    and cc: "cc_page (get_cpu_slab st c cpu) \<noteq> Some p"
    and k: "frozen (sl_mm st) p \<or> Suc (length (F p)) < nobj c"
  shows "\<exists>st'. slab_free_slow c p obj st = Some st' \<and> released H S F C c obj st st'"
proof -
  note ok = sinvD(4) [OF inv c]
  let ?k = "kmalloc_caches st c" let ?s = "sl_mm st" let ?g = "mempage (sl_mm st) p"
  note sp = sinvD(5) [OF inv c p, unfolded slab_page_def] and H = class_okD(2) [OF ok] and fam = sinv_family [OF inv]
  have ck: "cache_ok c ?k" "nd_lock (mc_node ?k) = 0" "mc_objects ?k = nobj c" using class_okD(1) [OF ok] by (simp_all add: cache_ok_def)
  have sb: "pg_slublock ?g = 0" using sp by blast
  let ?m = "(mempage ?s)(p := ?g\<lparr>pg_freelist := obj, pg_inuse := pg_inuse ?g - 1, pg_slublock := 0\<rparr>)"
  let ?q = "poke32 (olink c obj) (of_nat (pg_freelist ?g)) ?s"
  let ?st4 = "st\<lparr>sl_mm := ?q\<lparr>mempage := (mempage ?s)(p := ?g\<lparr>pg_slublock := 1, pg_freelist := obj, pg_inuse := pg_inuse ?g - 1\<rparr>)\<rparr>\<rparr>"
  have mem: "PageNode p \<in> set (L (PartialSlab c)) \<longleftrightarrow> F p \<noteq> [] \<and> \<not> frozen ?s p" unfolding class_okD(9) [OF ok] using p by auto
  have fr: "pg_freelist ?g = 0 \<longleftrightarrow> F p = []" using fchain_nil sp by blast
  show ?thesis
  proof (cases "frozen ?s p \<or> F p \<noteq> []")
    case True
    have nz: "\<not> frozen ?s p \<Longrightarrow> pg_inuse ?g - 1 \<noteq> 0" using k sp by auto
    define st' where "st' = slab_unlock p ?st4"
    have st': "slab_free_slow c p obj st = Some st'" "pmem (sl_mm st') = pmem ?q" "mempage (sl_mm st') = ?m"
      "zones (sl_mm st') = zones ?s" "max_pfn (sl_mm st') = max_pfn ?s" "lists (sl_mm st') = lists ?s"
      "kmalloc_caches st' = kmalloc_caches st" "size_map st' = size_map st" "slablock st' = slablock st"
      using True fr nz unfolding slow_unfold [OF c ck(1) sb] st'_def by (auto simp: slab_unlock_def slab_upds)
    have "sinv H L S (F(p := obj # F p)) C st'"
      by (rule release_page [OF inv c i p obj cc st'(2-5) _ refl ck(1) refl class_okD(10) [OF ok] refl _ k refl])
        (use fam mem True st'(6-8) in auto)
    from released_page [OF inv c p obj(2) this st'(2) st'(9)] show ?thesis using st'(1) by blast
  next
    case False
    then have e: "F p = []" "\<not> frozen ?s p" "pg_freelist ?g = 0" using fr by auto
    have iu: "pg_inuse ?g = int (nobj c)" and n: "1023 \<le> nobj c" using sp e class_size(4) [OF c] by auto
    let ?l = "list_add (PageNode p) (PartialSlab c) (lists ?s)" let ?L = "L(PartialSlab c := PageNode p # L (PartialSlab c))"
    let ?k' = "?k\<lparr>mc_node := mc_node ?k\<lparr>nd_npartial := nd_npartial (mc_node ?k) + 1, nd_lock := 0\<rparr>\<rparr>"
    define st' where "st' = slab_unlock p (?st4\<lparr>kmalloc_caches := (kmalloc_caches st)(c := ?k'), sl_mm := (sl_mm ?st4)\<lparr>lists := ?l\<rparr>\<rparr>)"
    have st': "slab_free_slow c p obj st = Some st'" "pmem (sl_mm st') = pmem ?q" "mempage (sl_mm st') = ?m"
      "zones (sl_mm st') = zones ?s" "max_pfn (sl_mm st') = max_pfn ?s" "lists (sl_mm st') = ?l"
      "kmalloc_caches st' = (kmalloc_caches st)(c := ?k')" "size_map st' = size_map st" "slablock st' = slablock st"
      using e n ck iu unfolding slow_unfold [OF c ck(1) sb] st'_def
      by (simp_all add: slab_unlock_def slab_upds Let_def add_partial_def node_lock_def node_unlock_def)
    have np: "\<forall>h\<in>H. PageNode p \<notin> set (L h)" using slab_unlisted [OF inv c p] mem e(1) by metis
    have fam': "family clist ?l H ?L"
      using kl.fam_add [OF fam H _ np] bcore_nodes [of UNIV H L ?s p] sinvD(1) [OF inv] by (auto simp: binv_def)
    have "sinv H ?L S (F(p := obj # F p)) C st'"
      by (rule release_page [OF inv c i p obj cc st'(2-5), where k' = ?k'])
        (use fam' mem e(2) st'(6-8) ck class_okD(10) [OF ok] k in \<open>auto simp: cache_ok_def\<close>)
    from released_page [OF inv c p obj(2) this st'(2) st'(9)] show ?thesis using st'(1) by blast
  qed
qed

section \<open>The last object of a slab\<close>

lemma in_use_drop:
  assumes inv: "sinv H L S F C st" and c: "c < 12" and p: "p \<in> S c" and obj: "obj \<in> objs c p" "obj \<notin> set (F p)"
    and n: "Suc (length (F p)) = nobj c"
  shows "in_use (S(c := S c - {p})) F C c = in_use S F C c - {obj}"
proof -
  have sp: "1024 dvd q" "set (F q) \<subseteq> objs c q" "distinct (F q)" if "q \<in> S c" for q using sinvD(5) [OF inv c that] by (auto simp: slab_page_def)
  have s: "set (obj # F p) \<subseteq> objs c p" using sp(2) [OF p] obj(1) by auto
  have k: "card (set (obj # F p)) = card (objs c p)"
    using sp(3) [OF p] obj(2) n card_objs(1) [OF c] by (simp add: distinct_card)
  have "set (obj # F p) = objs c p" by (rule card_subset_eq [OF card_objs(2) s k])
  then have e: "objs c p = insert obj (set (F p))" by simp
  have ap: "objs c q \<inter> objs c p = {}" if "q \<in> S c - {p}" for q
    using objs_slab [OF c c sp(1) sp(1) [OF p], of q] that by blast
  have u: "(\<Union>q\<in>S c. objs c q) = objs c p \<union> (\<Union>q\<in>S c - {p}. objs c q)" using UN_split [OF p] .
  have "(\<Union>q\<in>S c - {p}. objs c q) \<inter> objs c p = {}" using ap by blast
  then show ?thesis
    unfolding in_use_def slab_free_split(1) [of p S c F, OF p] fun_upd_same u using e by auto
qed

lemma release_last:
  assumes inv: "sinv H L S F C st" and c: "c < 12" and i: "cpu < CPUNUMS" and p: "p \<in> S c" and obj: "obj \<in> in_use S F C c" "obj \<in> objs c p"
    and nf: "\<not> frozen (sl_mm st) p" and n: "Suc (length (F p)) = nobj c"
  shows "\<exists>st'. slab_free_slow c p obj st = Some st' \<and> released H S F C c obj st st'"
proof -
  note ok = sinvD(4) [OF inv c]
  let ?k = "kmalloc_caches st c" let ?s = "sl_mm st" let ?g = "mempage (sl_mm st) p"
  note sp = sinvD(5) [OF inv c p, unfolded slab_page_def] and H = class_okD(2) [OF ok] and fam = sinv_family [OF inv]
  have ck: "cache_ok c ?k" "nd_lock (mc_node ?k) = 0" "mc_order ?k = 10" using class_okD(1) [OF ok] by (simp_all add: cache_ok_def SLABORDER_def)
  have sb: "pg_slublock ?g = 0" using sp by blast
  have ne: "F p \<noteq> []" "pg_freelist ?g \<noteq> 0" "pg_inuse ?g = 1" using n class_size(4) [OF c] fchain_nil [of ?s c "pg_freelist ?g" "F p"] sp by auto
  have mem: "PageNode p \<in> set (L (PartialSlab c))" unfolding class_okD(9) [OF ok] using p ne(1) nf by auto
  let ?q = "poke32 (olink c obj) (of_nat (pg_freelist ?g)) ?s" let ?l = "list_del (PageNode p) (lists ?s)"
  define s4 where "s4 = ?q\<lparr>lists := ?l, mempage := (mempage ?s)(p := ?g\<lparr>pg_freelist := obj, pg_inuse := 0, pg_slublock := 0\<rparr>)\<rparr>"
  define k' where "k' = ?k\<lparr>mc_node := mc_node ?k\<lparr>nd_npartial := nd_npartial (mc_node ?k) - 1, nd_nslub := nd_nslub (mc_node ?k) - 1, nd_lock := 0\<rparr>\<rparr>"
  define L4 where "L4 = L(PartialSlab c := remove1 (PageNode p) (L (PartialSlab c)))"
  have dist: "distinct (L (PartialSlab c))" using kl.fam_distinct [OF fam H] .
  have lc: "local p ?s s4" using poke_local [OF c obj(2)] by (simp add: local_def s4_def)
  note lf = local_facts [OF lc]
  have fam4: "family clist (lists s4) H L4" using kl.fam_del [OF fam H mem] by (simp add: s4_def L4_def)
  have L4: "\<forall>h. h \<noteq> PartialSlab c \<longrightarrow> L4 h = L h" "set (L4 (PartialSlab c)) - {PageNode p} = set (L (PartialSlab c)) - {PageNode p}"
    "PageNode p \<notin> set (L4 (PartialSlab c))" using dist by (auto simp: L4_def)
  note lb = local_binv [OF inv c p lc fam4 L4(1,2)]
  have "unlisted UNIV H L4 (block p 10)" using lb(4) L4(3) unfolding unlisted_def by blast
  then have lo: "loose UNIV H L4 ZNormal p 10 s4" using sp lf by (simp add: loose_def)
  obtain s' L' where f: "pages_free p 10 s4 = Some s'" "binv UNIV H L' s'" "same_off UNIV L4 L'" "same_shape s4 s'"
    "\<forall>z'. free_frames s' z' = (if z' = ZNormal then free_frames s4 ZNormal \<union> block p 10 else free_frames s4 z')"
    using pages_free_spec [OF lb(1,2) lo] by auto
  define st' where "st' = st\<lparr>kmalloc_caches := (kmalloc_caches st)(c := k'), sl_mm := s'\<rparr>"
  have run: "slab_free_slow c p obj st = Some st'"
    using ne nf f(1) ck unfolding slow_unfold [OF c ck(1) sb] st'_def
    by (simp add: remove_partial_def discard_slab_def node_lock_def node_unlock_def slab_unlock_def slab_upds Let_def s4_def k'_def)
  have ss: "same_slab ?s s' q \<and> p \<notin> block q 10" if q: "c' < 12" "q \<in> S c'" "c \<noteq> c' \<or> p \<noteq> q" for c' q
  proof -
    have a: "same_slab ?s s4 q" "p \<notin> block q 10" "block q 10 \<inter> block p 10 = {}"
      using lb(5) [OF q] slabs_disjoint(1) [OF inv c p q] by auto
    have "(mempage s' q)\<lparr>pg_order := 0\<rparr> = (mempage s4 q)\<lparr>pg_order := 0\<rparr>" using f(4) by (simp add: same_shape_def)
    then show ?thesis using a f(5) same_shape_sel(2,3,6) [OF f(4)] by (auto simp: same_slab_def)
  qed
  have lay: "zone_layout s'" using zone_layout_shape [OF f(4)] lb(2) by simp
  have hp: "PartialSlab x \<notin> fa_heads UNIV" for x by (auto simp: fa_heads_def)
  have off: "L' h = L4 h" if "h \<notin> fa_heads UNIV" for h using f(3) that by (simp add: same_off_def)
  have lst: "PageNode q \<in> set (L h) \<or> q = p" if "h \<in> H - fa_heads UNIV" "PageNode q \<in> set (L' h)" for h q
    using lb(3) [OF that(1)] that off [of h] by auto
  have nocpu: "cc_page (get_cpu_slab st c j) \<noteq> Some p" if "j < CPUNUMS" for j using class_okD(4) [OF ok p] nf that by blast
  have "cpu_ok s' c (S c - {p}) F (get_cpu_slab st c cpu) (C c cpu)"
  proof (rule cpu_ok_same [OF class_okD(7) [OF ok i] c])
    fix q assume q: "cc_page (get_cpu_slab st c cpu) = Some q"
    then have "q \<in> S c" "q \<noteq> p" using class_okD(7) [OF ok i] nocpu [OF i] by (auto simp: cpu_ok_def)
    then show "same_slab ?s s' q \<and> q \<in> S c - {p} \<and> F q = F q" using ss [OF c] by blast
  qed
  moreover have "Suc (length (L4 (PartialSlab c))) = length (L (PartialSlab c))"
    using length_pos_if_in_set [OF mem] mem by (simp add: L4_def length_remove1)
  then have "nd_npartial (mc_node k') = int (length (L' (PartialSlab c)))"
    using class_okD(10) [OF ok] by (simp add: k'_def off [OF hp])
  ultimately have "class_ok H L' s' k' c (S c - {p}) F ((C c)(cpu := C c cpu))"
    by (intro class_step [where p = p and L' = L' and cc' = "get_cpu_slab st c cpu" and k' = k', OF ok c i])
      (use ss [OF c] lst nocpu L4(2,3) off [OF hp] ck in \<open>auto simp: k'_def cache_ok_def\<close>)
  then have "sinv H L' (S(c := S c - {p})) F (C(c := (C c)(cpu := C c cpu))) st'"
    by (intro sinv_step [where p = p and L' = L', OF inv c f(2) lay])
      (use ss lst off [OF hp] L4(1) in \<open>auto simp: st'_def\<close>)
  moreover have "in_use (S(c := S c - {p})) F C c' = (if c' = c then in_use S F C c - {obj} else in_use S F C c')" for c'
    using in_use_drop [OF inv c p obj(2) in_useD(2) [OF obj(1) p] n] by (auto simp: in_use_def)
  moreover have pm: "pmem s' = pmem ?q" using same_shape_sel(6) [OF f(4)] by (simp add: s4_def)
  moreover have "peek32 s' a = peek32 ?s a" if "4 dvd a" "kbase \<le> a" "a \<noteq> olink c obj" for a
    using peek_released [OF c obj(2) pm that] .
  ultimately have "released H S F C c obj st st'" using poke_pmem unfolding released_def by (intro conjI exI) (auto simp: st'_def)
  then show ?thesis using run by blast
qed

lemma slab_free_spec:
  assumes inv: "sinv H L S F C st" and c: "c < 12" and i: "cpu < CPUNUMS" and p: "p \<in> S c" and obj: "obj \<in> in_use S F C c" "obj \<in> objs c p"
  shows "\<exists>st'. slab_free c cpu obj p st = Some st' \<and> released H S F C c obj st st'"
proof (cases "cc_page (get_cpu_slab st c cpu) = Some p")
  case False
  have "pg_flags (mempage (sl_mm st) p) AND pg_slab_flag \<noteq> 0" using sinvD(5) [OF inv c p] by (simp add: slab_page_def)
  then have e: "slab_free c cpu obj p st = slab_free_slow c p obj st" using False by (simp add: slab_free_def)
  consider "frozen (sl_mm st) p \<or> Suc (length (F p)) < nobj c" | "\<not> frozen (sl_mm st) p" "Suc (length (F p)) = nobj c"
    using class_okD(5) [OF sinvD(4) [OF inv c] p] by linarith
  then show ?thesis unfolding e using release_keep [OF inv c i p obj False] release_last [OF inv c i p obj] by cases blast+
qed (use release_fast [OF inv c i obj] in blast)

end
