(* ===== verification/Slab_Props.thy ===== *)
theory Slab_Props
  imports Slab_Free
begin

text \<open>
  The interface of the object allocator. \<open>heap_state st U\<close> says that the allocator is well
  formed, its lock is free and \<open>U\<close> is the set of objects in use, each with its size class.
  The locale \<open>object_heap\<close> is what a client may rely on; \<^verbatim>\<open>kmalloc\<close> and \<^verbatim>\<open>kfree\<close> are an
  instance of it, and any program of calls runs through.
\<close>

section \<open>The contract of an object allocator\<close>

datatype heap_op = Malloc nat nat | Free nat nat

primrec op_cpu :: "heap_op \<Rightarrow> nat" where
  "op_cpu (Malloc cpu n) = cpu"
| "op_cpu (Free cpu i) = cpu"

text \<open>
  A client that keeps the objects it got, with the sizes it asked for: it asks for \<open>n\<close>
  bytes or gives back its \<open>i\<close>-th object.
\<close>

fun heap_run :: "(nat \<Rightarrow> nat \<Rightarrow> 's \<Rightarrow> (nat \<times> 's) option) \<Rightarrow> (nat \<Rightarrow> nat \<Rightarrow> 's \<Rightarrow> 's option) \<Rightarrow>
    heap_op list \<Rightarrow> (nat \<times> nat) list \<Rightarrow> 's \<Rightarrow> ((nat \<times> nat) list \<times> 's) option" where
  "heap_run alloc release [] live s = Some (live, s)"
| "heap_run alloc release (Malloc cpu n # ops) live s = do {
     (r, s1) \<leftarrow> alloc cpu n s;
     heap_run alloc release ops (if r = 0 then live else live @ [(r, n)]) s1 }"
| "heap_run alloc release (Free cpu i # ops) live s =
     (if i < length live then do {
        s1 \<leftarrow> release cpu (fst (live ! i)) s;
        heap_run alloc release ops (take i live @ drop (Suc i) live) s1 }
      else heap_run alloc release ops live s)"

definition heap_state :: "slst \<Rightarrow> (nat \<times> nat) set \<Rightarrow> bool" where
  "heap_state st U \<longleftrightarrow> slablock st = 0 \<and> (\<exists>H L S F C. sinv H L S F C st \<and> U = (SIGMA c:{..<12}. in_use S F C c))"

locale object_heap =
  fixes hs :: "'s \<Rightarrow> (nat \<times> nat) set \<Rightarrow> bool" and alloc :: "nat \<Rightarrow> nat \<Rightarrow> 's \<Rightarrow> (nat \<times> 's) option"
    and release :: "nat \<Rightarrow> nat \<Rightarrow> 's \<Rightarrow> 's option" and cap :: "nat \<Rightarrow> nat" and ncpu :: nat
  assumes alloc_ok: "hs s U \<Longrightarrow> cpu < ncpu \<Longrightarrow> \<exists>r s'. alloc cpu n s = Some (r, s') \<and>
      (r = 0 \<and> hs s' U \<or> r \<noteq> 0 \<and> (\<exists>c. n \<le> cap c \<and> (c, r) \<notin> U \<and> hs s' (insert (c, r) U)))"
    and release_ok: "hs s U \<Longrightarrow> cpu < ncpu \<Longrightarrow> (c, r) \<in> U \<Longrightarrow> \<exists>s'. release cpu r s = Some s' \<and> hs s' (U - {(c, r)})"
    and apart: "hs s U \<Longrightarrow> x \<in> U \<Longrightarrow> y \<in> U \<Longrightarrow> x \<noteq> y \<Longrightarrow> {snd x..<snd x + cap (fst x)} \<inter> {snd y..<snd y + cap (fst y)} = {}"
begin

definition tracks :: "(nat \<times> nat) list \<Rightarrow> 's \<Rightarrow> bool" where
  "tracks live s \<longleftrightarrow> (\<exists>cs. hs s (set (zip cs (map fst live))) \<and> length cs = length live \<and>
     distinct (zip cs (map fst live)) \<and> (\<forall>i<length live. snd (live ! i) \<le> cap (cs ! i)))"

lemma tracks_apart:
  assumes t: "tracks live s" and ij: "i < length live" "j < length live" "i \<noteq> j" and l: "live ! i = (a, n)" "live ! j = (b, m)"
  shows "{a..<a + n} \<inter> {b..<b + m} = {}"
proof -
  obtain cs where cs: "hs s (set (zip cs (map fst live)))" "length cs = length live" "distinct (zip cs (map fst live))"
    "\<forall>i<length live. snd (live ! i) \<le> cap (cs ! i)" using t by (auto simp: tracks_def)
  let ?z = "zip cs (map fst live)"
  have m: "?z ! i \<in> set ?z" "?z ! j \<in> set ?z" using ij cs(2) by (intro nth_mem; simp)+
  have z: "?z ! i = (cs ! i, a)" "?z ! j = (cs ! j, b)" "?z ! i \<noteq> ?z ! j"
    using ij l cs(2) nth_eq_iff_index_eq [OF cs(3), of i j] by simp_all
  have "n \<le> cap (cs ! i)" "m \<le> cap (cs ! j)" using cs(4) ij l by force+
  then show ?thesis using apart [OF cs(1) m z(3)] z(1,2) by (auto simp: disjoint_iff)
qed

lemma tracks_alloc:
  assumes t: "tracks live s" and i: "cpu < ncpu"
  shows "\<exists>r s'. alloc cpu n s = Some (r, s') \<and> tracks (if r = 0 then live else live @ [(r, n)]) s'"
proof -
  obtain cs where cs: "hs s (set (zip cs (map fst live)))" "length cs = length live" "distinct (zip cs (map fst live))"
    "\<forall>i<length live. snd (live ! i) \<le> cap (cs ! i)" using t by (auto simp: tracks_def)
  obtain r s' where r: "alloc cpu n s = Some (r, s')" "r = 0 \<and> hs s' (set (zip cs (map fst live))) \<or>
      r \<noteq> 0 \<and> (\<exists>c. n \<le> cap c \<and> (c, r) \<notin> set (zip cs (map fst live)) \<and> hs s' (insert (c, r) (set (zip cs (map fst live)))))"
    using alloc_ok [OF cs(1) i] by blast
  from r(2) show ?thesis
  proof (elim disjE conjE exE)
    fix c assume c: "r \<noteq> 0" "n \<le> cap c" "(c, r) \<notin> set (zip cs (map fst live))" "hs s' (insert (c, r) (set (zip cs (map fst live))))"
    have "zip (cs @ [c]) (map fst (live @ [(r, n)])) = zip cs (map fst live) @ [(c, r)]" using cs(2) by simp
    then have "tracks (live @ [(r, n)]) s'"
      unfolding tracks_def using cs c by (intro exI [of _ "cs @ [c]"]) (auto simp: nth_append less_Suc_eq)
    then show ?thesis using r(1) c(1) by auto
  qed (use r(1) cs in \<open>auto simp: tracks_def\<close>)
qed

lemma tracks_release:
  assumes t: "tracks live s" and i: "cpu < ncpu" and k: "k < length live"
  shows "\<exists>s'. release cpu (fst (live ! k)) s = Some s' \<and> tracks (take k live @ drop (Suc k) live) s'"
proof -
  obtain cs where cs: "hs s (set (zip cs (map fst live)))" "length cs = length live" "distinct (zip cs (map fst live))"
    "\<forall>i<length live. snd (live ! i) \<le> cap (cs ! i)" using t by (auto simp: tracks_def)
  let ?z = "zip cs (map fst live)" let ?cs = "take k cs @ drop (Suc k) cs" let ?l = "take k live @ drop (Suc k) live"
  have "?z ! k \<in> set ?z" using k cs(2) by (intro nth_mem) simp
  then have z: "?z ! k = (cs ! k, fst (live ! k))" "?z ! k \<in> set ?z" using k cs(2) by simp_all
  have e: "zip ?cs (map fst ?l) = take k ?z @ drop (Suc k) ?z"
    using cs(2) k by (simp add: take_zip drop_zip take_map drop_map)
  have sp: "?z = take k ?z @ ?z ! k # drop (Suc k) ?z" using k cs(2) by (intro id_take_nth_drop) simp
  have "distinct (take k ?z @ ?z ! k # drop (Suc k) ?z)" "set ?z = set (take k ?z @ ?z ! k # drop (Suc k) ?z)" using sp cs(3) by metis+
  then have d: "distinct (zip ?cs (map fst ?l))" "set (zip ?cs (map fst ?l)) = set ?z - {?z ! k}" unfolding e by auto
  obtain s' where s': "release cpu (fst (live ! k)) s = Some s'" "hs s' (set ?z - {?z ! k})"
    using release_ok [OF cs(1) i] z by metis
  have "snd (?l ! j) \<le> cap (?cs ! j)" if "j < length ?l" for j
    using that cs(2,4) k by (auto simp: nth_append)
  then have "tracks ?l s'" unfolding tracks_def using d s'(2) cs(2) k by (intro exI [of _ ?cs]) auto
  then show ?thesis using s'(1) by blast
qed

text \<open>Every program of calls runs to its end and holds disjoint objects.\<close>

lemma heap_run_ok:
  assumes "tracks live s" "\<forall>x\<in>set ops. op_cpu x < ncpu"
  shows "\<exists>live' s'. heap_run alloc release ops live s = Some (live', s') \<and> tracks live' s'"
  using assms
proof (induction ops arbitrary: live s)
  case (Cons x ops)
  show ?case
  proof (cases x)
    case (Malloc cpu n)
    then obtain r s1 where "alloc cpu n s = Some (r, s1)" "tracks (if r = 0 then live else live @ [(r, n)]) s1"
      using tracks_alloc [OF Cons.prems(1)] Cons.prems(2) by fastforce
    then show ?thesis using Cons.IH [of "if r = 0 then live else live @ [(r, n)]" s1] Cons.prems(2) Malloc by simp
  next
    case (Free cpu k)
    then show ?thesis using Cons.IH tracks_release [OF Cons.prems(1), of cpu k] Cons.prems by (cases "k < length live") fastforce+
  qed
qed simp

end

section \<open>The state after \<^verbatim>\<open>slab_init\<close>\<close>

lemma size_map_fill_nth: "size_map_fill j i m n = (if n \<le> i then j else m n)"
  by (induction i arbitrary: m) (auto simp: le_Suc_eq)

lemma size_map_classes_nth:
  "(\<exists>j<k. n \<le> cache_size j) \<Longrightarrow> (let c = size_map_classes k m n in c < k \<and> n \<le> cache_size c \<and> (\<forall>j<c. cache_size j < n))"
  "\<not> (\<exists>j<k. n \<le> cache_size j) \<Longrightarrow> size_map_classes k m n = m n"
proof (induction k arbitrary: m)
  case (Suc k)
  {
    case 1
    show ?case
    proof (cases "\<exists>j<k. n \<le> cache_size j")
      case True
      then show ?thesis using Suc.IH(1) [OF True, of "size_map_fill k (cache_size k) m"] by (auto simp: Let_def)
    next
      case False
      then show ?thesis using Suc.IH(2) [OF False] 1 by (auto simp: Let_def size_map_fill_nth less_Suc_eq)
    qed
  next
    case 2
    then have "\<not> (\<exists>j<k. n \<le> cache_size j)" "\<not> n \<le> cache_size k" by auto
    then show ?case using Suc.IH(2) by (simp add: size_map_fill_nth)
  }
qed simp_all

lemma size_map_init_ok: "size_map_ok (size_map (size_map_init st))"
proof -
  have "\<exists>j<12. n \<le> cache_size j" if "n \<le> 4096" for n
    using that by (intro exI [of _ 11]) (simp add: cache_sizes_def)
  then show ?thesis
    using size_map_classes_nth(1) [of 12] by (auto simp: size_map_ok_def size_map_init_def NCACHES_def PAGE_SHIFT_def Let_def)
qed

lemma binv_head:
  assumes b: "binv UNIV H L s" and h: "h \<notin> H" "\<forall>q\<in>H. h \<notin> set (L q)" "\<forall>p. h \<noteq> PageNode p"
  shows "binv UNIV (insert h H) (L(h := [])) (upd_lists (INIT_LIST_HEAD h) s)"
proof -
  have core: "bcore UNIV H L s" using b by (simp add: binv_def)
  have e: "mempage (upd_lists g s) = mempage s" "zones (upd_lists g s) = zones s" "max_pfn (upd_lists g s) = max_pfn s" for g
    by (simp_all add: upd_lists_def)
  have k: "in_zone (upd_lists g s) = in_zone s" "blk_ok (upd_lists g s) = blk_ok s" "clean (upd_lists g s) = clean s" for g
    by (simp_all add: fun_eq_iff in_zone_def blk_ok_def clean_def e)
  have f: "free_head (upd_lists g s) = free_head s" for g by (simp add: fun_eq_iff free_head_def k e)
  have ff: "free_frames (upd_lists g s) = free_frames s" for g by (simp add: fun_eq_iff free_frames_def f)
  have zo: "zones_ok UNIV (upd_lists g s) = zones_ok UNIV s" "coalesced (upd_lists g s) = coalesced s" for g
    by (simp_all add: fun_eq_iff zones_ok_def coalesced_def k f e)
  have "family clist (lists (upd_lists (INIT_LIST_HEAD h) s)) (insert h H) (L(h := []))"
    using kl.fam_init [of "lists s" H L h] core h(1,2) by (simp add: bcore_def upd_lists_def)
  moreover have "h \<notin> fa_heads UNIV" using h(1) core by (auto simp: bcore_def)
  then have "FreeArea z j \<noteq> h" if "j < MAXORDER" for z j using that by (auto simp: fa_heads_def)
  moreover have "unlisted UNIV (insert h H) (L(h := [])) (free_frames s z)" for z
    using core h(1) by (auto simp: bcore_def unlisted_def)
  ultimately have "bcore UNIV (insert h H) (L(h := [])) (upd_lists (INIT_LIST_HEAD h) s)"
    using core h(3) unfolding bcore_def zo e k f ff by auto
  then show ?thesis using b unfolding binv_def zo ff e by simp
qed

definition slab_heads :: "nat \<Rightarrow> mnode set" where
  "slab_heads i = fa_heads UNIV \<union> FullSlab ` {..<i} \<union> PartialSlab ` {..<i} \<union> CacheNode ` {..<i}"

definition boot_lists :: "mnode set \<Rightarrow> (mnode \<Rightarrow> mnode list) \<Rightarrow> mmst \<Rightarrow> bool" where
  "boot_lists H L s \<longleftrightarrow> binv UNIV H L s \<and> (\<forall>h\<in>H - fa_heads UNIV. L h = [])"

lemma boot_lists_head:
  assumes b: "boot_lists H L s" and h: "h \<notin> H" "\<forall>p. h \<noteq> PageNode p"
  shows "boot_lists (insert h H) (L(h := [])) (upd_lists (INIT_LIST_HEAD h) s)"
proof -
  have core: "bcore UNIV H L s" using b by (simp add: boot_lists_def binv_def)
  have "h \<notin> set (L q)" if q: "q \<in> H" for q
  proof (cases "q \<in> fa_heads UNIV")
    case True
    then obtain z k where "q = FreeArea z k" "k < MAXORDER" by (auto simp: fa_heads_def)
    then show ?thesis using bcore_list [OF core UNIV_I, of k z] h(2) by auto
  qed (use b q in \<open>simp add: boot_lists_def\<close>)
  then show ?thesis using binv_head [of H L s h] b h by (auto simp: boot_lists_def)
qed

definition fresh_cache :: "nat \<Rightarrow> mem_cache \<Rightarrow> bool" where
  "fresh_cache c k \<longleftrightarrow> cache_ok c k \<and> nd_npartial (mc_node k) = 0 \<and>
     (\<forall>i<CPUNUMS. cc_page (mc_cpu k i) = None \<and> cc_freelist (mc_cpu k i) = 0)"

lemma init_one:
  assumes c: "c < 12" and b: "boot_lists (slab_heads c) L (sl_mm st)"
  defines "st' \<equiv> kmem_cache_init_one c st"
  shows "\<exists>L'. boot_lists (slab_heads (Suc c)) L' (sl_mm st')" "fresh_cache c (kmalloc_caches st' c)"
    "\<forall>c'. c' \<noteq> c \<longrightarrow> kmalloc_caches st' c' = kmalloc_caches st c'" "size_map st' = size_map st" "slablock st' = slablock st"
    "(sl_mm st')\<lparr>lists := lists (sl_mm st)\<rparr> = sl_mm st"
proof -
  let ?u = "\<lambda>h. upd_lists (INIT_LIST_HEAD h)"
  have e: "sl_mm st' = ?u (CacheNode c) (?u (PartialSlab c) (?u (FullSlab c) (sl_mm st)))"
    by (simp add: st'_def kmem_cache_init_one_def node_cache_init_def percpu_cache_init_def upd_mm_def upd_cache_def upd_node_def Let_def)
  show "(sl_mm st')\<lparr>lists := lists (sl_mm st)\<rparr> = sl_mm st" unfolding e by (simp add: upd_lists_def)
  have n: "FullSlab c \<notin> slab_heads c" "PartialSlab c \<notin> insert (FullSlab c) (slab_heads c)"
    "CacheNode c \<notin> insert (PartialSlab c) (insert (FullSlab c) (slab_heads c))" by (auto simp: slab_heads_def fa_heads_def)
  have s: "slab_heads (Suc c) = insert (CacheNode c) (insert (PartialSlab c) (insert (FullSlab c) (slab_heads c)))"
    by (auto simp: slab_heads_def less_Suc_eq)
  show "\<exists>L'. boot_lists (slab_heads (Suc c)) L' (sl_mm st')"
    unfolding e s using boot_lists_head [OF boot_lists_head [OF boot_lists_head [OF b n(1)] n(2)] n(3)] by auto
  have "unat (ROUNDUP (of_nat (cache_size c)) 4) = cache_size c"
    using class_cases [OF c] by (elim insertE emptyE; simp add: cache_sizes_def ROUNDUP_def ROUNDDOWN_def)
  then show "fresh_cache c (kmalloc_caches st' c)"
    by (simp add: fresh_cache_def cache_ok_def st'_def kmem_cache_init_one_def node_cache_init_def percpu_cache_init_def
        upd_mm_def upd_cache_def upd_node_def Let_def SPIN_LOCK_INIT_def PAGE_SIZE_def PAGE_SHIFT_def SLABORDER_def)
qed (simp_all add: st'_def kmem_cache_init_one_def node_cache_init_def percpu_cache_init_def upd_mm_def upd_cache_def upd_node_def Let_def)

lemma init_upto:
  assumes "i \<le> 12" "boot_lists (slab_heads 0) L (sl_mm st)"
  shows "\<exists>L'. boot_lists (slab_heads i) L' (sl_mm (kmem_cache_init_upto i st)) \<and>
    (\<forall>c<i. fresh_cache c (kmalloc_caches (kmem_cache_init_upto i st) c)) \<and>
    size_map (kmem_cache_init_upto i st) = size_map st \<and> slablock (kmem_cache_init_upto i st) = slablock st \<and>
    (sl_mm (kmem_cache_init_upto i st))\<lparr>lists := lists (sl_mm st)\<rparr> = sl_mm st"
  using assms(1)
proof (induction i)
  case (Suc i)
  let ?st = "kmem_cache_init_upto i st"
  obtain L1 where L1: "boot_lists (slab_heads i) L1 (sl_mm ?st)" "\<forall>c<i. fresh_cache c (kmalloc_caches ?st c)"
    "size_map ?st = size_map st" "slablock ?st = slablock st" "(sl_mm ?st)\<lparr>lists := lists (sl_mm st)\<rparr> = sl_mm st"
    using Suc by auto
  have i: "i < 12" using Suc.prems by simp
  note o = init_one [OF i L1(1)]
  have "(sl_mm (kmem_cache_init_one i ?st))\<lparr>lists := lists (sl_mm st)\<rparr> = sl_mm st"
    using arg_cong [OF o(6), of "\<lambda>s. s\<lparr>lists := lists (sl_mm st)\<rparr>"] L1(5) by simp
  moreover have "fresh_cache c (kmalloc_caches (kmem_cache_init_one i ?st) c)" if "c < Suc i" for c
    using o(2,3) L1(2) that by (cases "c = i") auto
  ultimately show ?case using o(1,4,5) L1(3,4) by (auto simp del: o_apply)
qed (use assms(2) in auto)

lemma slab_init_spec:
  assumes b: "binv UNIV (fa_heads UNIV) L (sl_mm st)" "zone_layout (sl_mm st)"
  shows "\<exists>L'. sinv (slab_heads 12) L' (\<lambda>_. {}) (\<lambda>_. []) (\<lambda>_ _. []) (slab_init st)"
    "slablock (slab_init st) = slablock st" "(sl_mm (slab_init st))\<lparr>lists := lists (sl_mm st)\<rparr> = sl_mm st"
proof -
  let ?st = "size_map_init st"
  have e: "sl_mm ?st = sl_mm st" "slablock ?st = slablock st" by (simp_all add: size_map_init_def)
  have "boot_lists (slab_heads 0) L (sl_mm ?st)" using b by (simp add: boot_lists_def slab_heads_def e)
  from init_upto [OF order.refl this] obtain L' where L': "boot_lists (slab_heads 12) L' (sl_mm (slab_init st))"
    "\<forall>c<12. fresh_cache c (kmalloc_caches (slab_init st) c)" "size_map (slab_init st) = size_map ?st"
    "slablock (slab_init st) = slablock st" "(sl_mm (slab_init st))\<lparr>lists := lists (sl_mm st)\<rparr> = sl_mm st"
    unfolding slab_init_def kmem_cache_init_def NCACHES_def PAGE_SHIFT_def e by auto
  show "slablock (slab_init st) = slablock st" "(sl_mm (slab_init st))\<lparr>lists := lists (sl_mm st)\<rparr> = sl_mm st" using L' by simp_all
  have "zones (sl_mm (slab_init st)) = zones (sl_mm st)" using arg_cong [OF L'(5), of zones] by simp
  then have "zone_layout (sl_mm (slab_init st))" using b(2) by (simp add: zone_layout_def in_zone_def)
  moreover have "class_ok (slab_heads 12) L' (sl_mm (slab_init st)) (kmalloc_caches (slab_init st) c) c {} (\<lambda>_. []) (\<lambda>_. [])"
    if c: "c < 12" for c
  proof -
    have "PartialSlab c \<in> slab_heads 12 - fa_heads UNIV" using c by (auto simp: slab_heads_def fa_heads_def)
    then show ?thesis using L'(1,2) c by (auto simp: class_ok_def fresh_cache_def boot_lists_def cpu_ok_def)
  qed
  ultimately show "\<exists>L'. sinv (slab_heads 12) L' (\<lambda>_. {}) (\<lambda>_. []) (\<lambda>_ _. []) (slab_init st)"
    using L'(1,3) size_map_init_ok by (auto simp: sinv_def boot_lists_def)
qed

section \<open>\<^verbatim>\<open>kmalloc\<close> and \<^verbatim>\<open>kfree\<close>\<close>

lemma sinv_lock [simp]: "sinv H L S F C (st\<lparr>slablock := x\<rparr>) = sinv H L S F C st"
  by (simp add: sinv_def)

lemma heap_stateI: "sinv H L S F C st \<Longrightarrow> slablock st = 0 \<Longrightarrow> heap_state st (SIGMA c:{..<12}. in_use S F C c)"
  unfolding heap_state_def by blast

lemma slab_init_heap:
  assumes "binv UNIV (fa_heads UNIV) L (sl_mm st)" "zone_layout (sl_mm st)" "slablock st = 0"
  shows "heap_state (slab_init st) {}"
proof -
  obtain L' where "sinv (slab_heads 12) L' (\<lambda>_. {}) (\<lambda>_. []) (\<lambda>_ _. []) (slab_init st)" using slab_init_spec(1) [OF assms(1,2)] by blast
  from heap_stateI [OF this] show ?thesis using slab_init_spec(2) [OF assms(1,2)] assms(3) by (simp add: in_use_def)
qed

lemma allocated_lock:
  "allocated H S F C c (st\<lparr>slablock := x\<rparr>) r st' \<Longrightarrow>
   slablock st' = x \<and> ((\<exists>L' S' F' C'. sinv H L' S' F' C' (st'\<lparr>slablock := 0\<rparr>) \<and> (\<forall>c'<12. c' \<noteq> c \<longrightarrow> in_use S' F' C' c' = in_use S F C c') \<and>
       (r = 0 \<and> in_use S' F' C' c = in_use S F C c \<and> (\<forall>p j. 10 \<le> j \<longrightarrow> \<not> free_head (sl_mm st) ZNormal p j) \<or>
        r \<noteq> 0 \<and> r \<notin> in_use S F C c \<and> in_use S' F' C' c = insert r (in_use S F C c))) \<and>
     (\<forall>q. q \<notin> free_frames (sl_mm st) ZNormal \<longrightarrow> pmem (sl_mm st') q = pmem (sl_mm st) q))"
  by (simp add: allocated_def)

lemma heap_objects:
  assumes "sinv H L S F C st" "(c, a) \<in> (SIGMA c:{..<12}. in_use S F C c)"
  shows "\<exists>p\<in>S c. a \<in> objs c p \<and> slab_page (sl_mm st) c p (F p)" "c < 12"
  using assms sinvD(5) [OF assms(1)] in_useD(1) [of a S F C c] by auto

lemma objects_apart:
  assumes inv: "sinv H L S F C st" and x: "(c, a) \<in> (SIGMA c:{..<12}. in_use S F C c)" and y: "(d, b) \<in> (SIGMA c:{..<12}. in_use S F C c)"
    and ne: "(c, a) \<noteq> (d, b)" and ij: "i < osize c" "j < osize d"
  shows "a + i \<noteq> b + j"
proof -
  obtain p where p: "p \<in> S c" "a \<in> objs c p" "slab_page (sl_mm st) c p (F p)" and c: "c < 12" using heap_objects [OF inv x] by blast
  obtain q where q: "q \<in> S d" "b \<in> objs d q" "slab_page (sl_mm st) d q (F q)" and d: "d < 12" using heap_objects [OF inv y] by blast
  show ?thesis
  proof (cases "p = q")
    case True
    then have "c = d" using p(3) q(3) by (simp add: slab_page_def)
    then show ?thesis using objs_apart [OF c p(2), of b i j] q(2) ne ij True by auto
  next
    case False
    then have "block p 10 \<inter> block q 10 = {}" using slabs_apart p(3) q(3) by (simp add: slab_page_def)
    then show ?thesis using obj_frame [OF c p(2) ij(1)] obj_frame [OF d q(2) ij(2)] by auto
  qed
qed

lemma object_frames:
  assumes inv: "sinv H L S F C st" and x: "(c, a) \<in> (SIGMA c:{..<12}. in_use S F C c)" and i: "i < osize c"
  shows "aframe (a + i) \<notin> free_frames (sl_mm st) ZNormal" "kbase \<le> a" "a + osize c < 2 ^ 32" "a \<noteq> 0"
proof -
  obtain p where p: "p \<in> S c" "a \<in> objs c p" "slab_page (sl_mm st) c p (F p)" and c: "c < 12" using heap_objects [OF inv x] by blast
  have "sbase p + 4194304 < 2 ^ 32" using slab_range(4) [OF sinvD(1,2) [OF inv]] p(3) by (simp add: slab_page_def)
  then show "kbase \<le> a" "a + osize c < 2 ^ 32" "a \<noteq> 0" using obj_bounds [OF c p(2)] by simp_all
  show "aframe (a + i) \<notin> free_frames (sl_mm st) ZNormal" using obj_frame [OF c p(2) i] p(3) by (auto simp: slab_page_def)
qed

text \<open>The words of the objects in \<open>U\<close>.\<close>

definition keeps_words :: "(nat \<times> nat) set \<Rightarrow> slst \<Rightarrow> slst \<Rightarrow> bool" where
  "keeps_words U st st' \<longleftrightarrow> (\<forall>(c, a)\<in>U. \<forall>i<cache_size c. 4 dvd i \<longrightarrow> peek32 (sl_mm st') (a + i) = peek32 (sl_mm st) (a + i))"

lemma kmalloc_spec:
  assumes hs: "heap_state st U" and i: "cpu < CPUNUMS" and n: "0 < n" "n \<le> 4096"
  shows "\<exists>r st' c. kmalloc cpu n st = Some (r, st') \<and> c < 12 \<and> n \<le> cache_size c \<and> (\<forall>j<c. cache_size j < n) \<and> keeps_words U st st' \<and>
    (r = 0 \<and> heap_state st' U \<and> (\<forall>p j. 10 \<le> j \<longrightarrow> \<not> free_head (sl_mm st) ZNormal p j) \<or>
     r \<noteq> 0 \<and> (c, r) \<notin> U \<and> heap_state st' (insert (c, r) U))"
proof -
  obtain H L S F C where inv: "sinv H L S F C st" "slablock st = 0" and U: "U = (SIGMA c:{..<12}. in_use S F C c)"
    using hs by (auto simp: heap_state_def)
  define c where "c = size_map st n"
  have c: "c < 12" "n \<le> cache_size c" "\<forall>j<c. cache_size j < n"
    using sinvD(3) [OF inv(1)] n by (auto simp: size_map_ok_def c_def)
  have "sinv H L S F C (st\<lparr>slablock := 1\<rparr>)" using inv(1) by simp
  from slab_alloc_spec [OF this c(1) i] obtain r st1 where a: "slab_alloc c cpu (st\<lparr>slablock := 1\<rparr>) = Some (r, st1)"
    "allocated H S F C c (st\<lparr>slablock := 1\<rparr>) r st1" by blast
  note al = allocated_lock [OF a(2)]
  define st' where "st' = st1\<lparr>slablock := 0\<rparr>"
  have run: "kmalloc cpu n st = Some (r, st')"
    using n inv(2) a(1) al by (simp add: kmalloc_def PAGE_SIZE_def PAGE_SHIFT_def slab_spin_lock_def slab_spin_unlock_def c_def st'_def)
  obtain L' S' F' C' where s': "sinv H L' S' F' C' st'" "\<forall>c'<12. c' \<noteq> c \<longrightarrow> in_use S' F' C' c' = in_use S F C c'"
    "r = 0 \<and> in_use S' F' C' c = in_use S F C c \<and> (\<forall>p j. 10 \<le> j \<longrightarrow> \<not> free_head (sl_mm st) ZNormal p j) \<or>
     r \<noteq> 0 \<and> r \<notin> in_use S F C c \<and> in_use S' F' C' c = insert r (in_use S F C c)"
    using al unfolding st'_def by blast
  have pm: "\<forall>q. q \<notin> free_frames (sl_mm st) ZNormal \<longrightarrow> pmem (sl_mm st') q = pmem (sl_mm st) q" using al by (simp add: st'_def)
  have "keeps_words U st st'"
    unfolding keeps_words_def U using object_frames(1) [OF inv(1)] pm by (intro ballI) (auto intro!: peek_cong)
  moreover have h: "heap_state st' (SIGMA c:{..<12}. in_use S' F' C' c)" using heap_stateI [OF s'(1)] by (simp add: st'_def)
  have "(SIGMA c:{..<12}. in_use S' F' C' c) = (if r = 0 then U else insert (c, r) U)"
    using s'(2,3) c(1) unfolding U by (auto split: if_splits)
  then have "r = 0 \<and> heap_state st' U \<and> (\<forall>p j. 10 \<le> j \<longrightarrow> \<not> free_head (sl_mm st) ZNormal p j) \<or>
     r \<noteq> 0 \<and> (c, r) \<notin> U \<and> heap_state st' (insert (c, r) U)"
    using s'(3) h U by auto
  ultimately show ?thesis using run c by blast
qed

lemma kmalloc_refused: "n = 0 \<or> 4096 < n \<Longrightarrow> kmalloc cpu n st = Some (0, st)"
  by (auto simp: kmalloc_def PAGE_SIZE_def PAGE_SHIFT_def)

lemma get_slab_spec:
  assumes inv: "sinv H L S F C st" and c: "c < 12" and p: "p \<in> S c" "obj \<in> objs c p"
  shows "get_slab obj st = Some p"
proof -
  note sp = sinvD(5) [OF inv c p(1), unfolded slab_page_def]
  obtain m where m: "p = 1024 * m" using sp by (auto elim!: dvdE)
  define j where "j = obj - sbase p"
  have j: "obj = sbase p + j" "j < 4194304" using obj_bounds(1,2) [OF c p(2)] class_size(2) [OF c] by (simp_all add: j_def)
  have "sbase p = 4194304 * (m + 768)" unfolding m by (simp add: KERNEL_BASE_ADDR_def)
  then have o: "obj = j + 4194304 * (m + 768)" using j(1) by simp
  have "obj mod 4194304 = j" unfolding o mod_mult_self2 using j(2) by (rule mod_less)
  then have "obj - obj mod 4194304 = p * 4096 + kbase" using j by simp
  moreover have "p < max_pfn (sl_mm st)" using slab_range(2) [OF sinvD(1,2) [OF inv]] sp by blast
  ultimately show ?thesis
    by (simp add: get_slab_def PAGE_SIZE_def PAGE_SHIFT_def SLABORDER_def virt2page_def v2p_def pfn2page_def)
qed

lemma kfree_spec:
  assumes hs: "heap_state st U" and i: "cpu < CPUNUMS" and obj: "(c, obj) \<in> U"
  shows "\<exists>st'. kfree cpu obj st = Some st' \<and> heap_state st' (U - {(c, obj)}) \<and> keeps_words U st st'"
proof -
  obtain H L S F C where inv: "sinv H L S F C st" "slablock st = 0" and U: "U = (SIGMA c:{..<12}. in_use S F C c)"
    using hs by (auto simp: heap_state_def)
  have iu: "obj \<in> in_use S F C c" using obj U by auto
  obtain p where p: "p \<in> S c" "obj \<in> objs c p" and c: "c < 12" using heap_objects [OF inv(1) obj [unfolded U]] by blast
  have inv1: "sinv H L S F C (st\<lparr>slablock := 1\<rparr>)" using inv(1) by simp
  obtain st1 where st1: "slab_free c cpu obj p (st\<lparr>slablock := 1\<rparr>) = Some st1" "released H S F C c obj (st\<lparr>slablock := 1\<rparr>) st1"
    using slab_free_spec [OF inv1 c i p(1) iu p(2)] by blast
  define st' where "st' = st1\<lparr>slablock := 0\<rparr>"
  have "pg_slab (mempage (sl_mm st) p) = Some c" using sinvD(5) [OF inv(1) c p(1)] by (simp add: slab_page_def)
  moreover have "slablock st1 = 1" using st1(2) by (simp add: released_def)
  ultimately have run: "kfree cpu obj st = Some st'"
    using get_slab_spec [OF inv(1) c p] st1(1) inv(2) obj_bounds(4) [OF c p(2)]
    by (simp add: kfree_def slab_spin_lock_def slab_spin_unlock_def st'_def)
  obtain L' S' F' C' where s': "sinv H L' S' F' C' st'"
    "\<forall>c'<12. in_use S' F' C' c' = (if c' = c then in_use S F C c - {obj} else in_use S F C c')"
    using st1(2) by (auto simp: released_def st'_def)
  have "(SIGMA c:{..<12}. in_use S' F' C' c) = U - {(c, obj)}" unfolding U using s'(2) by (auto split: if_splits)
  then have h: "heap_state st' (U - {(c, obj)})" using heap_stateI [OF s'(1)] by (simp add: st'_def)
  have "peek32 (sl_mm st') (a + j) = peek32 (sl_mm st) (a + j)" if a: "(d, a) \<in> U" and j: "j < cache_size d" "4 dvd j" for d a j
  proof -
    obtain q where q: "a \<in> objs d q" and d: "d < 12" using heap_objects [OF inv(1) a [unfolded U]] by blast
    have "4 dvd a + j" "kbase \<le> a + j" using obj_bounds(3,5) [OF d q] j(2) by (simp_all add: trans_le_add1)
    moreover have "a + j \<noteq> olink c obj"
      using objects_apart [OF inv(1) a [unfolded U] obj [unfolded U], of j "cache_size c"] j(1) by (cases "(d, a) = (c, obj)") auto
    ultimately show ?thesis using st1(2) by (simp add: released_def st'_def)
  qed
  then have "keeps_words U st st'" by (auto simp: keeps_words_def)
  then show ?thesis using run h by blast
qed

interpretation kheap: object_heap heap_state kmalloc kfree cache_size CPUNUMS
proof unfold_locales
  show "\<exists>r s'. kmalloc cpu n s = Some (r, s') \<and>
      (r = 0 \<and> heap_state s' U \<or> r \<noteq> 0 \<and> (\<exists>c. n \<le> cache_size c \<and> (c, r) \<notin> U \<and> heap_state s' (insert (c, r) U)))"
    if "heap_state s U" "cpu < CPUNUMS" for s U cpu n
  proof (cases "n = 0 \<or> 4096 < n")
    case False
    then show ?thesis using kmalloc_spec [OF that, of n] by fastforce
  qed (use that kmalloc_refused in simp)
  show "\<exists>s'. kfree cpu r s = Some s' \<and> heap_state s' (U - {(c, r)})" if "heap_state s U" "cpu < CPUNUMS" "(c, r) \<in> U" for s U cpu c r
    using kfree_spec [OF that] by blast
  show "{snd x..<snd x + cache_size (fst x)} \<inter> {snd y..<snd y + cache_size (fst y)} = {}"
    if h: "heap_state s U" and xy: "x \<in> U" "y \<in> U" "x \<noteq> y" for s U x y
  proof -
    obtain H L S F C where inv: "sinv H L S F C s" and U: "U = (SIGMA c:{..<12}. in_use S F C c)"
      using h unfolding heap_state_def by blast
    have False if a: "a \<in> {snd x..<snd x + cache_size (fst x)}" "a \<in> {snd y..<snd y + cache_size (fst y)}" for a
    proof -
      have "a - snd x < osize (fst x)" "a - snd y < osize (fst y)" "snd x + (a - snd x) = snd y + (a - snd y)" using a by (simp_all, linarith+)
      then show ?thesis using objects_apart [OF inv, of "fst x" "snd x" "fst y" "snd y" "a - snd x" "a - snd y"] xy unfolding U by (simp add: prod_eq_iff)
    qed
    then show ?thesis by blast
  qed
qed

section \<open>Properties\<close>

text \<open>
  C23. On a well-formed object allocator \<^verbatim>\<open>kmalloc\<close> always returns, whatever mix of current,
  partial and new slabs it meets. A size of 0 or above one page is refused without a
  change. Otherwise the request is served from the smallest size class that fits: either
  the result is an object of that class that was not in use, exactly it joins the
  objects in use, and it lies in kernel memory below the end of the address space,
  outside the free page frames; or the result is \<^verbatim>\<open>NULL\<close>, nothing becomes used, and no
  free block of 4 MB or more was left in the normal zone. The words of all objects
  already in use keep their values, and the allocator is well formed again.
\<close>

theorem kmalloc_correct:
  assumes "heap_state st U" "cpu < CPUNUMS"
  shows "if 0 < n \<and> n \<le> 4096
    then \<exists>r st' c. kmalloc cpu n st = Some (r, st') \<and> c < 12 \<and> n \<le> cache_size c \<and> (\<forall>j<c. cache_size j < n) \<and> keeps_words U st st' \<and>
      (r = 0 \<and> heap_state st' U \<and> (\<forall>p j. 10 \<le> j \<longrightarrow> \<not> free_head (sl_mm st) ZNormal p j) \<or>
       kbase \<le> r \<and> r + n < 2 ^ 32 \<and> (\<forall>i<n. aframe (r + i) \<notin> free_frames (sl_mm st') ZNormal) \<and>
       (c, r) \<notin> U \<and> heap_state st' (insert (c, r) U))
    else kmalloc cpu n st = Some (0, st)"
proof (cases "0 < n \<and> n \<le> 4096")
  case True
  from kmalloc_spec [OF assms, of n] True obtain r st' c where k: "kmalloc cpu n st = Some (r, st')" "c < 12" "n \<le> cache_size c"
    "\<forall>j<c. cache_size j < n" "keeps_words U st st'"
    "r = 0 \<and> heap_state st' U \<and> (\<forall>p j. 10 \<le> j \<longrightarrow> \<not> free_head (sl_mm st) ZNormal p j) \<or>
     r \<noteq> 0 \<and> (c, r) \<notin> U \<and> heap_state st' (insert (c, r) U)" by auto
  have "kbase \<le> r \<and> r + n < 2 ^ 32 \<and> (\<forall>i<n. aframe (r + i) \<notin> free_frames (sl_mm st') ZNormal)"
    if h: "heap_state st' (insert (c, r) U)"
  proof -
    obtain H L S F C where inv: "sinv H L S F C st'" and u: "(c, r) \<in> (SIGMA c:{..<12}. in_use S F C c)"
      using h unfolding heap_state_def by blast
    show ?thesis using object_frames [OF inv u] k(3) by fastforce
  qed
  then show ?thesis unfolding if_P [OF True] using k by blast
qed (use kmalloc_refused in auto)

section \<open>Free blocks\<close>

lemma mem_block: "2 ^ k dvd q \<Longrightarrow> x \<in> block q k \<longleftrightarrow> x div 2 ^ k = q div 2 ^ k"
  using dividend_less_times_div [of "2 ^ k" x] by (auto simp: block_def add.commute div_nat_eqI elim!: dvdE)

lemma xor_high: "m < k \<Longrightarrow> (p XOR 2 ^ m) div 2 ^ k = p div 2 ^ k" for p :: nat
  by (simp add: drop_bit_eq_div [symmetric]) (simp add: drop_bit_eq_div)

lemma xor_low: "2 ^ m dvd p \<Longrightarrow> 2 ^ m dvd p XOR 2 ^ m" for p :: nat
  by (simp add: dvd_eq_mod_eq_0 take_bit_eq_mod [symmetric])

text \<open>An aligned 4 MB block whose frames are all free lies inside one free block of the allocator.\<close>

lemma aligned_block: "1024 dvd (p::nat) \<Longrightarrow> x \<in> block p 10 \<longleftrightarrow> x div 1024 = p div 1024"
  using mem_block [of 10 p x] by simp

lemma whole_block:
  assumes b: "binv UNIV H L s" and f: "block (1024 * a) 10 \<subseteq> free_frames s ZNormal"
  shows "\<exists>p j. 10 \<le> j \<and> free_head s ZNormal p j"
proof (rule ccontr)
  assume no: "\<not> ?thesis"
  let ?z = "z_mempage (zones s ZNormal)"
  have core: "bcore UNIV H L s" and co: "coalesced s ZNormal" using b by (auto simp: binv_def)
  have zd: "2 ^ j dvd ?z" if "j \<le> 10" for j
  proof -
    have "2 ^ 10 dvd ?z" using bcore_zones [OF core] by (simp add: zones_ok_def MAXORDER_def)
    then show ?thesis using that by (rule power_le_dvd)
  qed
  have j: "j < 10" if "free_head s ZNormal q j" for q j using no that by (metis not_le)
  have dv: "2 ^ j dvd q - ?z" "?z \<le> q" "2 ^ j dvd q" if h: "free_head s ZNormal q j" for q j
  proof -
    show d: "2 ^ j dvd q - ?z" "?z \<le> q" using bcore_blk [OF core UNIV_I h] by (simp_all add: blk_ok_def)
    have "2 ^ j dvd ?z + (q - ?z)" using d(1) zd [of j] j [OF h] by (intro dvd_add) simp_all
    then show "2 ^ j dvd q" using d(2) by simp
  qed
  have cover: "\<exists>q j. free_head s ZNormal q j \<and> x \<in> block q j \<and> q div 1024 = a" if x: "x div 1024 = a" for x
  proof -
    have "x \<in> free_frames s ZNormal" using f x aligned_block [of "1024 * a" x] by auto
    then obtain q j where q: "free_head s ZNormal q j" "x \<in> block q j" by (auto simp: free_frames_def)
    have "x div 2 ^ j = q div 2 ^ j" using q(2) mem_block [OF dv(3) [OF q(1)]] by simp
    then have "x div 2 ^ j div 2 ^ (10 - j) = q div 2 ^ j div 2 ^ (10 - j)" by simp
    then have "x div 1024 = q div 1024" using j [OF q(1)] by (simp add: div_mult2_eq [symmetric] power_add [symmetric])
    then show ?thesis using q x by auto
  qed
  define m where "m = (LEAST m. \<exists>p. free_head s ZNormal p m \<and> p div 1024 = a)"
  obtain q0 j0 where "free_head s ZNormal q0 j0 \<and> q0 div 1024 = a" using cover [of "1024 * a"] by auto
  then obtain p where p: "free_head s ZNormal p m" "p div 1024 = a"
    using LeastI [of "\<lambda>m. \<exists>p. free_head s ZNormal p m \<and> p div 1024 = a" j0] unfolding m_def by blast
  have least: "m \<le> j" if "free_head s ZNormal q j" "q div 1024 = a" for q j
    using that unfolding m_def by (intro Least_le) blast
  let ?b = "?z + ((p - ?z) XOR 2 ^ m)"
  have high: "?b div 2 ^ k = p div 2 ^ k" if "m < k" "k \<le> 10" for k
  proof -
    have "?b div 2 ^ k = ?z div 2 ^ k + (p - ?z) div 2 ^ k"
      using zd [OF that(2)] xor_high [OF that(1), of "p - ?z"] by (simp add: div_plus_div_distrib_dvd_left)
    also have "\<dots> = (?z + (p - ?z)) div 2 ^ k" using zd [OF that(2)] by (simp add: div_plus_div_distrib_dvd_left)
    finally show ?thesis using dv(2) [OF p(1)] by simp
  qed
  obtain q j where q: "free_head s ZNormal q j" "?b \<in> block q j" "q div 1024 = a"
    using cover [of ?b] high [of 10] j [OF p(1)] p(2) by auto
  show False
  proof (cases "j = m")
    case True
    have "?b div 2 ^ m = q div 2 ^ m" using q(2) mem_block [OF dv(3) [OF q(1)]] True by simp
    moreover have "2 ^ m dvd ?b" using zd [of m] j [OF p(1)] xor_low [OF dv(1) [OF p(1)]] by (intro dvd_add) simp_all
    ultimately have "q = ?b" using dv(3) [OF q(1)] True by (metis dvd_div_mult_self)
    then show False using co p(1) q(1) j [OF p(1)] True by (simp add: coalesced_def MAXORDER_def)
  next
    case False
    then have "m < j" using least [OF q(1,3)] by simp
    then have i: "p \<in> block q j" using q(2) mem_block [OF dv(3) [OF q(1)]] high [of j] j [OF q(1)] by simp
    have "p \<in> block p m" by (simp add: block_def)
    then have "p = q" using bcore_disjoint [OF core UNIV_I p(1) q(1)] i by blast
    then show False using p(1) q(1) False by (simp add: free_head_def)
  qed
qed

text \<open>
  \<open>spare k st\<close>: at least \<open>k\<close> aligned blocks of 4 MB are free, so the next \<open>k\<close> allocations cannot
  fail, whatever their classes.
\<close>

definition spare :: "nat \<Rightarrow> slst \<Rightarrow> bool" where
  "spare k st \<longleftrightarrow> (\<exists>A. finite A \<and> k \<le> card A \<and> (\<forall>a\<in>A. block (1024 * a) 10 \<subseteq> free_frames (sl_mm st) ZNormal))"

lemma spare_takes:
  assumes "spare (Suc k) st" "takes st st'"
  shows "spare k st'"
proof -
  obtain A where A: "finite A" "Suc k \<le> card A" "\<forall>a\<in>A. block (1024 * a) 10 \<subseteq> free_frames (sl_mm st) ZNormal"
    using assms(1) by (auto simp: spare_def)
  obtain p where p: "1024 dvd p" "free_frames (sl_mm st) ZNormal - block p 10 \<subseteq> free_frames (sl_mm st') ZNormal"
    using assms(2) by (auto simp: takes_def)
  let ?B = "A - {p div 1024}"
  have "block (1024 * a) 10 \<subseteq> free_frames (sl_mm st') ZNormal" if "a \<in> ?B" for a
  proof
    fix x assume x: "x \<in> block (1024 * a) 10"
    then have "x \<notin> block p 10" using that aligned_block [OF p(1), of x] aligned_block [of "1024 * a" x] by auto
    then show "x \<in> free_frames (sl_mm st') ZNormal" using x that A(3) p(2) by blast
  qed
  moreover have "k \<le> card ?B" using A(1,2) by (auto simp: card_Diff_singleton_if)
  ultimately show ?thesis using A(1) unfolding spare_def by (intro exI [of _ ?B]) simp
qed

lemma spare_mono: "spare k st \<Longrightarrow> j \<le> k \<Longrightarrow> spare j st"
  by (auto simp: spare_def intro: order_trans)

lemma spare_head:
  assumes "heap_state st U" "spare (Suc k) st"
  shows "\<exists>p j. 10 \<le> j \<and> free_head (sl_mm st) ZNormal p j"
proof -
  obtain A where A: "Suc k \<le> card A" "\<forall>a\<in>A. block (1024 * a) 10 \<subseteq> free_frames (sl_mm st) ZNormal"
    using assms(2) by (auto simp: spare_def)
  then obtain a where "a \<in> A" by fastforce
  then show ?thesis using whole_block [of _ _ "sl_mm st" a] A(2) assms(1) by (auto simp: heap_state_def sinv_def)
qed

lemma kmalloc_takes:
  assumes "heap_state st U" "cpu < CPUNUMS" "kmalloc cpu n st = Some (r, st')"
  shows "takes st st'"
proof (cases "0 < n \<and> n \<le> 4096")
  case True
  obtain H L S F C where inv: "sinv H L S F C st" "slablock st = 0" using assms(1) by (auto simp: heap_state_def)
  have "size_map st n < 12" using sinvD(3) [OF inv(1)] True by (auto simp: size_map_ok_def)
  moreover have "sinv H L S F C (st\<lparr>slablock := 1\<rparr>)" using inv(1) by simp
  ultimately obtain r1 st1 where a: "slab_alloc (size_map st n) cpu (st\<lparr>slablock := 1\<rparr>) = Some (r1, st1)"
    "takes (st\<lparr>slablock := 1\<rparr>) st1" using slab_alloc_spec assms(2) by blast
  then have "st' = st1\<lparr>slablock := spin_unlock (slablock st1)\<rparr>"
    using assms(3) True inv(2) by (auto simp: kmalloc_def PAGE_SIZE_def PAGE_SHIFT_def slab_spin_lock_def slab_spin_unlock_def)
  then show ?thesis using a(2) by (simp add: takes_def)
next
  case False
  then have "kmalloc cpu n st = Some (0, st)" by (intro kmalloc_refused) auto
  then show ?thesis using assms(3) by (simp add: takes_same)
qed

definition boot_slab :: "mmst \<Rightarrow> slst" where
  "boot_slab s = \<lparr>sl_mm = s, kmalloc_caches = (\<lambda>_. \<lparr>mc_size = 0, mc_objsize = 0, mc_offset = 0, mc_order = 0, mc_objects = 0,
     mc_node = \<lparr>nd_lock = 0, nd_nfull = 0, nd_npartial = 0, nd_nslub = 0\<rparr>,
     mc_cpu = (\<lambda>_. \<lparr>cc_freelist = 0, cc_page = None\<rparr>)\<rparr>), size_map = (\<lambda>_. 0), slablock = 0\<rparr>"

lemma boot_heap:
  assumes "n \<le> 0x30000"
  shows "\<exists>s. zone_init n (small_mm\<lparr>max_pfn := n\<rparr>) = Some s \<and> heap_state (slab_init (boot_slab s)) {} \<and>
     spare (n div 1024) (slab_init (boot_slab s))"
proof -
  obtain s L where s: "zone_init n (small_mm\<lparr>max_pfn := n\<rparr>) = Some s" "binv UNIV (fa_heads UNIV) L s" "zone_layout s"
    "free_frames s ZNormal = {0..<n}" using mm_boot [OF assms] by auto
  let ?st = "slab_init (boot_slab s)"
  have b: "sl_mm (boot_slab s) = s" "slablock (boot_slab s) = 0" by (simp_all add: boot_slab_def)
  note i = slab_init_spec [of L "boot_slab s", unfolded b, OF s(2,3)]
  have "heap_state ?st {}" using slab_init_heap [of L "boot_slab s"] s(2,3) b by simp
  moreover have "free_head (sl_mm ?st) = free_head s"
    using arg_cong [OF i(3), of mempage] arg_cong [OF i(3), of zones] by (simp add: fun_eq_iff free_head_def in_zone_def)
  then have "free_frames (sl_mm ?st) ZNormal = {0..<n}" using free_head_frames s(4) by metis
  then have "block (1024 * a) 10 \<subseteq> free_frames (sl_mm ?st) ZNormal" if "a < n div 1024" for a
    using that by (auto simp: aligned_block)
  then have "spare (n div 1024) ?st" unfolding spare_def by (intro exI [of _ "{..<n div 1024}"]) simp
  ultimately show ?thesis using s(1) by blast
qed

lemma slab_boot:
  "\<exists>s p j. zone_init 1024 (small_mm\<lparr>max_pfn := 1024\<rparr>) = Some s \<and> heap_state (slab_init (boot_slab s)) {} \<and>
     10 \<le> j \<and> free_head (sl_mm (slab_init (boot_slab s))) ZNormal p j"
proof -
  obtain s where s: "zone_init 1024 (small_mm\<lparr>max_pfn := 1024\<rparr>) = Some s" "heap_state (slab_init (boot_slab s)) {}"
    "spare 1 (slab_init (boot_slab s))" using boot_heap [of 1024] by auto
  then show ?thesis using spare_head [OF s(2), of 0] by auto
qed

text \<open>The outcome of an allocation, with what it leaves of the free blocks.\<close>

lemma kmalloc_spare:
  assumes "heap_state st U" "cpu < CPUNUMS" "0 < n" "n \<le> 4096"
  shows "\<exists>r st' c. kmalloc cpu n st = Some (r, st') \<and> c < 12 \<and> n \<le> cache_size c \<and> (\<forall>j<c. cache_size j < n) \<and>
    (\<forall>k. spare (Suc k) st \<longrightarrow> r \<noteq> 0 \<and> spare k st') \<and>
    (r = 0 \<and> heap_state st' U \<or> r \<noteq> 0 \<and> (c, r) \<notin> U \<and> heap_state st' (insert (c, r) U))"
proof -
  obtain r st' c where k: "kmalloc cpu n st = Some (r, st')" "c < 12" "n \<le> cache_size c" "\<forall>j<c. cache_size j < n"
    "r = 0 \<and> heap_state st' U \<and> (\<forall>p j. 10 \<le> j \<longrightarrow> \<not> free_head (sl_mm st) ZNormal p j) \<or>
     r \<noteq> 0 \<and> (c, r) \<notin> U \<and> heap_state st' (insert (c, r) U)" using kmalloc_spec [OF assms] by blast
  have "r \<noteq> 0 \<and> spare k st'" if "spare (Suc k) st" for k
    using spare_head [OF assms(1) that] spare_takes [OF that kmalloc_takes [OF assms(1,2) k(1)]] k(5) by blast
  then show ?thesis using k by blast
qed

theorem kmalloc_correct_witness:
  "\<exists>s r st'. zone_init 1024 (small_mm\<lparr>max_pfn := 1024\<rparr>) = Some s \<and> heap_state (slab_init (boot_slab s)) {} \<and>
     kmalloc 0 100 (slab_init (boot_slab s)) = Some (r, st') \<and> kbase \<le> r \<and> heap_state st' {(5, r)} \<and>
     kmalloc 0 5000 st' = Some (0, st')"
proof -
  obtain s p j where s: "zone_init 1024 (small_mm\<lparr>max_pfn := 1024\<rparr>) = Some s" "heap_state (slab_init (boot_slab s)) {}"
    "10 \<le> j" "free_head (sl_mm (slab_init (boot_slab s))) ZNormal p j" using slab_boot by blast
  have cpu: "0 < CPUNUMS" by (simp add: CPUNUMS_def)
  obtain r st' c where k: "kmalloc 0 100 (slab_init (boot_slab s)) = Some (r, st')" "c < 12" "100 \<le> cache_size c" "\<forall>j<c. cache_size j < 100"
    "kbase \<le> r" "heap_state st' {(c, r)}" using kmalloc_correct [OF s(2) cpu, of 100] s(3,4) by auto
  have "c = 5" using class_cases [OF k(2)] k(3) k(4) [rule_format, of 5] by (auto simp: cache_sizes_def)
  moreover have "kmalloc 0 5000 st' = Some (0, st')" using kmalloc_correct [OF k(6) cpu, of 5000] by simp
  ultimately show ?thesis using s(1,2) k(1,5,6) by blast
qed

text \<open>
  C24. \<^verbatim>\<open>kfree\<close> of an object in use always succeeds, from whichever processor it is
  called: the slab is found from the address alone, no assertion fails, no lock blocks,
  exactly the object leaves the objects in use, and every word of every object, the
  released one included, keeps its value. The allocator is well formed again; in
  particular a slab whose last object came back has returned to the page allocator.
\<close>

theorem kfree_correct:
  assumes "heap_state st U" "cpu < CPUNUMS" "(c, obj) \<in> U"
  shows "\<exists>st'. kfree cpu obj st = Some st' \<and> heap_state st' (U - {(c, obj)}) \<and> keeps_words U st st'"
  by (rule kfree_spec [OF assms])

theorem kfree_correct_witness:
  "\<exists>s r st' st''. kmalloc 0 100 (slab_init (boot_slab s)) = Some (r, st') \<and> heap_state st' {(5, r)} \<and>
     kfree 1 r st' = Some st'' \<and> heap_state st'' {}"
proof -
  obtain s p j where s: "heap_state (slab_init (boot_slab s)) {}"
    "10 \<le> j" "free_head (sl_mm (slab_init (boot_slab s))) ZNormal p j" using slab_boot by blast
  have cpu: "0 < CPUNUMS" "1 < CPUNUMS" by (simp_all add: CPUNUMS_def)
  obtain r st' c where k: "kmalloc 0 100 (slab_init (boot_slab s)) = Some (r, st')" "c < 12" "100 \<le> cache_size c" "\<forall>j<c. cache_size j < 100"
    "heap_state st' {(c, r)}" using kmalloc_spec [OF s(1) cpu(1), of 100] s(2,3) by auto
  have c: "c = 5" using class_cases [OF k(2)] k(3) k(4) [rule_format, of 5] by (auto simp: cache_sizes_def)
  then show ?thesis using kfree_correct [OF k(5) cpu(2), of c r] k(1,5) by auto
qed

text \<open>
  C25. After \<^verbatim>\<open>slab_init\<close> on a machine with a well-formed page allocator, any program of
  \<^verbatim>\<open>kmalloc\<close> and \<^verbatim>\<open>kfree\<close> calls, with any sizes, in any order and from any processors, runs
  to its end: no call blocks, loops or fails an assertion. At every moment, so also at
  the end, the memory ranges the program holds are pairwise disjoint.
\<close>

theorem heap_programs_run:
  assumes "binv UNIV (fa_heads UNIV) L (sl_mm st)" "zone_layout (sl_mm st)" "slablock st = 0" "\<forall>x\<in>set ops. op_cpu x < CPUNUMS"
  shows "\<exists>live st'. heap_run kmalloc kfree ops [] (slab_init st) = Some (live, st') \<and>
    (\<forall>i<length live. \<forall>j<length live. i \<noteq> j \<longrightarrow>
       {fst (live ! i)..<fst (live ! i) + snd (live ! i)} \<inter> {fst (live ! j)..<fst (live ! j) + snd (live ! j)} = {})"
proof -
  have "heap_state (slab_init st) {}" by (rule slab_init_heap [OF assms(1-3)])
  then have "kheap.tracks [] (slab_init st)" by (simp add: kheap.tracks_def)
  from kheap.heap_run_ok [OF this assms(4)] obtain live st' where
    "heap_run kmalloc kfree ops [] (slab_init st) = Some (live, st')" "kheap.tracks live st'" by blast
  then show ?thesis using kheap.tracks_apart by (metis prod.collapse)
qed

theorem heap_programs_run_witness:
  "\<exists>s live st'. heap_run kmalloc kfree [Malloc 0 100, Malloc 1 8, Free 1 0, Malloc 0 4096] [] (slab_init (boot_slab s)) = Some (live, st') \<and>
     list_all (\<lambda>i. list_all (\<lambda>j. i = j \<or> {fst (live ! i)..<fst (live ! i) + snd (live ! i)} \<inter>
       {fst (live ! j)..<fst (live ! j) + snd (live ! j)} = {}) [0..<length live]) [0..<length live]"
proof -
  obtain s L where s: "binv UNIV (fa_heads UNIV) L s" "zone_layout s" using mm_boot [of 1024] by auto
  have b: "sl_mm (boot_slab s) = s" "slablock (boot_slab s) = 0" by (simp_all add: boot_slab_def)
  have "\<forall>x\<in>set [Malloc 0 100, Malloc 1 8, Free 1 0, Malloc 0 4096]. op_cpu x < CPUNUMS" by (simp add: CPUNUMS_def)
  from heap_programs_run [of L "boot_slab s", unfolded b, OF s refl this] obtain live st' where
    l: "heap_run kmalloc kfree [Malloc 0 100, Malloc 1 8, Free 1 0, Malloc 0 4096] [] (slab_init (boot_slab s)) = Some (live, st')"
    "\<forall>i<length live. \<forall>j<length live. i \<noteq> j \<longrightarrow>
       {fst (live ! i)..<fst (live ! i) + snd (live ! i)} \<inter> {fst (live ! j)..<fst (live ! j) + snd (live ! j)} = {}" by blast
  show ?thesis by (intro exI conjI, rule l(1)) (use l(2) in \<open>auto simp: list_all_iff\<close>)
qed

end
