(* ===== verification/Rbtree.thy ===== *)
theory Rbtree
  imports Kprelude "HOL-Library.Tree"
begin

text \<open>
  The binary search trees of \<^verbatim>\<open>kernel/rbtree.c\<close> and \<^verbatim>\<open>include/fuckOS/rbtree.h\<close>. Nodes are embedded
  in the objects they link, so a node has the address of its object (0 for \<^verbatim>\<open>NULL\<close>) and
  \<^verbatim>\<open>rb_entry\<close> is the identity. \<open>rbn\<close> holds the nodes, \<open>rb_root\<close> the root pointer of every
  tree. A \<^verbatim>\<open>struct rb_node **\<close> is the place of a link: a root, or a child of a node.
\<close>

section \<open>The code\<close>

record rb_node =
  rb_parent :: nat
  rb_right :: nat
  rb_left :: nat

record rbst =
  rbn :: "nat \<Rightarrow> rb_node"
  rb_root :: "nat \<Rightarrow> nat"

datatype rb_link = RootLink nat | LeftLink nat | RightLink nat

fun read_link :: "rbst \<Rightarrow> rb_link \<Rightarrow> nat" where
  "read_link t (RootLink k) = rb_root t k"
| "read_link t (LeftLink p) = rb_left (rbn t p)"
| "read_link t (RightLink p) = rb_right (rbn t p)"

definition upd_rb :: "nat \<Rightarrow> (rb_node \<Rightarrow> rb_node) \<Rightarrow> rbst \<Rightarrow> rbst" where
  "upd_rb a f t = t\<lparr>rbn := (rbn t)(a := f (rbn t a))\<rparr>"

fun write_link :: "rb_link \<Rightarrow> nat \<Rightarrow> rbst \<Rightarrow> rbst" where
  "write_link (RootLink k) v t = t\<lparr>rb_root := (rb_root t)(k := v)\<rparr>"
| "write_link (LeftLink p) v t = upd_rb p (\<lambda>n. n\<lparr>rb_left := v\<rparr>) t"
| "write_link (RightLink p) v t = upd_rb p (\<lambda>n. n\<lparr>rb_right := v\<rparr>) t"

definition rb_set_parent :: "nat \<Rightarrow> nat \<Rightarrow> rbst \<Rightarrow> rbst" where
  "rb_set_parent rb p = upd_rb rb (\<lambda>n. n\<lparr>rb_parent := p\<rparr>)"

partial_function (option) rb_mostleft :: "rbst \<Rightarrow> nat \<Rightarrow> nat option" where
  "rb_mostleft t rbnode =
     (if rbnode \<noteq> 0 then
        if rb_left (rbn t rbnode) \<noteq> 0 then rb_mostleft t (rb_left (rbn t rbnode)) else Some rbnode
      else Some 0)"

partial_function (option) rb_mostright :: "rbst \<Rightarrow> nat \<Rightarrow> nat option" where
  "rb_mostright t rbnode =
     (if rbnode \<noteq> 0 then
        if rb_right (rbn t rbnode) \<noteq> 0 then rb_mostright t (rb_right (rbn t rbnode)) else Some rbnode
      else Some 0)"

definition rb_link_node :: "nat \<Rightarrow> nat \<Rightarrow> rb_link \<Rightarrow> rbst \<Rightarrow> rbst" where
  "rb_link_node node parent rb_link t = upd_rb node (\<lambda>n. n\<lparr>rb_parent := parent\<rparr>) (write_link rb_link node t)"

definition RBTREE_ROOT_INIT :: "nat \<Rightarrow> rbst \<Rightarrow> rbst" where
  "RBTREE_ROOT_INIT k t = t\<lparr>rb_root := (rb_root t)(k := 0)\<rparr>"

definition RBTREE_NODE_INIT :: "nat \<Rightarrow> rbst \<Rightarrow> rbst" where
  "RBTREE_NODE_INIT a = upd_rb a (\<lambda>n. n\<lparr>rb_parent := 0, rb_right := 0, rb_left := 0\<rparr>)"

partial_function (option) rbtree_delete :: "nat \<Rightarrow> nat \<Rightarrow> rbst \<Rightarrow> rbst option" where
  "rbtree_delete k rbnode t = do {
     let left = rb_left (rbn t rbnode);
     let right = rb_right (rbn t rbnode);
     let parent = rb_parent (rbn t rbnode);
     pp \<leftarrow> (if parent = 0 then Some (RootLink k)
            else if rb_left (rbn t parent) = rbnode then Some (LeftLink parent)
            else if rb_right (rbn t parent) = rbnode then Some (RightLink parent)
            else None);
     t1 \<leftarrow> (if left = 0 \<and> right = 0 then Some (write_link pp 0 t)
            else if left = 0 then Some (upd_rb right (\<lambda>n. n\<lparr>rb_parent := parent\<rparr>) (write_link pp right t))
            else if right = 0 then Some (upd_rb left (\<lambda>n. n\<lparr>rb_parent := parent\<rparr>) (write_link pp left t))
            else do {
              tmp \<leftarrow> rb_mostleft t right;
              t1 \<leftarrow> rbtree_delete k tmp t;
              let t2 = upd_rb tmp (\<lambda>n. n\<lparr>rb_left := left\<rparr>) t1;
              let t3 = upd_rb tmp (\<lambda>n. n\<lparr>rb_right := right\<rparr>) t2;
              Some (write_link pp tmp t3) });
     Some (upd_rb rbnode (\<lambda>n. n\<lparr>rb_left := 0, rb_right := 0\<rparr>) t1) }"

definition rb_first :: "nat \<Rightarrow> rbst \<Rightarrow> nat option" where
  "rb_first k t = rb_mostright t (rb_root t k)"

definition rb_last :: "nat \<Rightarrow> rbst \<Rightarrow> nat option" where
  "rb_last k t = rb_mostleft t (rb_root t k)"

section \<open>Trees in the store\<close>

text \<open>\<open>rbt t par p T\<close>: below the pointer \<open>p\<close>, whose owner is \<open>par\<close>, the nodes form the tree \<open>T\<close>.\<close>

primrec rbt :: "rbst \<Rightarrow> nat \<Rightarrow> nat \<Rightarrow> nat tree \<Rightarrow> bool" where
  "rbt t par p Leaf \<longleftrightarrow> p = 0"
| "rbt t par p (Node l a r) \<longleftrightarrow> p = a \<and> a \<noteq> 0 \<and> rb_parent (rbn t a) = par \<and>
     rbt t a (rb_left (rbn t a)) l \<and> rbt t a (rb_right (rbn t a)) r"

lemma rbt_cong:
  assumes "\<forall>a\<in>set_tree T. rbn t' a = rbn t a"
  shows "rbt t' par p T = rbt t par p T"
  using assms by (induction T arbitrary: par p) auto

lemma rbt_nil: "rbt t par p T \<Longrightarrow> p = 0 \<longleftrightarrow> T = Leaf"
  by (cases T) auto

lemma rbt_nonzero: "rbt t par p T \<Longrightarrow> 0 \<notin> set_tree T"
  by (induction T arbitrary: par p) auto

lemma rbt_root: "rbt t par p T \<Longrightarrow> T \<noteq> Leaf \<Longrightarrow> p \<in> set_tree T"
  by (cases T) auto

lemma upd_rb_sel [simp]:
  "rbn (upd_rb a f t) b = (if b = a then f (rbn t a) else rbn t b)" "rb_root (upd_rb a f t) = rb_root t"
  by (simp_all add: upd_rb_def)

lemma rbn_root [simp]: "rbn (t\<lparr>rb_root := r\<rparr>) = rbn t" by simp

lemma mostleft_tree: "rbt t par p T \<Longrightarrow> T \<noteq> Leaf \<Longrightarrow> rb_mostleft t p = Some (hd (inorder T))"
proof (induction T arbitrary: par p)
  case (Node l a r)
  then show ?case using rbt_nil [of t a "rb_left (rbn t a)" l] by (cases "l = Leaf") (auto simp: rb_mostleft.simps [of t a] neq_Leaf_iff)
qed simp

lemma mostright_tree: "rbt t par p T \<Longrightarrow> T \<noteq> Leaf \<Longrightarrow> rb_mostright t p = Some (last (inorder T))"
proof (induction T arbitrary: par p)
  case (Node l a r)
  then show ?case using rbt_nil [of t a "rb_right (rbn t a)" r] by (cases "r = Leaf") (auto simp: rb_mostright.simps [of t a] neq_Leaf_iff)
qed simp

section \<open>Removing a node with at most one child\<close>

text \<open>The tree without \<open>a\<close>, which the code joins up by lifting the only child of \<open>a\<close>.\<close>

fun cut :: "nat \<Rightarrow> nat tree \<Rightarrow> nat tree" where
  "cut a Leaf = Leaf"
| "cut a (Node l b r) = (if a = b then (if l = Leaf then r else l)
     else if a \<in> set_tree l then Node (cut a l) b r else Node l b (cut a r))"

fun one_child :: "nat \<Rightarrow> nat tree \<Rightarrow> bool" where
  "one_child a Leaf \<longleftrightarrow> True"
| "one_child a (Node l b r) \<longleftrightarrow> (if a = b then l = Leaf \<or> r = Leaf else one_child a l \<and> one_child a r)"

lemma inorder_cut:
  "one_child a T \<Longrightarrow> distinct (inorder T) \<Longrightarrow> inorder (cut a T) = remove1 a (inorder T)"
  by (induction T) (auto simp: remove1_append remove1_idem)

lemma set_cut: "set_tree (cut a T) \<subseteq> set_tree T"
  by (induction T) auto

lemma rbt_family:
  assumes "rbt t par p T" "distinct (inorder T)" "par \<notin> set_tree T" "a \<in> set_tree T"
  shows "a = p \<and> rb_parent (rbn t a) = par \<or> rb_parent (rbn t a) \<in> set_tree T \<and>
      (rb_left (rbn t (rb_parent (rbn t a))) = a \<or> rb_right (rbn t (rb_parent (rbn t a))) = a)"
    "rb_left (rbn t a) = 0 \<or> rb_left (rbn t a) \<in> set_tree T - {a, rb_parent (rbn t a)}"
    "rb_right (rbn t a) = 0 \<or> rb_right (rbn t a) \<in> set_tree T - {a, rb_parent (rbn t a)}"
proof -
  have "(a = p \<and> rb_parent (rbn t a) = par \<or> rb_parent (rbn t a) \<in> set_tree T \<and>
      (rb_left (rbn t (rb_parent (rbn t a))) = a \<or> rb_right (rbn t (rb_parent (rbn t a))) = a)) \<and>
    (rb_left (rbn t a) = 0 \<or> rb_left (rbn t a) \<in> set_tree T - {a, rb_parent (rbn t a)}) \<and>
    (rb_right (rbn t a) = 0 \<or> rb_right (rbn t a) \<in> set_tree T - {a, rb_parent (rbn t a)})"
    using assms
  proof (induction T arbitrary: par p)
    case (Node l b r)
    have top: "rb_left (rbn t b) = 0 \<or> rb_left (rbn t b) \<in> set_tree l" "rb_right (rbn t b) = 0 \<or> rb_right (rbn t b) \<in> set_tree r"
      using Node.prems(1) rbt_nil rbt_root by (metis rbt.simps(2))+
    show ?case
    proof (cases "a = b")
      case True
      then show ?thesis using top Node.prems by auto
    next
      case False
      then consider "a \<in> set_tree l" | "a \<in> set_tree r" using Node.prems(4) by auto
      then show ?thesis
      proof cases
        case 1
        from Node.IH(1) [OF _ _ _ 1, of b "rb_left (rbn t b)"] Node.prems show ?thesis by auto
      next
        case 2
        from Node.IH(2) [OF _ _ _ 2, of b "rb_right (rbn t b)"] Node.prems show ?thesis by auto
      qed
    qed
  qed simp
  then show "a = p \<and> rb_parent (rbn t a) = par \<or> rb_parent (rbn t a) \<in> set_tree T \<and>
      (rb_left (rbn t (rb_parent (rbn t a))) = a \<or> rb_right (rbn t (rb_parent (rbn t a))) = a)"
    "rb_left (rbn t a) = 0 \<or> rb_left (rbn t a) \<in> set_tree T - {a, rb_parent (rbn t a)}"
    "rb_right (rbn t a) = 0 \<or> rb_right (rbn t a) \<in> set_tree T - {a, rb_parent (rbn t a)}" by blast+
qed

text \<open>What the code writes when it lifts the child \<open>c\<close> of \<open>a\<close>.\<close>

definition lifted :: "rbst \<Rightarrow> rbst \<Rightarrow> nat \<Rightarrow> nat \<Rightarrow> bool" where
  "lifted t t' a c \<longleftrightarrow> (let P = rb_parent (rbn t a) in
     (\<forall>b. b \<notin> {a, c, P} \<longrightarrow> rbn t' b = rbn t b) \<and>
     (c \<noteq> 0 \<longrightarrow> rbn t' c = (rbn t c)\<lparr>rb_parent := P\<rparr>) \<and>
     (P \<noteq> 0 \<longrightarrow> rbn t' P = (if rb_left (rbn t P) = a then (rbn t P)\<lparr>rb_left := c\<rparr> else (rbn t P)\<lparr>rb_right := c\<rparr>)))"

lemma lifted_same: "lifted t t' a c \<Longrightarrow> b \<notin> {a, c, rb_parent (rbn t a)} \<Longrightarrow> rbn t' b = rbn t b"
  by (simp add: lifted_def Let_def)

lemma lift_tree:
  assumes "rbt t par p T" "distinct (inorder T)" "par \<notin> set_tree T" "a \<in> set_tree T" "one_child a T"
    and li: "lifted t t' a c" and c: "c = (if rb_left (rbn t a) = 0 then rb_right (rbn t a) else rb_left (rbn t a))"
  shows "rbt t' par (if p = a then c else p) (cut a T)"
  using assms(1-5)
proof (induction T arbitrary: par p)
  case (Node l b r)
  let ?P = "rb_parent (rbn t a)"
  note r = Node.prems(1) [unfolded rbt.simps]
  show ?case
  proof (cases "a = b")
    case True
    let ?T = "if l = Leaf then r else l"
    have T: "rbt t a c ?T" "set_tree ?T \<subseteq> set_tree l \<union> set_tree r" using r True Node.prems(5) c rbt_nil by (auto split: if_splits)
    show ?thesis
    proof (cases ?T)
      case Leaf
      then show ?thesis using T(1) True r by (auto split: if_splits)
    next
      case (Node l2 c2 r2)
      have c2: "c = c2" "c \<noteq> 0" using T(1) Node by auto
      have "a \<notin> set_tree ?T" "par \<notin> set_tree ?T" "distinct (inorder ?T)" using Node.prems(2,3) True T(2) by auto
      then have o: "\<forall>x\<in>set_tree l2 \<union> set_tree r2. rbn t' x = rbn t x"
        using li True r c2 Node unfolding lifted_def Let_def by auto
      then have "rbt t' x y l2 = rbt t x y l2" "rbt t' x y r2 = rbt t x y r2" for x y by (auto intro!: rbt_cong)
      moreover have "rbn t' c = (rbn t c)\<lparr>rb_parent := par\<rparr>" using li c2 r True by (auto simp: lifted_def Let_def)
      ultimately have "rbt t' par c ?T" using T(1) Node c2 by simp
      then show ?thesis using True r by simp
    qed
  next
    case False
    then consider "a \<in> set_tree l" | "a \<in> set_tree r" using Node.prems(4) by auto
    then show ?thesis
    proof cases
      case 1
      note fam = rbt_family [of t b "rb_left (rbn t b)" l a]
      have z: "0 \<notin> set_tree l" "b \<noteq> 0" using rbt_nonzero r by blast+
      have cl: "c = 0 \<or> c \<in> set_tree l" "?P = b \<longrightarrow> rb_left (rbn t b) = a" "?P \<in> insert b (set_tree l)" using fam r 1 Node.prems(2) c by auto
      have IH: "rbt t' b (if rb_left (rbn t b) = a then c else rb_left (rbn t b)) (cut a l)"
        using Node.IH(1) [OF _ _ _ 1] r Node.prems False by auto
      have "0 \<notin> set_tree r" using rbt_nonzero r by blast
      then have "set_tree r \<inter> {a, c, ?P} = {}" using cl(1,3) 1 Node.prems(2) by auto
      then have "\<forall>x\<in>set_tree r. rbn t' x = rbn t x" using lifted_same [OF li] by blast
      then have R: "rbt t' x y r = rbt t x y r" for x y by (rule rbt_cong)
      have "b \<notin> {a, c}" using cl(1) z False Node.prems(2) by auto
      then have "?P \<noteq> b \<Longrightarrow> rbn t' b = rbn t b" using lifted_same [OF li, of b] by blast
      moreover have "?P = b \<Longrightarrow> rbn t' b = (rbn t b)\<lparr>rb_left := c\<rparr>" using li cl(2) z(2) by (simp add: lifted_def Let_def)
      moreover have "rb_left (rbn t b) = a \<Longrightarrow> ?P = b" using r 1 by (cases l) auto
      ultimately have "rbn t' b = (if rb_left (rbn t b) = a then (rbn t b)\<lparr>rb_left := c\<rparr> else rbn t b)"
        using cl(2) by (cases "?P = b") auto
      then show ?thesis using IH R r 1 False by (auto split: if_splits)
    next
      case 2
      note fam = rbt_family [of t b "rb_right (rbn t b)" r a]
      have n: "a \<notin> set_tree l" using 2 Node.prems(2) by auto
      have z: "0 \<notin> set_tree r" "b \<noteq> 0" using rbt_nonzero r by blast+
      have la: "rb_left (rbn t b) \<noteq> a" using n 2 z(1) rbt_nil [of t b _ l] rbt_root [of t b _ l] r by metis
      have cr: "c = 0 \<or> c \<in> set_tree r" "?P = b \<longrightarrow> rb_right (rbn t b) = a" "?P \<in> insert b (set_tree r)" using fam r 2 Node.prems(2) c la by auto
      have IH: "rbt t' b (if rb_right (rbn t b) = a then c else rb_right (rbn t b)) (cut a r)"
        using Node.IH(2) [OF _ _ _ 2] r Node.prems False by auto
      have "0 \<notin> set_tree l" using rbt_nonzero r by blast
      then have "set_tree l \<inter> {a, c, ?P} = {}" using cr(1,3) n Node.prems(2) by auto
      then have "\<forall>x\<in>set_tree l. rbn t' x = rbn t x" using lifted_same [OF li] by blast
      then have R: "rbt t' x y l = rbt t x y l" for x y by (rule rbt_cong)
      have "b \<notin> {a, c}" using cr(1) z False Node.prems(2) by auto
      then have "?P \<noteq> b \<Longrightarrow> rbn t' b = rbn t b" using lifted_same [OF li, of b] by blast
      moreover have "?P = b \<Longrightarrow> rbn t' b = (rbn t b)\<lparr>rb_right := c\<rparr>" using li la z(2) by (simp add: lifted_def Let_def)
      moreover have "rb_right (rbn t b) = a \<Longrightarrow> ?P = b" using r 2 by (cases r) auto
      ultimately have "rbn t' b = (if rb_right (rbn t b) = a then (rbn t b)\<lparr>rb_right := c\<rparr> else rbn t b)"
        using cr(2) by (cases "?P = b") auto
      then show ?thesis using IH R r n False by (auto split: if_splits)
    qed
  qed
qed simp

lemma one_child_node:
  assumes "rbt t par p T" "distinct (inorder T)" "a \<in> set_tree T" "one_child a T"
  shows "rb_left (rbn t a) = 0 \<or> rb_right (rbn t a) = 0"
  using assms
proof (induction T arbitrary: par p)
  case (Node l b r)
  then show ?case using rbt_nil [of t b _ l] rbt_nil [of t b _ r] by (cases "a = b") auto
qed simp

lemma delete_tree:
  assumes T: "rbt t 0 (rb_root t k) T" "distinct (inorder T)" and a: "a \<in> set_tree T" "one_child a T"
  shows "\<exists>t'. rbtree_delete k a t = Some t' \<and> rbt t' 0 (rb_root t' k) (cut a T) \<and> rb_left (rbn t' a) = 0 \<and> rb_right (rbn t' a) = 0 \<and>
    (\<forall>b. b \<notin> set_tree T \<longrightarrow> rbn t' b = rbn t b) \<and> (\<forall>j. j \<noteq> k \<longrightarrow> rb_root t' j = rb_root t j)"
proof -
  let ?l = "rb_left (rbn t a)" let ?r = "rb_right (rbn t a)" let ?P = "rb_parent (rbn t a)"
  define c where "c = (if ?l = 0 then ?r else ?l)"
  have z: "0 \<notin> set_tree T" using rbt_nonzero [OF T(1)] .
  note fam = rbt_family [OF T z a(1)]
  have one: "?l = 0 \<or> ?r = 0" using one_child_node [OF T a] .
  have top: "?P = 0 \<longleftrightarrow> rb_root t k = a" using fam(1) z T(1) a(1) by (cases T) auto
  have P: "?P \<noteq> 0 \<Longrightarrow> ?P \<in> set_tree T \<and> (rb_left (rbn t ?P) = a \<or> rb_right (rbn t ?P) = a)" using fam(1) by auto
  have c: "c = 0 \<or> c \<in> set_tree T - {a, ?P}" using fam(2,3) by (auto simp: c_def)
  have a1: "a \<noteq> 0" using a(1) z by metis
  have a0: "a \<noteq> 0" "?P \<noteq> a" using a1 P fam(2,3) by fastforce+
  define pp where "pp = (if ?P = 0 then RootLink k else if rb_left (rbn t ?P) = a then LeftLink ?P else RightLink ?P)"
  define t1 where "t1 = (if c = 0 then write_link pp 0 t else upd_rb c (\<lambda>n. n\<lparr>rb_parent := ?P\<rparr>) (write_link pp c t))"
  define t' where "t' = upd_rb a (\<lambda>n. n\<lparr>rb_left := 0, rb_right := 0\<rparr>) t1"
  have run: "rbtree_delete k a t = Some t'"
    unfolding rbtree_delete.simps [of k a t] Let_def using one P by (auto simp: t'_def t1_def pp_def c_def)
  have li: "lifted t t' a c"
    using c a0 by (auto simp: lifted_def Let_def t'_def t1_def pp_def)
  have root: "rb_root t' k = (if rb_root t k = a then c else rb_root t k)" "\<forall>j. j \<noteq> k \<longrightarrow> rb_root t' j = rb_root t j"
    using top by (auto simp: t'_def t1_def pp_def)
  have "rbt t' 0 (rb_root t' k) (cut a T)"
    unfolding root(1) using lift_tree [OF T z a li] by (simp add: c_def)
  moreover have "rb_left (rbn t' a) = 0" "rb_right (rbn t' a) = 0" by (simp_all add: t'_def)
  moreover have "rbn t' b = rbn t b" if "b \<notin> set_tree T" for b
    using that c a P by (auto simp: t'_def t1_def pp_def)
  ultimately show ?thesis using run root(2) by blast
qed

section \<open>Properties\<close>

lemma cyclic_no_tree: "rb_right (rbn t r) = r \<Longrightarrow> r \<noteq> 0 \<Longrightarrow> \<not> rbt t par r T"
  by (induction T arbitrary: par) auto

text \<open>
  C26. \<^verbatim>\<open>rbtree_delete\<close> of a node with at most one child takes exactly this node out of the
  tree: the rest stays a tree with correct parent pointers, in the same order, the
  removed node has no children left, and no node outside the tree and no other tree
  changes.
\<close>

theorem rbtree_delete_correct:
  assumes "rbt t 0 (rb_root t k) T" "distinct (inorder T)" "a \<in> set_tree T" "one_child a T"
  shows "\<exists>t' T'. rbtree_delete k a t = Some t' \<and> rbt t' 0 (rb_root t' k) T' \<and> inorder T' = remove1 a (inorder T) \<and>
    rb_left (rbn t' a) = 0 \<and> rb_right (rbn t' a) = 0 \<and>
    (\<forall>b. b \<notin> set_tree T \<longrightarrow> rbn t' b = rbn t b) \<and> (\<forall>j. j \<noteq> k \<longrightarrow> rb_root t' j = rb_root t j)"
  using delete_tree [OF assms] inorder_cut [OF assms(4,2)] by blast

text \<open>The tree with root 2 and children 1 and 3.\<close>

definition tree3 :: rbst where
  "tree3 = \<lparr>rbn = (\<lambda>_. \<lparr>rb_parent = 2, rb_right = 0, rb_left = 0\<rparr>)(2 := \<lparr>rb_parent = 0, rb_right = 3, rb_left = 1\<rparr>),
     rb_root = (\<lambda>_. 2)\<rparr>"

lemma tree3_tree: "rbt tree3 0 (rb_root tree3 0) (Node (Node Leaf 1 Leaf) 2 (Node Leaf 3 Leaf))"
  by (simp add: tree3_def)

theorem rbtree_delete_correct_witness:
  "\<exists>t' T'. rbtree_delete 0 3 tree3 = Some t' \<and> rbt t' 0 (rb_root t' 0) T' \<and> inorder T' = [1, 2]"
  using rbtree_delete_correct [OF tree3_tree, of 3] by auto

text \<open>
  C27. Deleting a node with two children whose right child has no left child destroys
  the tree: the right child becomes its own right child, below the place where the
  deleted node hung, so no tree hangs there any more and a walk to the right from there never ends.
\<close>

theorem rbtree_delete_two_children:
  assumes T: "rbt t 0 (rb_root t k) T" "distinct (inorder T)" and a: "a \<in> set_tree T"
    and ch: "rb_left (rbn t a) \<noteq> 0" "rb_right (rbn t a) = r" "r \<noteq> 0" "rb_left (rbn t r) = 0"
    and lk: "rb_parent (rbn t r) = a" "rb_left (rbn t a) \<noteq> r"
  shows "\<exists>t'. rbtree_delete k a t = Some t' \<and> rb_right (rbn t' r) = r \<and> (\<forall>par T'. \<not> rbt t' par r T') \<and>
    (rb_parent (rbn t a) = 0 \<longrightarrow> rb_root t' k = r)"
proof -
  have z: "0 \<notin> set_tree T" using rbt_nonzero [OF T(1)] .
  note fam = rbt_family [OF T z a]
  have a0: "a \<noteq> 0" using a z by metis
  have r: "r \<noteq> a" "r \<noteq> rb_parent (rbn t a)" using fam(3) ch by auto
  have P: "rb_parent (rbn t a) \<noteq> 0 \<Longrightarrow> rb_left (rbn t (rb_parent (rbn t a))) = a \<or> rb_right (rbn t (rb_parent (rbn t a))) = a" using fam(1) by auto
  have ml: "rb_mostleft t r = Some r" using ch by (simp add: rb_mostleft.simps [of t r])
  obtain t1 where t1: "rbtree_delete k r t = Some t1"
    unfolding rbtree_delete.simps [of k r t] Let_def using ch lk a0 by (cases "rb_right (rbn t r) = 0") auto
  define pp where "pp = (if rb_parent (rbn t a) = 0 then RootLink k
    else if rb_left (rbn t (rb_parent (rbn t a))) = a then LeftLink (rb_parent (rbn t a)) else RightLink (rb_parent (rbn t a)))"
  define t' where "t' = upd_rb a (\<lambda>n. n\<lparr>rb_left := 0, rb_right := 0\<rparr>) (write_link pp r
    (upd_rb r (\<lambda>n. n\<lparr>rb_right := r\<rparr>) (upd_rb r (\<lambda>n. n\<lparr>rb_left := rb_left (rbn t a)\<rparr>) t1)))"
  have t': "rbtree_delete k a t = Some t'"
    unfolding rbtree_delete.simps [of k a t] Let_def t'_def pp_def using ch P ml t1 by auto
  have "rb_right (rbn t' r) = r" "rb_parent (rbn t a) = 0 \<longrightarrow> rb_root t' k = r" using r by (auto simp: t'_def pp_def)
  then show ?thesis using t' cyclic_no_tree [of t' r] ch(3) by (intro exI [of _ t']) simp
qed

theorem rbtree_delete_two_children_witness:
  "\<exists>t'. rbtree_delete 0 2 tree3 = Some t' \<and> rb_right (rbn t' 3) = 3 \<and> rb_root t' 0 = 3"
  using rbtree_delete_two_children [OF tree3_tree, of 2 3] by (auto simp: tree3_def)

end
