(* ===== verification/Vma.thy ===== *)
theory Vma
  imports Slab_Props Paging Rbtree
begin

text \<open>
  Memory areas: \<^verbatim>\<open>kernel/mm/mm.c\<close>, \<^verbatim>\<open>include/mm/mm.h\<close> and \<^verbatim>\<open>kernel/syscall/brk.c\<close>. An area lies at the
  address that \<^verbatim>\<open>kmalloc\<close> gave it (0 for \<^verbatim>\<open>NULL\<close>); its fields are in \<open>vmas\<close>, its tree node
  \<^verbatim>\<open>vm_rb\<close> in the node store \<open>vm_rbs\<close>. A descriptor \<^verbatim>\<open>mm_struct\<close> is in \<open>mms\<close>, the root of its
  tree in the root store under the same address. \<open>vm_sl\<close> is the object allocator, with the
  page allocator and physical memory inside it.
\<close>

section \<open>Data\<close>

record vm_area_struct =
  vm_mm :: nat
  vm_next :: nat
  vm_start :: u32
  vm_end :: u32
  vm_flags :: u32

record mm_struct =
  mmap :: nat
  mm_pgd :: "nat option"
  free_area_cache :: u32
  start_code :: u32
  end_code :: u32
  start_data :: u32
  end_data :: u32
  start_brk :: u32
  end_brk :: u32
  start_stack :: u32
  mmap_count :: int
  mm_count :: atomic
  page_table_lock :: spinlock

record vmst =
  vm_sl :: slst
  vm_rbs :: rbst
  vmas :: "nat \<Rightarrow> vm_area_struct"
  mms :: "nat \<Rightarrow> mm_struct"

definition SIZEOF_VMA :: nat where "SIZEOF_VMA = 32"

definition SIZEOF_MM :: nat where "SIZEOF_MM = 56"

definition upd_vma :: "nat \<Rightarrow> (vm_area_struct \<Rightarrow> vm_area_struct) \<Rightarrow> vmst \<Rightarrow> vmst" where
  "upd_vma a f st = st\<lparr>vmas := (vmas st)(a := f (vmas st a))\<rparr>"

definition upd_mms :: "nat \<Rightarrow> (mm_struct \<Rightarrow> mm_struct) \<Rightarrow> vmst \<Rightarrow> vmst" where
  "upd_mms mm f st = st\<lparr>mms := (mms st)(mm := f (mms st mm))\<rparr>"

definition upd_tree :: "(rbst \<Rightarrow> rbst) \<Rightarrow> vmst \<Rightarrow> vmst" where
  "upd_tree f st = st\<lparr>vm_rbs := f (vm_rbs st)\<rparr>"

definition upd_pages :: "mmst \<Rightarrow> vmst \<Rightarrow> vmst" where
  "upd_pages s st = st\<lparr>vm_sl := (vm_sl st)\<lparr>sl_mm := s\<rparr>\<rparr>"

definition mm_lock :: "nat \<Rightarrow> vmst \<Rightarrow> vmst option" where
  "mm_lock mm st = do {
     lk \<leftarrow> spin_lock (page_table_lock (mms st mm));
     Some (upd_mms mm (\<lambda>m. m\<lparr>page_table_lock := lk\<rparr>) st) }"

definition mm_unlock :: "nat \<Rightarrow> vmst \<Rightarrow> vmst" where
  "mm_unlock mm = upd_mms mm (\<lambda>m. m\<lparr>page_table_lock := spin_unlock (page_table_lock m)\<rparr>)"

section \<open>Operations\<close>

definition alloc_mm :: "nat \<Rightarrow> vmst \<Rightarrow> (nat \<times> vmst) option" where
  "alloc_mm cpu st = do {
     (mm, sl) \<leftarrow> kmalloc cpu SIZEOF_MM (vm_sl st);
     let st1 = st\<lparr>vm_sl := sl\<rparr>;
     if mm = 0 then Some (0, st1)
     else Some (mm, upd_tree (RBTREE_ROOT_INIT mm) (st1\<lparr>mms := (mms st1)(mm :=
       \<lparr>mmap = 0, mm_pgd = None, free_area_cache = USER_UNNAME_ZONE, start_code = 0, end_code = 0, start_data = 0,
        end_data = 0, start_brk = 0, end_brk = 0, start_stack = 0, mmap_count = 0, mm_count = atomic_inc 0,
        page_table_lock = 0\<rparr>)\<rparr>)) }"

partial_function (option) vma_unmap_page :: "nat \<Rightarrow> u32 \<Rightarrow> u32 \<Rightarrow> mmst \<Rightarrow> mmst option" where
  "vma_unmap_page pgd start fin s =
     (if start < fin then do {
        s1 \<leftarrow> page_remove pgd start s;
        vma_unmap_page pgd (start + PAGE_SIZE) fin s1 }
      else Some s)"

partial_function (option) find_vma_loop :: "vmst \<Rightarrow> u32 \<Rightarrow> nat \<Rightarrow> nat \<Rightarrow> nat option" where
  "find_vma_loop st addr rb vma =
     (if rb = 0 then Some vma
      else if vm_end (vmas st rb) > addr then
        if vm_start (vmas st rb) \<le> addr then Some rb
        else find_vma_loop st addr (rb_left (rbn (vm_rbs st) rb)) rb
      else find_vma_loop st addr (rb_right (rbn (vm_rbs st) rb)) vma)"

definition find_vma :: "nat \<Rightarrow> u32 \<Rightarrow> vmst \<Rightarrow> nat option" where
  "find_vma mm addr st = find_vma_loop st addr (rb_root (vm_rbs st) mm) 0"

partial_function (option) find_vma_prev_loop :: "vmst \<Rightarrow> u32 \<Rightarrow> nat \<Rightarrow> nat \<Rightarrow> nat option" where
  "find_vma_prev_loop st addr rb vma =
     (if rb = 0 then Some vma
      else if vm_end (vmas st rb) < addr then
        if vm_start (vmas st rb) \<le> addr then Some rb
        else find_vma_prev_loop st addr (rb_left (rbn (vm_rbs st) rb)) rb
      else find_vma_prev_loop st addr (rb_right (rbn (vm_rbs st) rb)) vma)"

definition find_vma_prev :: "nat \<Rightarrow> u32 \<Rightarrow> vmst \<Rightarrow> nat option" where
  "find_vma_prev mm addr st = find_vma_prev_loop st addr (rb_root (vm_rbs st) mm) 0"

text \<open>The loop of \<^verbatim>\<open>get_unmapped_vma\<close> for a call without an address.\<close>

partial_function (option) unmapped_scan :: "nat \<Rightarrow> u32 \<Rightarrow> u32 \<Rightarrow> u32 \<Rightarrow> nat \<Rightarrow> vmst \<Rightarrow> (u32 \<times> vmst) option" where
  "unmapped_scan mm len start_addr addr vma st =
     (if addr + len > KERNEL_BASE_ADDR \<and> start_addr = 0x40000000 then Some (0, st)
      else do {
        (start_addr, addr, vma) \<leftarrow>
          (if addr + len > KERNEL_BASE_ADDR then do { v \<leftarrow> find_vma mm 0x40000000 st; Some (0x40000000, 0x40000000, v) }
           else Some (start_addr, addr, vma));
        if vma = 0 \<or> addr + len \<le> vm_start (vmas st vma)
        then Some (addr, upd_mms mm (\<lambda>m. m\<lparr>free_area_cache := addr + len\<rparr>) st)
        else unmapped_scan mm len start_addr (vm_end (vmas st vma)) (vm_next (vmas st vma)) st })"

definition get_unmapped_vma :: "nat \<Rightarrow> u32 \<Rightarrow> u32 \<Rightarrow> vmst \<Rightarrow> (u32 \<times> vmst) option" where
  "get_unmapped_vma mm addr len st =
     (if len > KERNEL_BASE_ADDR then Some (0, st)
      else if addr \<noteq> 0 then do {
        vma \<leftarrow> find_vma mm addr st;
        Some (if KERNEL_BASE_ADDR \<ge> addr + len \<and> (vma = 0 \<or> addr + len \<le> vm_start (vmas st vma)) then addr else 0, st) }
      else do {
        let a = free_area_cache (mms st mm);
        vma \<leftarrow> find_vma mm a st;
        unmapped_scan mm len a a vma st })"

text \<open>The loop of \<^verbatim>\<open>vm_link\<close>: the empty place for an area that ends at \<open>addr\<close>, and its parent.\<close>

partial_function (option) link_place :: "vmst \<Rightarrow> u32 \<Rightarrow> rb_link \<Rightarrow> nat \<Rightarrow> (rb_link \<times> nat) option" where
  "link_place st addr rb parent =
     (let n = read_link (vm_rbs st) rb in
      if n = 0 then Some (rb, parent)
      else if vm_end (vmas st n) > addr then link_place st addr (LeftLink n) n
      else link_place st addr (RightLink n) n)"

definition vm_link :: "nat \<Rightarrow> nat \<Rightarrow> vmst \<Rightarrow> vmst option" where
  "vm_link mm vmp st = do {
     vma \<leftarrow> find_vma_prev mm (vm_start (vmas st vmp)) st;
     let st1 = (if vma = 0 then
          upd_mms mm (\<lambda>m. m\<lparr>mmap := vmp\<rparr>) (upd_vma vmp (\<lambda>v. v\<lparr>vm_next := mmap (mms st mm)\<rparr>) st)
        else upd_vma vma (\<lambda>v. v\<lparr>vm_next := vmp\<rparr>) (upd_vma vmp (\<lambda>v. v\<lparr>vm_next := vm_next (vmas st vma)\<rparr>) st));
     (rb, parent) \<leftarrow> link_place st1 (vm_end (vmas st vmp)) (RootLink mm) 0;
     let st2 = upd_tree (rb_link_node vmp parent rb) st1;
     Some (upd_mms mm (\<lambda>m. m\<lparr>mmap_count := mmap_count m + 1\<rparr>) st2) }"

definition create_vma :: "nat \<Rightarrow> nat \<Rightarrow> u32 \<Rightarrow> u32 \<Rightarrow> u32 \<Rightarrow> vmst \<Rightarrow> (nat \<times> vmst) option" where
  "create_vma cpu mm addr len flags st = do {
     kassert (mm \<noteq> 0);
     if ROUNDDOWN addr PAGE_SIZE = 0 then Some (0, st)
     else do {
       st1 \<leftarrow> mm_lock mm st;
       (addr, st2) \<leftarrow> get_unmapped_vma mm addr len st1;
       if addr = 0 then Some (0, mm_unlock mm st2)
       else do {
         (vma, sl) \<leftarrow> kmalloc cpu SIZEOF_VMA (vm_sl st2);
         let st3 = st2\<lparr>vm_sl := sl\<rparr>;
         if vma = 0 then Some (0, mm_unlock mm st3)
         else do {
           let st4 = st3\<lparr>vmas := (vmas st3)(vma := \<lparr>vm_mm = mm, vm_next = 0, vm_start = ROUNDDOWN addr PAGE_SIZE,
                vm_end = ROUNDDOWN addr PAGE_SIZE + ROUNDUP len PAGE_SIZE, vm_flags = flags\<rparr>)\<rparr>;
           st5 \<leftarrow> vm_link mm vma st4;
           Some (vma, mm_unlock mm st5) } } } }"

definition vm_link_del :: "nat \<Rightarrow> nat \<Rightarrow> vmst \<Rightarrow> vmst option" where
  "vm_link_del mm vmp st = do {
     kassert (mm \<noteq> 0 \<and> vmp \<noteq> 0);
     vma \<leftarrow> find_vma mm (vm_start (vmas st vmp)) st;
     if vma \<noteq> vmp then Some st
     else do {
       tmp \<leftarrow> find_vma_prev mm (vm_start (vmas st vmp)) st;
       rbs \<leftarrow> rbtree_delete mm vmp (vm_rbs st);
       let st1 = upd_mms mm (\<lambda>m. m\<lparr>mmap_count := mmap_count m - 1\<rparr>) (st\<lparr>vm_rbs := rbs\<rparr>);
       let st2 = (if tmp = 0 then upd_mms mm (\<lambda>m. m\<lparr>mmap := vm_next (vmas st1 vmp)\<rparr>) st1
                  else upd_vma tmp (\<lambda>v. v\<lparr>vm_next := vm_next (vmas st1 vma)\<rparr>) st1);
       Some (upd_vma vmp (\<lambda>v. v\<lparr>vm_next := 0\<rparr>) st2) } }"

definition delete_vma :: "nat \<Rightarrow> nat \<Rightarrow> vmst \<Rightarrow> vmst option" where
  "delete_vma cpu vma st = do {
     kassert (vma \<noteq> 0);
     let mm = vm_mm (vmas st vma);
     st1 \<leftarrow> mm_lock mm st;
     pgd \<leftarrow> mm_pgd (mms st1 mm);
     s \<leftarrow> vma_unmap_page pgd (vm_start (vmas st1 vma)) (vm_end (vmas st1 vma)) (sl_mm (vm_sl st1));
     st2 \<leftarrow> vm_link_del mm vma (upd_pages s st1);
     sl \<leftarrow> kfree cpu vma (vm_sl st2);
     Some (mm_unlock mm (st2\<lparr>vm_sl := sl\<rparr>)) }"

definition brk :: "nat \<Rightarrow> u32 \<Rightarrow> vmst \<Rightarrow> (u32 \<times> vmst) option" where
  "brk mm fin st =
     (if fin \<le> end_brk (mms st mm) then Some (end_brk (mms st mm), st)
      else do {
        st1 \<leftarrow> mm_lock mm st;
        vma \<leftarrow> find_vma mm (start_brk (mms st1 mm)) st1;
        kassert (vma \<noteq> 0 \<and> vm_start (vmas st1 vma) = start_brk (mms st1 mm));
        if fin \<le> vm_start (vmas st1 vma) then Some (vm_start (vmas st1 vma), st1)
        else do {
          let vma_next = vm_next (vmas st1 vma);
          let (va, st2) = (if vma_next = 0 \<or> vm_start (vmas st1 vma_next) \<ge> fin
            then (fin, upd_vma vma (\<lambda>v. v\<lparr>vm_end := fin\<rparr>) (upd_mms mm (\<lambda>m. m\<lparr>end_brk := fin\<rparr>) st1))
            else (0, st1));
          Some (va, mm_unlock mm st2) } })"

end
