(* ===== verification/Vma_Props.thy ===== *)
theory Vma_Props
  imports Vma
begin

text \<open>
  The areas of an address space are kept in a search tree ordered by address:
  \<open>vm_tree st mm T\<close> says that the tree of \<open>mm\<close> is \<open>T\<close> and that its areas are page aligned,
  not empty, below the kernel and pairwise disjoint in order.
\<close>

section \<open>Areas in order\<close>

abbreviation vstart :: "vmst \<Rightarrow> nat \<Rightarrow> nat" where "vstart st a \<equiv> unat (vm_start (vmas st a))"
abbreviation vend :: "vmst \<Rightarrow> nat \<Rightarrow> nat" where "vend st a \<equiv> unat (vm_end (vmas st a))"

definition area_ok :: "vmst \<Rightarrow> nat \<Rightarrow> bool" where
  "area_ok st a \<longleftrightarrow> vstart st a < vend st a \<and> 4096 dvd vstart st a \<and> 4096 dvd vend st a \<and> vend st a \<le> unat KERNEL_BASE_ADDR"

definition area_list :: "vmst \<Rightarrow> nat list \<Rightarrow> bool" where
  "area_list st xs \<longleftrightarrow> sorted_wrt (\<lambda>a b. vend st a \<le> vstart st b) xs \<and> (\<forall>a\<in>set xs. area_ok st a)"

definition vm_tree :: "vmst \<Rightarrow> nat \<Rightarrow> nat tree \<Rightarrow> bool" where
  "vm_tree st mm T \<longleftrightarrow> rbt (vm_rbs st) 0 (rb_root (vm_rbs st) mm) T \<and> distinct (inorder T) \<and> area_list st (inorder T)"

text \<open>The first area of a list that ends above an address.\<close>

definition first_above :: "vmst \<Rightarrow> u32 \<Rightarrow> nat list \<Rightarrow> nat option" where
  "first_above st addr = List.find (\<lambda>a. addr < vm_end (vmas st a))"

lemma find_append: "List.find P (xs @ ys) = (case List.find P xs of None \<Rightarrow> List.find P ys | Some x \<Rightarrow> Some x)"
  by (induction xs) auto

lemma find_split: "List.find P xs = Some v \<Longrightarrow> \<exists>ys zs. xs = ys @ v # zs \<and> (\<forall>y\<in>set ys. \<not> P y) \<and> P v"
proof (induction xs)
  case (Cons x xs)
  show ?case
  proof (cases "P x")
    case True
    then show ?thesis using Cons.prems by (intro exI [of _ "[]"] exI [of _ xs]) auto
  next
    case False
    then obtain ys zs where "xs = ys @ v # zs \<and> (\<forall>y\<in>set ys. \<not> P y) \<and> P v" using Cons by auto
    then show ?thesis using False by (intro exI [of _ "x # ys"] exI [of _ zs]) simp
  qed
qed simp

lemma area_list_node:
  "area_list st (inorder (Node l b r)) \<longleftrightarrow> area_list st (inorder l) \<and> area_list st (inorder r) \<and> area_ok st b \<and>
     (\<forall>a\<in>set_tree l. vend st a \<le> vstart st b) \<and> (\<forall>a\<in>set_tree r. vend st b \<le> vstart st a) \<and>
     (\<forall>a\<in>set_tree l. \<forall>c\<in>set_tree r. vend st a \<le> vstart st c)"
  by (auto simp: area_list_def sorted_wrt_append)

lemma find_vma_tree:
  assumes "rbt (vm_rbs st) par p T" "area_list st (inorder T)"
  shows "find_vma_loop st addr p v = Some (case first_above st addr (inorder T) of None \<Rightarrow> v | Some a \<Rightarrow> a)"
  using assms
proof (induction T arbitrary: par p v)
  case Leaf
  then show ?case by (simp add: find_vma_loop.simps [of st addr 0] first_above_def)
next
  case (Node l b r)
  note ar = Node.prems(2) [unfolded area_list_node area_ok_def]
  have low: "List.find (\<lambda>a. addr < vm_end (vmas st a)) (inorder l) = None" if "vm_start (vmas st b) \<le> addr \<or> \<not> addr < vm_end (vmas st b)"
    unfolding find_None_iff using ar that by (force simp: word_less_nat_alt word_le_nat_alt)
  show ?case
    using Node.IH(1) [of b "rb_left (rbn (vm_rbs st) b)" b] Node.IH(2) [of b "rb_right (rbn (vm_rbs st) b)" v] Node.prems(1) ar low
    by (simp add: find_vma_loop.simps [of st addr b] first_above_def find_append split: option.split)
qed

lemma find_vma_spec:
  assumes "vm_tree st mm T"
  shows "find_vma mm addr st = Some (case first_above st addr (inorder T) of None \<Rightarrow> 0 | Some a \<Rightarrow> a)"
  using find_vma_tree assms by (auto simp: vm_tree_def find_vma_def)

lemma first_above_None: "first_above st addr xs = None \<longleftrightarrow> (\<forall>a\<in>set xs. vend st a \<le> unat addr)"
  by (auto simp: first_above_def find_None_iff word_less_nat_alt not_less)

lemma first_above_in: "first_above st addr xs = Some v \<Longrightarrow> v \<in> set xs \<and> unat addr < vend st v"
  unfolding first_above_def by (drule find_split) (auto simp: word_less_nat_alt)

lemma first_above_Some:
  assumes "first_above st addr xs = Some v" "area_list st xs" "a \<in> set xs"
  shows "unat addr < vend st a \<longleftrightarrow> vstart st v \<le> vstart st a"
proof -
  obtain ys zs where e: "xs = ys @ v # zs" "\<forall>y\<in>set ys. \<not> addr < vm_end (vmas st y)" "addr < vm_end (vmas st v)"
    using find_split [OF assms(1) [unfolded first_above_def]] by blast
  have o: "a \<in> set ys \<Longrightarrow> vend st a \<le> vstart st v \<and> vstart st a < vend st a" "a \<in> set zs \<Longrightarrow> vend st v \<le> vstart st a \<and> vstart st a < vend st a"
    "vstart st v < vend st v" using assms(2) e(1) by (auto simp: area_list_def sorted_wrt_append area_ok_def)
  consider "a = v" | "a \<in> set ys" | "a \<in> set zs" using assms(3) e(1) by auto
  then show ?thesis
  proof cases
    case 2
    then have "vend st a \<le> unat addr" using e(2) by (simp add: word_less_nat_alt not_less)
    then show ?thesis using o(1) [OF 2] by linarith
  qed (use o e(3) in \<open>simp_all add: word_less_nat_alt\<close>)
qed

section \<open>Linking an area into the tree\<close>

fun ins :: "vmst \<Rightarrow> nat \<Rightarrow> nat tree \<Rightarrow> nat tree" where
  "ins st x Leaf = Node Leaf x Leaf"
| "ins st x (Node l b r) = (if vm_end (vmas st b) > vm_end (vmas st x) then Node (ins st x l) b r else Node l b (ins st x r))"

lemma set_ins [simp]: "set_tree (ins st x T) = insert x (set_tree T)"
  by (induction T) auto

lemma distinct_ins: "distinct (inorder T) \<Longrightarrow> x \<notin> set_tree T \<Longrightarrow> distinct (inorder (ins st x T))"
  by (induction T) auto

lemma area_list_ins:
  assumes "area_list st (inorder T)" "area_ok st x"
    "\<forall>a\<in>set_tree T. (vend st a \<le> vend st x \<longrightarrow> vend st a \<le> vstart st x) \<and> (vend st x < vend st a \<longrightarrow> vend st x \<le> vstart st a)"
  shows "area_list st (inorder (ins st x T))"
  using assms
proof (induction T)
  case Leaf
  then show ?case by (simp add: area_list_def)
next
  case (Node l b r)
  note ar = Node.prems(1) [unfolded area_list_node]
  have gap: "vend st b \<le> vend st x \<longrightarrow> vend st b \<le> vstart st x" "vend st x < vend st b \<longrightarrow> vend st x \<le> vstart st b" "vstart st b < vend st b"
    using Node.prems(3) ar by (auto simp: area_ok_def)
  show ?case
  proof (cases "vm_end (vmas st b) > vm_end (vmas st x)")
    case True
    then have "\<forall>c\<in>set_tree r. vend st x \<le> vstart st c" using gap ar by (fastforce simp: word_less_nat_alt)
    then have "area_list st (inorder (Node (ins st x l) b r))"
      unfolding area_list_node using True ar gap Node.IH(1) Node.prems(2,3) by (simp add: word_less_nat_alt)
    then show ?thesis using True by simp
  next
    case False
    then have "\<forall>c\<in>set_tree l. vend st c \<le> vstart st x" using gap ar by (fastforce simp: word_less_nat_alt)
    then have "area_list st (inorder (Node l b (ins st x r)))"
      unfolding area_list_node using False ar gap Node.IH(2) Node.prems(2,3) by (simp add: word_less_nat_alt)
    then show ?thesis using False by simp
  qed
qed

definition same_areas :: "vmst \<Rightarrow> vmst \<Rightarrow> bool" where
  "same_areas st st' \<longleftrightarrow> (\<forall>a. vm_start (vmas st' a) = vm_start (vmas st a) \<and> vm_end (vmas st' a) = vm_end (vmas st a))"

lemma same_areas_cong:
  assumes "same_areas st st'"
  shows "area_ok st' = area_ok st" "area_list st' = area_list st" "ins st' x T = ins st x T"
proof -
  show "area_ok st' = area_ok st" using assms by (simp add: fun_eq_iff same_areas_def area_ok_def)
  then show "area_list st' = area_list st" using assms by (simp add: fun_eq_iff same_areas_def area_list_def)
  show "ins st' x T = ins st x T" using assms by (induction T) (simp_all add: same_areas_def)
qed

lemma area_list_cong: "\<forall>a\<in>set xs. vmas st' a = vmas st a \<Longrightarrow> area_list st' xs = area_list st xs"
  by (induction xs) (auto simp: area_list_def area_ok_def)

lemma link_place_tree:
  assumes "rbt (vm_rbs st) par p T" "read_link (vm_rbs st) rb = p" "par \<notin> set_tree T" "distinct (inorder T)"
    and x: "x \<notin> set_tree T" "x \<noteq> 0" "x \<noteq> par" "rb_left (rbn (vm_rbs st) x) = 0" "rb_right (rbn (vm_rbs st) x) = 0"
  shows "\<exists>rb' par'. link_place st (vm_end (vmas st x)) rb par = Some (rb', par') \<and>
    (if T = Leaf then rb' = rb \<and> par' = par else par' \<in> set_tree T \<and> rb' \<in> {LeftLink par', RightLink par'}) \<and>
    (rb \<notin> {LeftLink x, RightLink x} \<longrightarrow> rbt (rb_link_node x par' rb' (vm_rbs st)) par (if T = Leaf then x else p) (ins st x T))"
  using assms
proof (induction T arbitrary: par p rb)
  case Leaf
  then have "link_place st (vm_end (vmas st x)) rb par = Some (rb, par)" by (simp add: link_place.simps [of st _ rb])
  then show ?case using Leaf by (cases rb) (auto simp: rb_link_node_def)
next
  case (Node l b r)
  let ?t = "vm_rbs st" let ?e = "vm_end (vmas st x)"
  have tr: "p = b" "b \<noteq> 0" "rb_parent (rbn ?t b) = par" "rbt ?t b (rb_left (rbn ?t b)) l" "rbt ?t b (rb_right (rbn ?t b)) r"
    "b \<notin> set_tree l" "b \<notin> set_tree r" "x \<noteq> b" "set_tree l \<inter> set_tree r = {}" using Node.prems by auto
  show ?case
  proof (cases "vm_end (vmas st b) > ?e")
    case True
    obtain rb' par' where i: "link_place st ?e (LeftLink b) b = Some (rb', par')"
      "if l = Leaf then rb' = LeftLink b \<and> par' = b else par' \<in> set_tree l \<and> rb' \<in> {LeftLink par', RightLink par'}"
      "rbt (rb_link_node x par' rb' ?t) b (if l = Leaf then x else rb_left (rbn ?t b)) (ins st x l)"
      using Node.IH(1) [OF tr(4), of "LeftLink b"] tr Node.prems by auto
    have "\<forall>a\<in>set_tree r. rbn (rb_link_node x par' rb' ?t) a = rbn ?t a"
      using i(2) tr Node.prems(5) by (auto simp: rb_link_node_def split: if_splits)
    then have r: "rbt (rb_link_node x par' rb' ?t) q c r = rbt ?t q c r" for q c by (rule rbt_cong)
    have "rbn (rb_link_node x par' rb' ?t) b = (if l = Leaf then (rbn ?t b)\<lparr>rb_left := x\<rparr> else rbn ?t b)"
      using i(2) tr by (auto simp: rb_link_node_def split: if_splits)
    then have "rbt (rb_link_node x par' rb' ?t) par b (Node (ins st x l) b r)" using i(3) tr r by (auto split: if_splits)
    then show ?thesis using i(1,2) True tr Node.prems(2) by (intro exI [of _ rb'] exI [of _ par']) (auto simp: link_place.simps [of st _ rb] split: if_splits)
  next
    case False
    obtain rb' par' where i: "link_place st ?e (RightLink b) b = Some (rb', par')"
      "if r = Leaf then rb' = RightLink b \<and> par' = b else par' \<in> set_tree r \<and> rb' \<in> {LeftLink par', RightLink par'}"
      "rbt (rb_link_node x par' rb' ?t) b (if r = Leaf then x else rb_right (rbn ?t b)) (ins st x r)"
      using Node.IH(2) [OF tr(5), of "RightLink b"] tr Node.prems by auto
    have "\<forall>a\<in>set_tree l. rbn (rb_link_node x par' rb' ?t) a = rbn ?t a"
      using i(2) tr Node.prems(5) by (auto simp: rb_link_node_def split: if_splits)
    then have l: "rbt (rb_link_node x par' rb' ?t) q c l = rbt ?t q c l" for q c by (rule rbt_cong)
    have "rbn (rb_link_node x par' rb' ?t) b = (if r = Leaf then (rbn ?t b)\<lparr>rb_right := x\<rparr> else rbn ?t b)"
      using i(2) tr by (auto simp: rb_link_node_def split: if_splits)
    then have "rbt (rb_link_node x par' rb' ?t) par b (Node l b (ins st x r))" using i(3) tr l by (auto split: if_splits)
    then show ?thesis using i(1,2) False tr Node.prems(2) by (intro exI [of _ rb'] exI [of _ par']) (auto simp: link_place.simps [of st _ rb] split: if_splits)
  qed
qed

lemma find_vma_prev_total:
  assumes "rbt (vm_rbs st) par p T"
  shows "\<exists>w. find_vma_prev_loop st addr p v = Some w \<and> (w = v \<or> w \<in> set_tree T)"
  using assms
proof (induction T arbitrary: par p v)
  case Leaf
  then show ?case by (simp add: find_vma_prev_loop.simps [of st addr 0])
next
  case (Node l b r)
  then show ?case
    using Node.IH(1) [of b "rb_left (rbn (vm_rbs st) b)" b] Node.IH(2) [of b "rb_right (rbn (vm_rbs st) b)" v]
    by (auto simp: find_vma_prev_loop.simps [of st addr b])
qed

lemma vm_link_spec:
  assumes T: "vm_tree st mm T" and x: "x \<notin> set_tree T" "x \<noteq> 0" "rb_left (rbn (vm_rbs st) x) = 0" "rb_right (rbn (vm_rbs st) x) = 0" "area_ok st x"
    and gap: "\<forall>a\<in>set_tree T. (vend st a \<le> vend st x \<longrightarrow> vend st a \<le> vstart st x) \<and> (vend st x < vend st a \<longrightarrow> vend st x \<le> vstart st a)"
  shows "\<exists>st'. vm_link mm x st = Some st' \<and> vm_tree st' mm (ins st x T) \<and> same_areas st st' \<and> vm_sl st' = vm_sl st \<and>
    (\<forall>j. page_table_lock (mms st' j) = page_table_lock (mms st j)) \<and>
    (\<forall>b. b \<notin> insert x (set_tree T) \<longrightarrow> rbn (vm_rbs st') b = rbn (vm_rbs st) b) \<and> (\<forall>j. j \<noteq> mm \<longrightarrow> rb_root (vm_rbs st') j = rb_root (vm_rbs st) j)"
proof -
  have tr: "rbt (vm_rbs st) 0 (rb_root (vm_rbs st) mm) T" "distinct (inorder T)" "area_list st (inorder T)" using T by (simp_all add: vm_tree_def)
  obtain v where v: "find_vma_prev mm (vm_start (vmas st x)) st = Some v" using find_vma_prev_total [OF tr(1)] by (auto simp: find_vma_prev_def)
  define st1 where "st1 = (if v = 0 then upd_mms mm (\<lambda>m. m\<lparr>mmap := x\<rparr>) (upd_vma x (\<lambda>v. v\<lparr>vm_next := mmap (mms st mm)\<rparr>) st)
        else upd_vma v (\<lambda>v. v\<lparr>vm_next := x\<rparr>) (upd_vma x (\<lambda>w. w\<lparr>vm_next := vm_next (vmas st v)\<rparr>) st))"
  have st1: "same_areas st st1" "vm_rbs st1 = vm_rbs st" "vm_sl st1 = vm_sl st" "\<forall>j. page_table_lock (mms st1 j) = page_table_lock (mms st j)"
    by (auto simp: st1_def upd_mms_def upd_vma_def same_areas_def)
  have z: "0 \<notin> set_tree T" using rbt_nonzero [OF tr(1)] .
  obtain rb par where l: "link_place st1 (vm_end (vmas st1 x)) (RootLink mm) 0 = Some (rb, par)"
    "if T = Leaf then rb = RootLink mm \<and> par = 0 else par \<in> set_tree T \<and> rb \<in> {LeftLink par, RightLink par}"
    "rbt (rb_link_node x par rb (vm_rbs st)) 0 (if T = Leaf then x else rb_root (vm_rbs st) mm) (ins st x T)"
    using link_place_tree [of st1 0 "rb_root (vm_rbs st) mm" T "RootLink mm" x] tr(1,2) z x(1-4) unfolding st1(2) same_areas_cong(3) [OF st1(1)] by auto
  define st' where "st' = upd_mms mm (\<lambda>m. m\<lparr>mmap_count := mmap_count m + 1\<rparr>) (upd_tree (rb_link_node x par rb) st1)"
  have run: "vm_link mm x st = Some st'"
    using v l(1) st1(1) unfolding vm_link_def st'_def by (simp add: Let_def st1_def [symmetric] same_areas_def)
  have rbs: "vm_rbs st' = rb_link_node x par rb (vm_rbs st)" by (simp add: st'_def upd_mms_def upd_tree_def st1(2))
  have sa: "same_areas st st'" using st1(1) by (simp add: st'_def same_areas_def upd_mms_def upd_tree_def)
  have root: "rb_root (vm_rbs st') mm = (if T = Leaf then x else rb_root (vm_rbs st) mm)" "\<forall>j. j \<noteq> mm \<longrightarrow> rb_root (vm_rbs st') j = rb_root (vm_rbs st) j"
    unfolding rbs rb_link_node_def using l(2) by (auto split: if_splits)
  have "area_list st (inorder (ins st x T))" by (rule area_list_ins [OF tr(3) x(5) gap])
  then have "vm_tree st' mm (ins st x T)"
    unfolding vm_tree_def root(1) same_areas_cong(2) [OF sa] using l(3) distinct_ins [OF tr(2) x(1)] unfolding rbs by simp
  moreover have "vm_sl st' = vm_sl st" "\<forall>j. page_table_lock (mms st' j) = page_table_lock (mms st j)"
    using st1(3,4) by (simp_all add: st'_def upd_mms_def upd_tree_def)
  moreover have "\<forall>b. b \<notin> insert x (set_tree T) \<longrightarrow> rbn (vm_rbs st') b = rbn (vm_rbs st) b"
    unfolding rbs rb_link_node_def using l(2) by (auto split: if_splits)
  ultimately show ?thesis using run sa root(2) by blast
qed

section \<open>Creating an area\<close>

lemma area_bounds:
  assumes "unat addr + unat len \<le> unat KERNEL_BASE_ADDR" "0 < len"
  defines "s \<equiv> ROUNDDOWN addr PAGE_SIZE" defines "e \<equiv> ROUNDDOWN addr PAGE_SIZE + ROUNDUP len PAGE_SIZE"
  shows "unat s \<le> unat addr" "unat s < unat e" "4096 dvd unat s" "4096 dvd unat e"
    "4096 dvd n \<Longrightarrow> unat addr + unat len \<le> n \<Longrightarrow> unat e \<le> n" "4096 dvd n \<Longrightarrow> n \<le> unat addr \<Longrightarrow> n \<le> unat s"
    "unat e = unat s + (unat len + 4095) div 4096 * 4096"
proof -
  let ?a = "unat addr" let ?l = "unat len"
  have l: "0 < ?l" using assms(2) by (simp add: word_less_nat_alt)
  have kb: "unat KERNEL_BASE_ADDR = 3221225472" by (simp add: KERNEL_BASE_ADDR_def)
  have s: "unat s = ?a div 4096 * 4096" by (simp add: s_def unat_ROUNDDOWN PAGE_SIZE_val minus_mod_eq_div_mult)
  have u: "unat (ROUNDUP len PAGE_SIZE) = (?l + 4095) div 4096 * 4096"
    using assms(1) kb by (subst unat_ROUNDUP) (simp_all add: PAGE_SIZE_val)
  have d: "x div 4096 * 4096 \<le> x" for x :: nat by simp
  show e: "unat e = unat s + (?l + 4095) div 4096 * 4096"
    unfolding e_def s_def [symmetric] using s u d [of ?a] d [of "?l + 4095"] assms(1) kb by (subst unat_add_lem [THEN iffD1]) simp_all
  show "unat s \<le> ?a" "4096 dvd unat s" "4096 dvd unat e" using s e by simp_all
  show "unat s < unat e" using e l by simp
  show "unat e \<le> n" if n: "4096 dvd n" "?a + ?l \<le> n"
  proof -
    obtain m where m: "n = 4096 * m" using n(1) by (auto elim: dvdE)
    have q: "4096 * (?a div 4096) \<le> ?a" by simp
    then have "?l \<le> 4096 * (m - ?a div 4096)" "?a div 4096 \<le> m" using n(2) m by (simp_all add: right_diff_distrib')
    then have "(?l + 4095) div 4096 < Suc (m - ?a div 4096)" by (intro less_mult_imp_div_less) simp
    then show ?thesis using \<open>?a div 4096 \<le> m\<close> unfolding e s m by simp
  qed
  show "n \<le> unat s" if n: "4096 dvd n" "n \<le> ?a"
  proof -
    obtain m where m: "n = 4096 * m" using n(1) by (auto elim: dvdE)
    then have "m \<le> ?a div 4096" using n(2) by (simp add: less_eq_div_iff_mult_less_eq mult.commute)
    then show ?thesis unfolding s m by simp
  qed
qed

lemma vm_tree_cong: "vm_rbs st' = vm_rbs st \<Longrightarrow> vmas st' = vmas st \<Longrightarrow> vm_tree st' mm T = vm_tree st mm T"
  by (simp add: vm_tree_def area_list_def area_ok_def)

text \<open>\<open>fits st T addr len\<close>: the range lies in user memory above the first page and meets no area.\<close>

definition fits :: "vmst \<Rightarrow> nat tree \<Rightarrow> u32 \<Rightarrow> u32 \<Rightarrow> bool" where
  "fits st T addr len \<longleftrightarrow> 4096 \<le> unat addr \<and> unat addr + unat len \<le> unat KERNEL_BASE_ADDR \<and>
     (\<forall>a\<in>set_tree T. vend st a \<le> unat addr \<or> unat addr + unat len \<le> vstart st a)"

lemma get_unmapped_spec:
  assumes T: "vm_tree st mm T" and a: "4096 \<le> unat addr" and w: "unat addr + unat len < 2 ^ 32" and len: "0 < len"
  shows "get_unmapped_vma mm addr len st = Some (if fits st T addr len then addr else 0, st)"
proof -
  have sum: "unat (addr + len) = unat addr + unat len" using w by (subst unat_add_lem [THEN iffD1]) simp_all
  have "addr \<noteq> 0" using a by auto
  moreover have "(case first_above st addr (inorder T) of None \<Rightarrow> True | Some v \<Rightarrow> unat addr + unat len \<le> vstart st v) \<longleftrightarrow>
    (\<forall>a\<in>set_tree T. vend st a \<le> unat addr \<or> unat addr + unat len \<le> vstart st a)"
  proof (cases "first_above st addr (inorder T)")
    case (Some v)
    have al: "area_list st (inorder T)" using T by (simp add: vm_tree_def)
    have v: "v \<in> set_tree T" "unat addr < vend st v" "\<And>a. a \<in> set_tree T \<Longrightarrow> unat addr < vend st a \<longleftrightarrow> vstart st v \<le> vstart st a"
      using first_above_in [OF Some] first_above_Some [OF Some al] by simp_all
    have "(unat addr + unat len \<le> vstart st v) \<longleftrightarrow> (\<forall>a\<in>set_tree T. unat addr < vend st a \<longrightarrow> unat addr + unat len \<le> vstart st a)"
      using v by (meson order_trans)
    then show ?thesis using Some by (auto simp: not_le)
  qed (use first_above_None [of st addr "inorder T"] in auto)
  moreover have "v \<noteq> 0" if "first_above st addr (inorder T) = Some v" for v
    using first_above_in [OF that] T rbt_nonzero [of "vm_rbs st" 0 _ T] by (metis set_inorder vm_tree_def)
  ultimately show ?thesis
    using a w unfolding get_unmapped_vma_def find_vma_spec [OF T] fits_def
    by (auto simp: word_le_nat_alt word_less_nat_alt sum split: option.splits)
qed

lemma kmalloc_vma:
  assumes "heap_state st U" "cpu < CPUNUMS"
  shows "\<exists>r st'. kmalloc cpu SIZEOF_VMA st = Some (r, st') \<and>
    (r = 0 \<and> heap_state st' U \<and> (\<forall>p j. 10 \<le> j \<longrightarrow> \<not> free_head (sl_mm st) ZNormal p j) \<or>
     r \<noteq> 0 \<and> (2, r) \<notin> U \<and> heap_state st' (insert (2, r) U))"
proof -
  obtain r st' c where k: "kmalloc cpu SIZEOF_VMA st = Some (r, st')" "c < 12" "32 \<le> cache_size c" "\<forall>j<c. cache_size j < 32"
    "r = 0 \<and> heap_state st' U \<and> (\<forall>p j. 10 \<le> j \<longrightarrow> \<not> free_head (sl_mm st) ZNormal p j) \<or>
     r \<noteq> 0 \<and> (c, r) \<notin> U \<and> heap_state st' (insert (c, r) U)"
    using kmalloc_spec [OF assms, of SIZEOF_VMA] by (auto simp: SIZEOF_VMA_def)
  have "c = 2" using class_cases [OF k(2)] k(3) k(4) [rule_format, of 2] by (auto simp: cache_sizes_def)
  then show ?thesis using k(1,5) by blast
qed

lemma gap_of_fits:
  assumes "fits st T addr len" "area_list st (inorder T)" "0 < len" "a \<in> set_tree T"
  defines "s \<equiv> ROUNDDOWN addr PAGE_SIZE" defines "e \<equiv> ROUNDDOWN addr PAGE_SIZE + ROUNDUP len PAGE_SIZE"
  shows "vend st a \<le> unat e \<longrightarrow> vend st a \<le> unat s" "unat e < vend st a \<longrightarrow> unat e \<le> vstart st a"
proof -
  have f: "unat addr + unat len \<le> unat KERNEL_BASE_ADDR" "vend st a \<le> unat addr \<or> unat addr + unat len \<le> vstart st a"
    using assms(1,4) by (auto simp: fits_def)
  have ok: "vstart st a < vend st a" "4096 dvd vstart st a" "4096 dvd vend st a" using assms(2,4) by (auto simp: area_list_def area_ok_def)
  note b = area_bounds [OF f(1) assms(3)]
  have "vend st a \<le> unat s \<or> unat e \<le> vstart st a"
    using f(2) b(6) [OF ok(3)] b(5) [OF ok(2)] unfolding s_def e_def by blast
  then show "vend st a \<le> unat e \<longrightarrow> vend st a \<le> unat s" "unat e < vend st a \<longrightarrow> unat e \<le> vstart st a"
    using ok(1) b(2) unfolding s_def e_def by linarith+
qed

text \<open>What a successful call leaves: the new area \<open>r\<close>, and the old ones as they were.\<close>

definition vma_created :: "vmst \<Rightarrow> nat \<Rightarrow> nat tree \<Rightarrow> u32 \<Rightarrow> u32 \<Rightarrow> u32 \<Rightarrow> nat \<Rightarrow> vmst \<Rightarrow> bool" where
  "vma_created st mm T addr len flags r st' \<longleftrightarrow> r \<noteq> 0 \<and> r \<notin> set_tree T \<and>
     (\<exists>T'. vm_tree st' mm T' \<and> set_tree T' = insert r (set_tree T)) \<and>
     vm_start (vmas st' r) = ROUNDDOWN addr PAGE_SIZE \<and> vend st' r = vstart st' r + (unat len + 4095) div 4096 * 4096 \<and>
     (\<forall>a. a \<noteq> r \<longrightarrow> vm_start (vmas st' a) = vm_start (vmas st a) \<and> vm_end (vmas st' a) = vm_end (vmas st a))"

lemma create_vma_spec:
  assumes heap: "heap_state (vm_sl st) U" "cpu < CPUNUMS"
    and T: "vm_tree st mm T" "mm \<noteq> 0" "\<forall>a\<in>set_tree T. (2, a) \<in> U" "page_table_lock (mms st mm) = 0"
    and nul: "\<forall>a. (2, a) \<notin> U \<longrightarrow> rb_left (rbn (vm_rbs st) a) = 0 \<and> rb_right (rbn (vm_rbs st) a) = 0"
    and rng: "0 < len" "unat addr + unat len < 2 ^ 32"
  shows "\<exists>r st'. create_vma cpu mm addr len flags st = Some (r, st') \<and> page_table_lock (mms st' mm) = 0 \<and>
    (r = 0 \<and> vm_tree st' mm T \<and> vmas st' = vmas st \<and> heap_state (vm_sl st') U \<and>
       (fits st T addr len \<longrightarrow> (\<forall>p j. 10 \<le> j \<longrightarrow> \<not> free_head (sl_mm (vm_sl st)) ZNormal p j)) \<or>
     fits st T addr len \<and> vma_created st mm T addr len flags r st' \<and> heap_state (vm_sl st') (insert (2, r) U))"
proof (cases "4096 \<le> unat addr")
  case False
  then have "ROUNDDOWN addr PAGE_SIZE = 0" by (simp add: unat_eq_0 [symmetric] unat_ROUNDDOWN PAGE_SIZE_val del: unat_eq_0)
  then show ?thesis using T heap False by (auto simp: create_vma_def fits_def)
next
  case True
  then have nz: "ROUNDDOWN addr PAGE_SIZE \<noteq> 0" "addr \<noteq> 0"
    by (auto simp: unat_eq_0 [symmetric] unat_ROUNDDOWN PAGE_SIZE_val minus_mod_eq_div_mult simp del: unat_eq_0)
  define st1 where "st1 = upd_mms mm (\<lambda>m. m\<lparr>page_table_lock := 1\<rparr>) st"
  have st1: "vm_rbs st1 = vm_rbs st" "vmas st1 = vmas st" "vm_sl st1 = vm_sl st" "mm_lock mm st = Some st1"
    using T(4) by (simp_all add: st1_def upd_mms_def mm_lock_def)
  have f1: "fits st1 T addr len = fits st T addr len" by (simp add: fits_def st1)
  have g: "get_unmapped_vma mm addr len st1 = Some (if fits st T addr len then addr else 0, st1)"
    using get_unmapped_spec [of st1 mm T addr len] T(1) vm_tree_cong [OF st1(1,2)] True rng f1 by simp
  show ?thesis
  proof (cases "fits st T addr len")
    case False
    have "vm_tree (mm_unlock mm st1) mm T" using T(1) vm_tree_cong [of "mm_unlock mm st1" st] by (simp add: mm_unlock_def upd_mms_def st1)
    then show ?thesis using False g T(2) nz heap by (auto simp: create_vma_def st1 mm_unlock_def upd_mms_def)
  next
    case fit: True
    obtain r sl where r: "kmalloc cpu SIZEOF_VMA (vm_sl st) = Some (r, sl)"
      "r = 0 \<and> heap_state sl U \<and> (\<forall>p j. 10 \<le> j \<longrightarrow> \<not> free_head (sl_mm (vm_sl st)) ZNormal p j) \<or>
       r \<noteq> 0 \<and> (2, r) \<notin> U \<and> heap_state sl (insert (2, r) U)" using kmalloc_vma [OF heap] by blast
    show ?thesis
    proof (cases "r = 0")
      case True
      have "vm_tree (mm_unlock mm (st1\<lparr>vm_sl := sl\<rparr>)) mm T"
        using T(1) vm_tree_cong [of "mm_unlock mm (st1\<lparr>vm_sl := sl\<rparr>)" st] by (simp add: mm_unlock_def upd_mms_def st1)
      then show ?thesis using fit g T(2) nz r True by (auto simp: create_vma_def st1 mm_unlock_def upd_mms_def Let_def)
    next
      case False
      let ?s = "ROUNDDOWN addr PAGE_SIZE" let ?e = "ROUNDDOWN addr PAGE_SIZE + ROUNDUP len PAGE_SIZE"
      define st4 where "st4 = st1\<lparr>vm_sl := sl, vmas := (vmas st)(r := \<lparr>vm_mm = mm, vm_next = 0, vm_start = ?s, vm_end = ?e, vm_flags = flags\<rparr>)\<rparr>"
      have rT: "r \<notin> set_tree T" using r(2) False T(3) by blast
      have old: "vmas st4 a = vmas st a" if "a \<in> set_tree T" for a using that rT by (auto simp: st4_def)
      have kb: "unat addr + unat len \<le> unat KERNEL_BASE_ADDR" using fit by (simp add: fits_def)
      note b = area_bounds [OF kb rng(1)]
      have al: "area_list st (inorder T)" using T(1) by (simp add: vm_tree_def)
      have "area_list st4 (inorder T) = area_list st (inorder T)" using old by (intro area_list_cong) simp
      then have t4: "vm_tree st4 mm T" using T(1) by (simp add: vm_tree_def st4_def st1)
      have ok: "area_ok st4 r" using b(2-4) b(5) [OF _ kb] by (simp add: area_ok_def st4_def KERNEL_BASE_ADDR_def)
      have "\<forall>a\<in>set_tree T. (vend st4 a \<le> vend st4 r \<longrightarrow> vend st4 a \<le> vstart st4 r) \<and> (vend st4 r < vend st4 a \<longrightarrow> vend st4 r \<le> vstart st4 a)"
        using gap_of_fits [OF fit al rng(1)] old by (simp add: st4_def)
      from vm_link_spec [OF t4 rT False _ _ ok this] nul r(2) False obtain st5 where l: "vm_link mm r st4 = Some st5" "vm_tree st5 mm (ins st4 r T)"
        "same_areas st4 st5" "vm_sl st5 = sl" "page_table_lock (mms st5 mm) = page_table_lock (mms st4 mm)" by (auto simp: st4_def st1)
      have run: "create_vma cpu mm addr len flags st = Some (r, mm_unlock mm st5)"
        using fit g T(2) nz r(1) False l(1) by (simp add: create_vma_def st1 Let_def st4_def)
      have "vm_tree (mm_unlock mm st5) mm (ins st4 r T)" using l(2) vm_tree_cong [of "mm_unlock mm st5" st5] by (simp add: mm_unlock_def upd_mms_def)
      then have "vma_created st mm T addr len flags r (mm_unlock mm st5)"
        unfolding vma_created_def using False rT l(3) b(7) by (intro conjI exI [of _ "ins st4 r T"])
          (auto simp: same_areas_def mm_unlock_def upd_mms_def st4_def)
      moreover have "heap_state (vm_sl (mm_unlock mm st5)) (insert (2, r) U)" "page_table_lock (mms (mm_unlock mm st5) mm) = 0"
        using r(2) False l(4) by (simp_all add: mm_unlock_def upd_mms_def)
      ultimately show ?thesis using run fit by blast
    qed
  qed
qed

lemma get_unmapped_wraps:
  "vm_tree st mm Leaf \<Longrightarrow> get_unmapped_vma mm 0xFFFFF000 0x2000 st = Some (0xFFFFF000, st)"
  by (simp add: get_unmapped_vma_def find_vma_spec first_above_def KERNEL_BASE_ADDR_def)

section \<open>Properties\<close>

text \<open>
  C28. On every area tree \<^verbatim>\<open>find_vma\<close> ends and returns the lowest area that ends above the
  address, or \<^verbatim>\<open>NULL\<close> if there is none, as a search through the list of areas would.
\<close>

theorem find_vma_correct:
  assumes "vm_tree st mm T"
  shows "find_vma mm addr st = Some (case first_above st addr (inorder T) of None \<Rightarrow> 0 | Some a \<Rightarrow> a)"
  by (rule find_vma_spec [OF assms])

definition blank_mm :: mm_struct where
  "blank_mm = \<lparr>mmap = 0, mm_pgd = None, free_area_cache = USER_UNNAME_ZONE, start_code = 0, end_code = 0, start_data = 0,
     end_data = 0, start_brk = 0, end_brk = 0, start_stack = 0, mmap_count = 0, mm_count = 1, page_table_lock = 0\<rparr>"

definition area :: "u32 \<Rightarrow> u32 \<Rightarrow> vm_area_struct" where
  "area s e = \<lparr>vm_mm = 7, vm_next = 0, vm_start = s, vm_end = e, vm_flags = 3\<rparr>"

definition blank_vm :: "slst \<Rightarrow> vmst" where
  "blank_vm sl = \<lparr>vm_sl = sl, vm_rbs = \<lparr>rbn = (\<lambda>_. \<lparr>rb_parent = 0, rb_right = 0, rb_left = 0\<rparr>), rb_root = (\<lambda>_. 0)\<rparr>,
     vmas = (\<lambda>_. area 0 0)(10 := area 0x1000 0x2000, 20 := area 0x3000 0x4000, 30 := area 0x5000 0x6000),
     mms = (\<lambda>_. blank_mm\<lparr>start_brk := 0x1000, end_brk := 0x2000\<rparr>)\<rparr>"

lemma blank_vm_tree: "vm_tree (blank_vm sl) mm Leaf"
  by (simp add: vm_tree_def blank_vm_def area_list_def)

theorem find_vma_correct_witness: "find_vma 7 0x1800 (blank_vm (boot_slab small_mm)) = Some 0 \<and>
    (\<exists>st. vm_link 7 10 (blank_vm (boot_slab small_mm)) = Some st \<and> find_vma 7 0x1800 st = Some 10)"
proof -
  have ok: "area_ok (blank_vm (boot_slab small_mm)) 10" by (simp add: area_ok_def blank_vm_def area_def KERNEL_BASE_ADDR_def)
  obtain st where st: "vm_link 7 10 (blank_vm (boot_slab small_mm)) = Some st" "vm_tree st 7 (Node Leaf 10 Leaf)" "same_areas (blank_vm (boot_slab small_mm)) st"
    using vm_link_spec [OF blank_vm_tree [of "boot_slab small_mm" 7], of 10] ok by (auto simp: blank_vm_def)
  have "vm_end (vmas st 10) = 0x2000" using st(3) by (simp add: same_areas_def blank_vm_def area_def)
  then show ?thesis using find_vma_correct [OF blank_vm_tree, of 7 "0x1800"] find_vma_correct [OF st(2), of "0x1800"] st(1)
    by (simp add: first_above_def)
qed

text \<open>
  C29. \<^verbatim>\<open>create_vma\<close> on a well-formed address space, called for a range of at least one byte
  that does not wrap around the end of the address space (\<open>0 < len\<close> and \<open>addr + len < 2\<^sup>3\<^sup>2\<close>),
  always returns, with its lock released. It makes an area exactly if the requested range
  starts above the first page, lies below the kernel and meets no area, and memory for the
  descriptor is left: then the new area starts at the page of the address, has the length
  rounded up to pages, is added to the old areas, and all areas are again page aligned,
  disjoint and in order. Otherwise it returns \<^verbatim>\<open>NULL\<close> and no area changes. Two things that the
  code does not see to are assumed: the range does not wrap (the code accepts some ranges
  that do), and unused descriptors have empty child links (the code never sets them).
\<close>

theorem create_vma_correct:
  assumes "heap_state (vm_sl st) U" "cpu < CPUNUMS"
    and "vm_tree st mm T" "mm \<noteq> 0" "\<forall>a\<in>set_tree T. (2, a) \<in> U" "page_table_lock (mms st mm) = 0"
    and "\<forall>a. (2, a) \<notin> U \<longrightarrow> rb_left (rbn (vm_rbs st) a) = 0 \<and> rb_right (rbn (vm_rbs st) a) = 0"
    and "0 < len" "unat addr + unat len < 2 ^ 32"
  shows "\<exists>r st'. create_vma cpu mm addr len flags st = Some (r, st') \<and> page_table_lock (mms st' mm) = 0 \<and>
    (r = 0 \<and> vm_tree st' mm T \<and> vmas st' = vmas st \<and> heap_state (vm_sl st') U \<and>
       (fits st T addr len \<longrightarrow> (\<forall>p j. 10 \<le> j \<longrightarrow> \<not> free_head (sl_mm (vm_sl st)) ZNormal p j)) \<or>
     fits st T addr len \<and> vma_created st mm T addr len flags r st' \<and> heap_state (vm_sl st') (insert (2, r) U))"
  by (rule create_vma_spec [OF assms])

theorem create_vma_correct_witness:
  "\<exists>s r st'. zone_init 1024 (small_mm\<lparr>max_pfn := 1024\<rparr>) = Some s \<and>
     create_vma 0 7 0x1234 0x1000 3 (blank_vm (slab_init (boot_slab s))) = Some (r, st') \<and>
     vma_created (blank_vm (slab_init (boot_slab s))) 7 Leaf 0x1234 0x1000 3 r st' \<and>
     create_vma 0 7 0xBFFFF000 0x2000 3 (blank_vm (slab_init (boot_slab s))) = Some (0, blank_vm (slab_init (boot_slab s)))"
proof -
  obtain s p j where s: "zone_init 1024 (small_mm\<lparr>max_pfn := 1024\<rparr>) = Some s" "heap_state (slab_init (boot_slab s)) {}"
    "10 \<le> j" "free_head (sl_mm (slab_init (boot_slab s))) ZNormal p j" using slab_boot by blast
  let ?st = "blank_vm (slab_init (boot_slab s))"
  have f: "fits ?st Leaf 0x1234 0x1000" by (simp add: fits_def KERNEL_BASE_ADDR_def)
  have b: "vm_sl ?st = slab_init (boot_slab s)" by (simp add: blank_vm_def)
  have "\<exists>r st'. create_vma 0 7 0x1234 0x1000 3 ?st = Some (r, st') \<and> page_table_lock (mms st' 7) = 0 \<and>
    (r = 0 \<and> vm_tree st' 7 Leaf \<and> vmas st' = vmas ?st \<and> heap_state (vm_sl st') {} \<and>
       (fits ?st Leaf 0x1234 0x1000 \<longrightarrow> (\<forall>p j. 10 \<le> j \<longrightarrow> \<not> free_head (sl_mm (vm_sl ?st)) ZNormal p j)) \<or>
     fits ?st Leaf 0x1234 0x1000 \<and> vma_created ?st 7 Leaf 0x1234 0x1000 3 r st' \<and> heap_state (vm_sl st') (insert (2, r) {}))"
    by (rule create_vma_correct) (use s(2) in \<open>simp_all add: blank_vm_tree b CPUNUMS_def\<close>, simp_all add: blank_vm_def blank_mm_def)
  then obtain r st' where r: "create_vma 0 7 0x1234 0x1000 3 ?st = Some (r, st')" "vma_created ?st 7 Leaf 0x1234 0x1000 3 r st'"
    using f s(3,4) b by auto
  have "create_vma 0 7 0xBFFFF000 0x2000 3 ?st = Some (0, ?st)"
    using get_unmapped_spec [of "upd_mms 7 (\<lambda>m. m\<lparr>page_table_lock := 1\<rparr>) ?st" 7 Leaf "0xBFFFF000" "0x2000"]
      vm_tree_cong [of "upd_mms 7 (\<lambda>m. m\<lparr>page_table_lock := 1\<rparr>) ?st" ?st] blank_vm_tree
    by (simp add: create_vma_def mm_lock_def mm_unlock_def upd_mms_def fits_def KERNEL_BASE_ADDR_def ROUNDDOWN_def PAGE_SIZE_val blank_vm_def blank_mm_def fun_eq_iff)
  then show ?thesis using s(1) r by blast
qed

text \<open>
  C30. \<^verbatim>\<open>brk\<close> can grow the heap over another area. It asks only for the successor on the list
  of areas, and \<^verbatim>\<open>vm_link\<close> does not keep that list in the order of addresses: after linking
  areas at pages 1, 3 and 5 the list is 1, 5, 3, and \<^verbatim>\<open>brk\<close> extends the first area up to
  page 5, across the area at page 3.
\<close>

theorem brk_overlaps:
  "\<exists>st1 st2 st3 st4. vm_link 7 10 (blank_vm sl) = Some st1 \<and> vm_link 7 20 st1 = Some st2 \<and> vm_link 7 30 st2 = Some st3 \<and>
     mmap (mms st3 7) = 10 \<and> vm_next (vmas st3 10) = 30 \<and> vm_next (vmas st3 30) = 20 \<and>
     brk 7 0x5000 st3 = Some (0x5000, st4) \<and> vm_end (vmas st4 10) = 0x5000 \<and> vm_start (vmas st4 20) = 0x3000"
proof -
  let ?n = "\<lambda>p r. \<lparr>rb_parent = p, rb_right = r, rb_left = 0 :: nat\<rparr>"
  note run = vm_link_def find_vma_prev_def find_vma_def brk_def mm_lock_def mm_unlock_def upd_mms_def upd_vma_def upd_tree_def rb_link_node_def
    upd_rb_def Let_def
  define st1 where "st1 = the (vm_link 7 10 (blank_vm sl))"
  have 1: "vm_link 7 10 (blank_vm sl) = Some st1" "vmas st1 = (vmas (blank_vm sl))(10 := area 0x1000 0x2000)"
    "vm_rbs st1 = \<lparr>rbn = (\<lambda>_. ?n 0 0), rb_root = (\<lambda>_. 0)(7 := 10)\<rparr>" "mmap (mms st1 7) = 10"
    "start_brk (mms st1 7) = 0x1000" "end_brk (mms st1 7) = 0x2000" "page_table_lock (mms st1 7) = 0"
    unfolding st1_def by (simp_all add: run blank_vm_def area_def blank_mm_def fun_eq_iff find_vma_prev_loop.simps [of _ _ 0] link_place.simps [of _ _ "RootLink 7"])
  define st2 where "st2 = the (vm_link 7 20 st1)"
  have 2: "vm_link 7 20 st1 = Some st2" "vmas st2 = (vmas st1)(10 := (area 0x1000 0x2000)\<lparr>vm_next := 20\<rparr>)"
    "vm_rbs st2 = \<lparr>rbn = (\<lambda>_. ?n 0 0)(10 := ?n 0 20, 20 := ?n 10 0), rb_root = (\<lambda>_. 0)(7 := 10)\<rparr>" "mms st2 7 = (mms st1 7)\<lparr>mmap_count := mmap_count (mms st1 7) + 1\<rparr>"
    unfolding st2_def by (simp_all add: run 1 blank_vm_def area_def fun_eq_iff find_vma_prev_loop.simps [of _ _ 10] link_place.simps [of _ _ "RootLink 7"] link_place.simps [of _ _ "RightLink 10"])
  define st3 where "st3 = the (vm_link 7 30 st2)"
  have 3: "vm_link 7 30 st2 = Some st3" "vmas st3 = (vmas st2)(10 := (area 0x1000 0x2000)\<lparr>vm_next := 30\<rparr>, 30 := (area 0x5000 0x6000)\<lparr>vm_next := 20\<rparr>)"
    "rb_root (vm_rbs st3) 7 = 10" "mms st3 7 = (mms st2 7)\<lparr>mmap_count := mmap_count (mms st2 7) + 1\<rparr>"
    unfolding st3_def by (simp_all add: run 1 2 blank_vm_def area_def fun_eq_iff find_vma_prev_loop.simps [of _ _ 10] link_place.simps [of _ _ "RootLink 7"] link_place.simps [of _ _ "RightLink 10"]
      link_place.simps [of _ _ "RightLink 20"])
  define st4 where "st4 = snd (the (brk 7 0x5000 st3))"
  have "brk 7 0x5000 st3 = Some (0x5000, st4)" "vm_end (vmas st4 10) = 0x5000" "vm_start (vmas st4 20) = 0x3000"
    unfolding st4_def by (simp_all add: run 1 2 3 blank_vm_def area_def find_vma_loop.simps [of _ _ 10])
  then show ?thesis using 1(1,4) 2(1,4) 3(1,2,4) by (intro exI [of _ st1] exI [of _ st2] exI [of _ st3] exI [of _ st4]) simp
qed

end
