(* ===== verification/Paging_Inv.thy ===== *)
theory Paging_Inv
  imports Paging
begin

text \<open>
  The meaning of page tables and the invariant of the address spaces: what the memory
  management unit reads from the tables, which frames hold tables, how often a frame is
  mapped, and that the reference counters say so.
\<close>

section \<open>What the tables mean\<close>

definition ef :: "u64 \<Rightarrow> nat" where
  "ef e = unat (drop_bit PAGE_SHIFT e)"

definition mk_entry :: "nat \<Rightarrow> u32 \<Rightarrow> u64" where
  "mk_entry p perm = of_nat (p * 2 ^ PAGE_SHIFT) OR ucast perm"

text \<open>
  The translation by the processor: the frame, and whether the mapping allows writing and
  user access. In the PAE format the first level carries no such permissions.
\<close>

definition mmu :: "mmst \<Rightarrow> nat \<Rightarrow> u32 \<Rightarrow> (nat \<times> bool \<times> bool) option" where
  "mmu s pgd va =
     (let e1 = pmem s pgd (pgd_index va); e2 = pmem s (ef e1) (pmd_index va);
          e3 = pmem s (ef e2) (pte_index va)
      in if pgd_present e1 \<and> pmd_present e2 \<and> pte_present e3
         then Some (ef e3, e2 AND ucast PAGE_RW \<noteq> 0 \<and> pte_write e3,
                    e2 AND ucast PAGE_USER \<noteq> 0 \<and> e3 AND ucast PAGE_USER \<noteq> 0)
         else None)"

text \<open>The tables of the user half of an address space, and the frame that holds each.\<close>

datatype tid = TPgd | TPmd nat | TPte nat nat

type_synonym slot = "nat \<times> nat \<times> nat"

definition tids :: "tid set" where
  "tids = {TPgd} \<union> TPmd ` {..<3} \<union> (\<lambda>(i, j). TPte i j) ` ({..<3} \<times> {..<512})"

definition pmd_tab :: "mmst \<Rightarrow> nat \<Rightarrow> nat \<Rightarrow> nat option" where
  "pmd_tab s pgd i = (if pmem s pgd i = 0 then None else Some (ef (pmem s pgd i)))"

fun tab :: "mmst \<Rightarrow> nat \<Rightarrow> tid \<Rightarrow> nat option" where
  "tab s pgd TPgd = Some pgd"
| "tab s pgd (TPmd i) = pmd_tab s pgd i"
| "tab s pgd (TPte i j) =
     (case pmd_tab s pgd i of None \<Rightarrow> None
      | Some f \<Rightarrow> if pmem s f j = 0 then None else Some (ef (pmem s f j)))"

definition slots :: "slot set" where
  "slots = {..<3} \<times> {..<512} \<times> {..<512}"

definition vslot :: "u32 \<Rightarrow> slot" where
  "vslot va = (pgd_index va, pmd_index va, pte_index va)"

definition pte :: "mmst \<Rightarrow> nat \<Rightarrow> slot \<Rightarrow> u64" where
  "pte s pgd v = (case v of (i, j, k) \<Rightarrow>
     case tab s pgd (TPte i j) of None \<Rightarrow> 0 | Some t \<Rightarrow> pmem s t k)"

text \<open>The places where the address spaces \<open>P\<close> map frame \<open>f\<close>.\<close>

definition maps :: "mmst \<Rightarrow> nat set \<Rightarrow> nat \<Rightarrow> (nat \<times> slot) set" where
  "maps s P f = {(pgd, v). pgd \<in> P \<and> v \<in> slots \<and> pte_present (pte s pgd v) \<and> ef (pte s pgd v) = f}"

section \<open>The invariant\<close>

definition tables_ok :: "nat set \<Rightarrow> mmst \<Rightarrow> bool" where
  "tables_ok P s \<longleftrightarrow>
     (\<forall>pgd\<in>P. \<forall>t\<in>tids. \<forall>f. tab s pgd t = Some f \<longrightarrow>
        in_zone s ZNormal f \<and> f \<notin> free_frames s ZNormal) \<and>
     (\<forall>pgd\<in>P. \<forall>pgd'\<in>P. \<forall>t\<in>tids. \<forall>t'\<in>tids. \<forall>f.
        tab s pgd t = Some f \<longrightarrow> tab s pgd' t' = Some f \<longrightarrow> pgd = pgd' \<and> t = t') \<and>
     (\<forall>pgd\<in>P. \<forall>i<3. pmem s pgd i \<noteq> 0 \<longrightarrow> pmem s pgd i AND 0xFFF = 1) \<and>
     (\<forall>pgd\<in>P. \<forall>i<3. \<forall>j<512. \<forall>f. tab s pgd (TPmd i) = Some f \<longrightarrow> pmem s f j \<noteq> 0 \<longrightarrow>
        pmem s f j AND 0xFFF = 7)"

definition is_table :: "nat set \<Rightarrow> mmst \<Rightarrow> nat \<Rightarrow> bool" where
  "is_table P s f \<longleftrightarrow> (\<exists>pgd\<in>P. \<exists>t\<in>tids. tab s pgd t = Some f)"

text \<open>
  A frame that user mappings may use. \<open>X f\<close> counts the references that are no mapping:
  those that a kernel path holds while it works on the frame.
\<close>

definition upage :: "nat set \<Rightarrow> (nat \<Rightarrow> nat) \<Rightarrow> mnode set \<Rightarrow> (mnode \<Rightarrow> mnode list) \<Rightarrow> mmst \<Rightarrow> nat \<Rightarrow> bool" where
  "upage P X H L s f \<longleftrightarrow>
     in_zone s ZNormal f \<and> f \<notin> free_frames s ZNormal \<and> pg_flags (mempage s f) AND pg_reserved = 0 \<and>
     \<not> is_table P s f \<and> unlisted UNIV H L {f} \<and>
     pg_nref (mempage s f) = of_nat (card (maps s P f) + X f) \<and> card (maps s P f) + X f < 2 ^ 32"

definition pinv :: "nat set \<Rightarrow> (nat \<Rightarrow> nat) \<Rightarrow> mnode set \<Rightarrow> (mnode \<Rightarrow> mnode list) \<Rightarrow> mmst \<Rightarrow> bool" where
  "pinv P X H L s \<longleftrightarrow>
     finite P \<and> binv UNIV H L s \<and> zone_layout s \<and> tables_ok P s \<and>
     (\<forall>f. maps s P f \<noteq> {} \<longrightarrow> upage P X H L s f)"

section \<open>Arithmetic of addresses and entries\<close>

lemma unat_lt2p: "unat (a::u32) < 2 ^ 32" "unat (b::u64) < 2 ^ 64"
  using unsigned_less [of a] unsigned_less [of b] by simp_all

lemma index_div:
  "pgd_index a = unat a div 2 ^ 30" "pmd_index a = unat a div 2 ^ 21 mod 512"
  "pte_index a = unat a div 2 ^ 12 mod 512"
proof -
  have m: "unat (drop_bit n a AND mask k) = unat a div 2 ^ n mod 2 ^ k" for n k
    unfolding take_bit_eq_mask [symmetric]
    by (simp only: unsigned_take_bit_eq unat_drop_bit_eq) (simp only: drop_bit_eq_div take_bit_eq_mod)
  show "pgd_index a = unat a div 2 ^ 30"
    using m [of 30 2] unat_lt2p(1) [of a]
    by (simp add: pgd_index_def PGDIR_SHIFT_def PTRS_PER_PGD_def mask_eq_exp_minus_1)
  show "pmd_index a = unat a div 2 ^ 21 mod 512" "pte_index a = unat a div 2 ^ 12 mod 512"
    using m [of 21 9] m [of 12 9]
    by (simp_all add: pmd_index_def pte_index_def PMD_SHIFT_def PAGE_SHIFT_def PTRS_PER_PMD_def
        PTRS_PER_PTE_def mask_eq_exp_minus_1)
qed

lemma index_lt [simp]: "pgd_index a < 4" "pmd_index a < 512" "pte_index a < 512"
  using unat_lt2p(1) [of a] by (simp_all add: index_div less_mult_imp_div_less)

lemma user_index: "a < KERNEL_BASE_ADDR \<Longrightarrow> pgd_index a < 3"
  by (simp add: index_div KERNEL_BASE_ADDR_def word_less_nat_alt less_mult_imp_div_less)

lemma vslot_slots [simp]: "a < KERNEL_BASE_ADDR \<Longrightarrow> vslot a \<in> slots"
  by (simp add: vslot_def slots_def user_index)

text \<open>Two addresses use the same slot exactly if they lie on the same page.\<close>

lemma vslot_eq: "vslot a = vslot b \<longleftrightarrow> unat a div 2 ^ PAGE_SHIFT = unat b div 2 ^ PAGE_SHIFT"
proof -
  have d: "unat a div 2 ^ 12 = unat a div 2 ^ 30 * 262144 + unat a div 2 ^ 21 mod 512 * 512 + unat a div 2 ^ 12 mod 512"
    for a :: u32
  proof -
    have "unat a div 2 ^ 21 = unat a div 2 ^ 12 div 512" "unat a div 2 ^ 30 = unat a div 2 ^ 12 div 512 div 512"
      by (simp_all flip: div_mult2_eq)
    moreover have "x = x div 512 div 512 * 262144 + x div 512 mod 512 * 512 + x mod 512" for x :: nat
      using div_mult_mod_eq [of x 512] div_mult_mod_eq [of "x div 512" 512] by linarith
    ultimately show ?thesis by metis
  qed
  show ?thesis
  proof
    assume "vslot a = vslot b"
    then show "unat a div 2 ^ PAGE_SHIFT = unat b div 2 ^ PAGE_SHIFT"
      using d [of a] d [of b] by (simp add: vslot_def index_div PAGE_SHIFT_def)
  next
    have q: "unat a div 2 ^ 21 = unat a div 2 ^ 12 div 512" "unat a div 2 ^ 30 = unat a div 2 ^ 12 div 512 div 512"
      for a :: u32 by (simp_all flip: div_mult2_eq)
    assume "unat a div 2 ^ PAGE_SHIFT = unat b div 2 ^ PAGE_SHIFT"
    then show "vslot a = vslot b" unfolding vslot_def index_div q PAGE_SHIFT_def by simp
  qed
qed

lemma low_mask: "(0xFFF::'a::len word) = mask 12"
  by (simp add: mask_eq_exp_minus_1)

lemma PAGE_MASK_val: "PAGE_MASK = NOT (mask 12)"
  by (simp add: PAGE_MASK_def PAGE_SIZE_val mask_eq_exp_minus_1)

lemma unat_mask: "unat (e AND PAGE_MASK) = ef e * 2 ^ PAGE_SHIFT"
proof -
  have "e AND PAGE_MASK = push_bit 12 (drop_bit 12 e)"
    by (rule bit_word_eqI) (auto simp: PAGE_MASK_val bit_simps)
  moreover have "unat (push_bit 12 (drop_bit 12 e)) = take_bit 64 (push_bit 12 (drop_bit 12 (unat e)))"
    by (simp only: unsigned_push_bit_eq unat_drop_bit_eq) simp
  moreover have "push_bit 12 (drop_bit 12 (unat e)) < 2 ^ 64"
    using unat_lt2p(2) [of e] div_times_less_eq_dividend [of "unat e" 4096]
    by (simp add: push_bit_eq_mult drop_bit_eq_div)
  ultimately have "unat (e AND PAGE_MASK) = push_bit 12 (drop_bit 12 (unat e))"
    by (simp only: take_bit_nat_eq_self)
  then show ?thesis
    unfolding ef_def PAGE_SHIFT_def unat_drop_bit_eq by (simp add: push_bit_eq_mult)
qed

lemma page_vaddr:
  assumes "ef e * 2 ^ PAGE_SHIFT < unat NORMAL_ADDR"
  shows "pgd_page_vaddr e = Some (ef e * 2 ^ PAGE_SHIFT + unat KERNEL_BASE_ADDR)"
    "pmd_page_vaddr e = Some (ef e * 2 ^ PAGE_SHIFT + unat KERNEL_BASE_ADDR)"
    "pte_page_vaddr e = Some (ef e * 2 ^ PAGE_SHIFT + unat KERNEL_BASE_ADDR)"
  using assms by (simp_all add: pgd_page_vaddr_def pmd_page_vaddr_def pte_page_vaddr_def unat_mask p2v_def)

lemma table_at_frame [simp]: "table_at (f * 2 ^ PAGE_SHIFT + unat KERNEL_BASE_ADDR) i = (f, i)"
  by (simp add: table_at_def PAGE_SHIFT_def)

lemma virt2page_frame [simp]:
  "f < max_pfn s \<Longrightarrow> virt2page s (f * 2 ^ PAGE_SHIFT + unat KERNEL_BASE_ADDR) = Some f"
  by (simp add: virt2page_def v2p_def pfn2page_def PAGE_SHIFT_def)

lemma flag_bits:
  "pgd_present e = bit e 0" "pmd_present e = bit e 0" "pte_present e = bit e 0" "pte_write e = bit e 1"
  "(e AND ucast PAGE_RW \<noteq> 0) = bit e 1" "(e AND ucast PAGE_USER \<noteq> 0) = bit e 2"
  using and_exp_eq_0_iff_not_bit [of e 0] and_exp_eq_0_iff_not_bit [of e 1] and_exp_eq_0_iff_not_bit [of e 2]
  by (simp_all add: pgd_present_def pmd_present_def pte_present_def pte_write_def PAGE_PRESENT_def
      PAGE_RW_def PAGE_USER_def)

lemma low_bit: "n < 12 \<Longrightarrow> e AND 0xFFF = (v::u64) \<Longrightarrow> bit e n = bit v n"
  by (auto simp: low_mask bit_simps)

lemma mk_entry_bit:
  assumes "perm AND 0xFFF = perm"
  shows "bit (mk_entry p perm) n \<longleftrightarrow>
    (if n < 12 then bit perm n else n < 64 \<and> bit (of_nat p :: u64) (n - 12))"
proof -
  have hi: "\<not> bit perm n" if "12 \<le> n" for n
  proof -
    have "bit perm n = bit (perm AND 0xFFF) n" using assms by simp
    also have "\<dots> = False" using that by (simp add: low_mask bit_simps)
    finally show ?thesis by simp
  qed
  have "(of_nat (p * 2 ^ PAGE_SHIFT) :: u64) = push_bit 12 (of_nat p)"
    by (simp add: push_bit_eq_mult PAGE_SHIFT_def)
  then show ?thesis using hi [of n] bit_imp_le_length [of perm n]
    by (auto simp: mk_entry_def bit_simps)
qed

lemma mk_entry:
  assumes p: "p < 2 ^ 52" and perm: "perm AND 0xFFF = perm"
  shows "ef (mk_entry p perm) = p" "mk_entry p perm AND 0xFFF = ucast perm"
proof -
  have "drop_bit 12 (mk_entry p perm) = of_nat p"
  proof (rule bit_word_eqI)
    fix n assume "n < LENGTH(64)"
    have "\<not> bit (of_nat p :: u64) n" if "52 \<le> n"
    proof -
      have "p < 2 ^ n" using p power_increasing [OF that, of "2::nat"] by simp
      then have "\<not> bit p n" by (simp add: bit_iff_odd)
      moreover have "unat (of_nat p :: u64) = p" using p by (simp add: unat_of_nat)
      ultimately show ?thesis
        using bit_unsigned_iff [of "of_nat p :: u64" n, where 'a = nat] by (metis possible_bit_nat)
    qed
    then have "bit (of_nat p :: u64) n \<longrightarrow> n < 52" by (meson not_le)
    then show "bit (drop_bit 12 (mk_entry p perm)) n = bit (of_nat p :: u64) n"
      by (auto simp: bit_drop_bit_eq mk_entry_bit [OF perm])
  qed
  then show "ef (mk_entry p perm) = p"
    using p by (simp add: ef_def PAGE_SHIFT_def unat_of_nat)
  show "mk_entry p perm AND 0xFFF = ucast perm"
    using mk_entry_bit [OF perm] perm
    by (auto simp: low_mask bit_simps intro!: bit_word_eqI) (metis bit_and_iff bit_mask_iff)+
qed

lemma pte_set_frame:
  assumes "perm AND 0xFFF = perm"
  shows "pte_set l (of_nat (p * 2 ^ PAGE_SHIFT)) perm s = Some (set_entry l (mk_entry p perm) s)"
    "pmd_set l (of_nat (p * 2 ^ PAGE_SHIFT)) perm s = Some (set_entry l (mk_entry p perm) s)"
    "pgd_set l (of_nat (p * 2 ^ PAGE_SHIFT)) perm s = Some (set_entry l (mk_entry p perm) s)"
proof -
  have "(of_nat (p * 2 ^ PAGE_SHIFT) :: u64) = push_bit 12 (of_nat p)"
    by (simp add: push_bit_eq_mult PAGE_SHIFT_def)
  also have "\<dots> AND NOT 0xFFF = push_bit 12 (of_nat p)"
    by (rule bit_word_eqI) (auto simp: low_mask bit_simps)
  finally have "(of_nat (p * 2 ^ PAGE_SHIFT) :: u64) AND NOT 0xFFF = of_nat (p * 2 ^ PAGE_SHIFT)"
    by (simp add: push_bit_eq_mult PAGE_SHIFT_def)
  then show "pte_set l (of_nat (p * 2 ^ PAGE_SHIFT)) perm s = Some (set_entry l (mk_entry p perm) s)"
    "pmd_set l (of_nat (p * 2 ^ PAGE_SHIFT)) perm s = Some (set_entry l (mk_entry p perm) s)"
    "pgd_set l (of_nat (p * 2 ^ PAGE_SHIFT)) perm s = Some (set_entry l (mk_entry p perm) s)"
    using assms by (simp_all only: pte_set_def pmd_set_def pgd_set_def mk_entry_def kassert_bind if_True simp_thms)
qed

lemma pte_set_zero: "pte_set l 0 0 s = Some (set_entry l 0 s)"
  by (simp add: pte_set_def)

section \<open>How writes change the tables\<close>

lemma set_entry_sel [simp]:
  "mempage (set_entry l v s) = mempage s" "max_pfn (set_entry l v s) = max_pfn s"
  "lists (set_entry l v s) = lists s" "zones (set_entry l v s) = zones s"
  by (simp_all add: set_entry_def)

lemma pmem_set_entry: "pmem (set_entry (f, i) v s) f' i' = (if f' = f \<and> i' = i then v else pmem s f' i')"
  by (simp add: set_entry_def)

lemma tids_iff [simp]:
  "TPgd \<in> tids" "TPmd i \<in> tids \<longleftrightarrow> i < 3" "TPte i j \<in> tids \<longleftrightarrow> i < 3 \<and> j < 512"
  by (auto simp: tids_def)

text \<open>The tables depend on the memory only through the frames that hold tables.\<close>

lemma tab_cong:
  assumes "\<And>t f. t \<in> tids \<Longrightarrow> tab s pgd t = Some f \<Longrightarrow> pmem s' f = pmem s f" and "t \<in> tids"
  shows "tab s' pgd t = tab s pgd t"
proof -
  have p: "pmem s' pgd = pmem s pgd" using assms(1) [of TPgd] by simp
  have m: "pmd_tab s' pgd i = pmd_tab s pgd i" for i by (simp add: pmd_tab_def p)
  show ?thesis
  proof (cases t)
    case (TPte i j)
    then show ?thesis using m assms(1) [of "TPmd i"] assms(2) by (auto split: option.splits)
  qed (simp_all add: m)
qed

lemma pte_cong:
  assumes "\<And>t f. t \<in> tids \<Longrightarrow> tab s pgd t = Some f \<Longrightarrow> pmem s' f = pmem s f" and "v \<in> slots"
  shows "pte s' pgd v = pte s pgd v"
proof -
  obtain i j k where v: "v = (i, j, k)" "i < 3" "j < 512" using assms(2) by (auto simp: slots_def)
  have "tab s' pgd (TPte i j) = tab s pgd (TPte i j)" using assms(1) v by (intro tab_cong) auto
  then show ?thesis using assms(1) [of "TPte i j"] v by (auto simp: pte_def split: option.splits)
qed

text \<open>Hooking an empty table \<open>p\<close> into a free entry of a page directory or of a middle table.\<close>

lemma tab_new_pmd:
  assumes e: "pmem s pgd i = 0" "i < 3" and v: "v \<noteq> 0" "ef v = p" and z: "pmem s p = (\<lambda>_. 0)"
    and p: "p \<noteq> pgd" and t: "t \<in> tids" and q: "pgd' = pgd \<or> (\<forall>t\<in>tids. tab s pgd' t \<noteq> Some pgd)"
    and inj: "\<And>i. i < 3 \<Longrightarrow> tab s pgd (TPmd i) \<noteq> Some pgd"
  shows "tab (set_entry (pgd, i) v s) pgd' t = (if pgd' = pgd \<and> t = TPmd i then Some p else tab s pgd' t)"
proof (cases "pgd' = pgd")
  case False
  then show ?thesis using q t by (subst tab_cong [of s]) (auto simp: set_entry_def)
next
  case True
  show ?thesis
  proof (cases t)
    case (TPte i' j)
    have "pmd_tab s pgd i' = Some f \<Longrightarrow> f \<noteq> pgd" for f using inj [of i'] t TPte by auto
    then show ?thesis using TPte True e v z p
      by (auto simp: pmd_tab_def pmem_set_entry fun_eq_iff split: option.splits)
  qed (use True e v in \<open>auto simp: pmd_tab_def pmem_set_entry\<close>)
qed

lemma tab_new_pte:
  assumes m: "tab s pgd (TPmd i) = Some f" and e: "pmem s f j = 0" "i < 3" "j < 512" and v: "v \<noteq> 0" "ef v = p"
    and t: "t \<in> tids" and q: "pgd' = pgd \<or> (\<forall>t\<in>tids. tab s pgd' t \<noteq> Some f)"
    and inj: "\<And>t. t \<in> tids \<Longrightarrow> tab s pgd t = Some f \<Longrightarrow> t = TPmd i"
  shows "tab (set_entry (f, j) v s) pgd' t = (if pgd' = pgd \<and> t = TPte i j then Some p else tab s pgd' t)"
proof (cases "pgd' = pgd")
  case False
  then show ?thesis using q t by (subst tab_cong [of s]) (auto simp: set_entry_def)
next
  case True
  have ne: "f \<noteq> pgd" using inj [of TPgd] by auto
  have pm: "pmd_tab (set_entry (f, j) v s) pgd i' = pmd_tab s pgd i'" for i'
    using ne by (simp add: pmd_tab_def pmem_set_entry)
  show ?thesis
  proof (cases t)
    case (TPte i' j')
    have i': "pmd_tab s pgd i' = Some f \<Longrightarrow> i' = i" using inj [of "TPmd i'"] t TPte by auto
    show ?thesis
    proof (cases "i' = i")
      case False
      then have "pmd_tab s pgd i' \<noteq> Some f" using i' by blast
      then show ?thesis using False TPte True by (auto simp: pm pmem_set_entry split: option.splits)
    qed (use TPte True m e v in \<open>simp add: pm pmem_set_entry\<close>)
  qed (use True pm in auto)
qed

lemma tables_inj:
  assumes "tables_ok P s" "pgd \<in> P" "pgd' \<in> P" "t \<in> tids" "t' \<in> tids"
    "tab s pgd t = Some f" "tab s pgd' t' = Some f"
  shows "pgd = pgd' \<and> t = t'"
  using assms unfolding tables_ok_def by blast

lemma tables_frame:
  assumes "tables_ok P s" "pgd \<in> P" "t \<in> tids" "tab s pgd t = Some f"
  shows "in_zone s ZNormal f" "f \<notin> free_frames s ZNormal"
  using assms unfolding tables_ok_def by blast+

lemma tables_flags:
  assumes "tables_ok P s" "pgd \<in> P" "i < 3"
  shows "pmem s pgd i \<noteq> 0 \<Longrightarrow> pmem s pgd i AND 0xFFF = 1"
    "j < 512 \<Longrightarrow> tab s pgd (TPmd i) = Some f \<Longrightarrow> pmem s f j \<noteq> 0 \<Longrightarrow> pmem s f j AND 0xFFF = 7"
  using assms unfolding tables_ok_def by blast+

text \<open>Writing an entry of a bottom table changes no table, and one slot.\<close>

lemma tab_write_pte:
  assumes ok: "tables_ok P s" and P: "pgd \<in> P" "pgd' \<in> P" and t: "tab s pgd (TPte i j) = Some t" "i < 3" "j < 512"
    and t': "t' \<in> tids"
  shows "tab (set_entry (t, k) v s) pgd' t' = tab s pgd' t'"
proof -
  have no: "tab s pgd' u \<noteq> Some t" if "u \<in> tids" "\<forall>i j. u \<noteq> TPte i j" for u
    using tables_inj [OF ok P(1,2) _ that(1) t(1)] t(2,3) that(2) by auto
  have "pgd' \<noteq> t" using no [of TPgd] by auto
  then have pm: "pmd_tab (set_entry (t, k) v s) pgd' i = pmd_tab s pgd' i" for i
    by (simp add: pmd_tab_def pmem_set_entry)
  show ?thesis
  proof (cases t')
    case (TPte i' j')
    then have "pmd_tab s pgd' i' \<noteq> Some t" using no [of "TPmd i'"] t' by auto
    then show ?thesis using TPte by (auto simp: pm pmem_set_entry split: option.splits)
  qed (simp_all add: pm)
qed

declare tab.simps(3) [simp del]

lemma pte_write_pte:
  assumes ok: "tables_ok P s" and P: "pgd \<in> P" "pgd' \<in> P" and t: "tab s pgd (TPte i j) = Some t" "i < 3" "j < 512"
    and w: "w \<in> slots"
  shows "pte (set_entry (t, k) v s) pgd' w = (if pgd' = pgd \<and> w = (i, j, k) then v else pte s pgd' w)"
proof -
  obtain a b c where abc: "w = (a, b, c)" "a < 3" "b < 512" using w by (auto simp: slots_def)
  have "tab (set_entry (t, k) v s) pgd' (TPte a b) = tab s pgd' (TPte a b)"
    using tab_write_pte [OF ok P t] abc by simp
  moreover have "tab s pgd' (TPte a b) = Some t \<longleftrightarrow> pgd' = pgd \<and> a = i \<and> b = j"
    using tables_inj [OF ok P _ _ t(1), of "TPte a b"] t abc by auto
  ultimately show ?thesis using abc t(1)
    by (auto simp: pte_def pmem_set_entry split: option.splits)
qed

section \<open>Updating page descriptors\<close>

text \<open>The allocator does not look at the counters of pages that are not free.\<close>

lemma upd_page_free:
  assumes "\<And>g. pg_order (f g) = pg_order g"
  shows "free_head (upd_page p f s) = free_head s" "free_frames (upd_page p f s) = free_frames s"
    "in_zone (upd_page p f s) = in_zone s" "blk_ok (upd_page p f s) = blk_ok s"
    "zones_ok Zs (upd_page p f s) = zones_ok Zs s" "coalesced (upd_page p f s) = coalesced s"
    "zone_layout (upd_page p f s) = zone_layout s"
proof -
  show iz: "in_zone (upd_page p f s) = in_zone s" by (simp add: fun_eq_iff in_zone_def upd_page_def)
  show fh: "free_head (upd_page p f s) = free_head s"
    using assms by (simp add: fun_eq_iff free_head_def iz) (simp add: upd_page_def)
  show "free_frames (upd_page p f s) = free_frames s" by (simp add: fun_eq_iff free_frames_def fh)
  show "blk_ok (upd_page p f s) = blk_ok s" "zones_ok Zs (upd_page p f s) = zones_ok Zs s"
    "coalesced (upd_page p f s) = coalesced s" "zone_layout (upd_page p f s) = zone_layout s"
    by (simp_all add: fun_eq_iff blk_ok_def zones_ok_def coalesced_def zone_layout_def iz fh)
      (simp_all add: upd_page_def)
qed

lemma upd_page_sel [simp]:
  "pmem (upd_page p f s) = pmem s" "max_pfn (upd_page p f s) = max_pfn s" "lists (upd_page p f s) = lists s"
  "zones (upd_page p f s) = zones s"
  "mempage (upd_page p f s) q = (if q = p then f (mempage s p) else mempage s q)"
  by (simp_all add: upd_page_def)

lemma binv_upd_page:
  assumes f: "\<And>g. pg_order (f g) = pg_order g" and p: "\<forall>z\<in>Zs. p \<notin> free_frames s z"
  shows "binv Zs H L (upd_page p f s) = binv Zs H L s"
proof -
  have cl: "clean (upd_page p f s) q = clean s q" if "free_head s z h k" "q \<in> block h k" "z \<in> Zs" for q z h k
    using that p by (auto simp: clean_def free_frames_def)
  have "bcore Zs H L (upd_page p f s) = bcore Zs H L s"
    unfolding bcore_def upd_page_free [of f, OF f] upd_page_sel(3,4) using cl f by (auto simp: free_head_def)
  then show ?thesis by (simp add: binv_def upd_page_free [of f, OF f])
qed

lemma tab_upd_page [simp]: "tab (upd_page p f s) = tab s" "pte (upd_page p f s) = pte s"
proof -
  have "tab (upd_page p f s) pgd t = tab s pgd t" for pgd t
    by (cases t) (simp_all add: pmd_tab_def tab.simps(3))
  then show "tab (upd_page p f s) = tab s" by (intro ext)
  then show "pte (upd_page p f s) = pte s" 
    by (intro ext) (simp add: pte_def split: prod.split option.split)
qed

lemma maps_upd_page [simp]: "maps (upd_page p f s) = maps s" "is_table P (upd_page p f s) = is_table P s"
  by (simp_all add: maps_def is_table_def fun_eq_iff)

lemma set_entry_inv [simp]:
  "free_head (set_entry l v s) = free_head s" "free_frames (set_entry l v s) = free_frames s"
  "in_zone (set_entry l v s) = in_zone s" "blk_ok (set_entry l v s) = blk_ok s"
  "clean (set_entry l v s) = clean s" "zones_ok Zs (set_entry l v s) = zones_ok Zs s"
  "coalesced (set_entry l v s) = coalesced s" "zone_layout (set_entry l v s) = zone_layout s"
  by (auto simp: fun_eq_iff free_head_def free_frames_def in_zone_def blk_ok_def clean_def zones_ok_def
      coalesced_def zone_layout_def)

lemma set_entry_binv [simp]: "binv Zs H L (set_entry l v s) = binv Zs H L s"
  by (simp add: binv_def bcore_def)

lemma ref_page_inv [simp]:
  "free_head (ref_page p s) = free_head s" "free_frames (ref_page p s) = free_frames s"
  "in_zone (ref_page p s) = in_zone s" "zone_layout (ref_page p s) = zone_layout s"
  "tab (ref_page p s) = tab s" "pte (ref_page p s) = pte s" "maps (ref_page p s) = maps s"
  "is_table P (ref_page p s) = is_table P s"
  by (simp_all add: ref_page_def upd_page_free)

lemma ref_page_sel [simp]:
  "pmem (ref_page p s) = pmem s" "max_pfn (ref_page p s) = max_pfn s"
  "pg_nref (mempage (ref_page p s) q) = (if q = p then pg_nref (mempage s p) + 1 else pg_nref (mempage s q))"
  "pg_flags (mempage (ref_page p s) q) = pg_flags (mempage s q)"
  by (simp_all add: ref_page_def atomic_inc_def)

lemma binv_ref_page [simp]: "\<forall>z\<in>Zs. p \<notin> free_frames s z \<Longrightarrow> binv Zs H L (ref_page p s) = binv Zs H L s"
  unfolding ref_page_def by (rule binv_upd_page) simp_all

section \<open>Steps that leave the tables alone\<close>

lemma pinvD:
  assumes "pinv P X H L s"
  shows "finite P" "binv UNIV H L s" "zone_layout s" "tables_ok P s"
    "maps s P f \<noteq> {} \<Longrightarrow> upage P X H L s f"
  using assms by (auto simp: pinv_def)

lemma same_tables:
  assumes m: "\<And>f. is_table P s f \<Longrightarrow> pmem s1 f = pmem s f" and P: "pgd \<in> P"
  shows "t \<in> tids \<Longrightarrow> tab s1 pgd t = tab s pgd t" "v \<in> slots \<Longrightarrow> pte s1 pgd v = pte s pgd v"
proof -
  have "pmem s1 f = pmem s f" if "t \<in> tids" "tab s pgd t = Some f" for t f
    using m that P by (auto simp: is_table_def)
  then show "t \<in> tids \<Longrightarrow> tab s1 pgd t = tab s pgd t" "v \<in> slots \<Longrightarrow> pte s1 pgd v = pte s pgd v"
    using tab_cong [of s pgd s1 t] pte_cong [of s pgd s1 v] by blast+
qed

lemma same_maps:
  assumes "\<And>pgd v. pgd \<in> P \<Longrightarrow> v \<in> slots \<Longrightarrow> pte s1 pgd v = pte s pgd v"
  shows "maps s1 P = maps s P"
  using assms by (auto simp: maps_def fun_eq_iff)

lemma same_is_table:
  assumes "\<And>pgd t. pgd \<in> P \<Longrightarrow> t \<in> tids \<Longrightarrow> tab s1 pgd t = tab s pgd t"
  shows "is_table P s1 = is_table P s"
  using assms by (auto simp: is_table_def fun_eq_iff)

lemma tables_ok_same:
  assumes ok: "tables_ok P s" and iz: "in_zone s1 = in_zone s"
    and m: "\<And>f. is_table P s f \<Longrightarrow> pmem s1 f = pmem s f \<and> f \<notin> free_frames s1 ZNormal"
  shows "tables_ok P s1"
proof -
  have pm: "pmem s1 f = pmem s f" if "pgd \<in> P" "t \<in> tids" "tab s pgd t = Some f" for pgd t f
    using m that by (auto simp: is_table_def)
  have ts: "tab s1 pgd t = tab s pgd t" if "pgd \<in> P" "t \<in> tids" for pgd t
    using same_tables(1) [of P s s1] m that by blast
  show ?thesis
    unfolding tables_ok_def
  proof (intro conjI ballI allI impI)
    fix pgd t f assume a: "pgd \<in> P" "t \<in> tids" "tab s1 pgd t = Some f"
    then have "tab s pgd t = Some f" using ts by simp
    then show "in_zone s1 ZNormal f" "f \<notin> free_frames s1 ZNormal"
      using tables_frame [OF ok a(1,2)] m [of f] a iz by (auto simp: is_table_def)
  next
    fix pgd pgd' t t' f
    assume a: "pgd \<in> P" "pgd' \<in> P" "t \<in> tids" "t' \<in> tids" "tab s1 pgd t = Some f" "tab s1 pgd' t' = Some f"
    then show "pgd = pgd'" "t = t'" using tables_inj [OF ok a(1-4)] ts by auto
  next
    fix pgd i assume a: "pgd \<in> P" "i < (3::nat)" "pmem s1 pgd i \<noteq> 0"
    then show "pmem s1 pgd i AND 0xFFF = 1"
      using ok pm [of pgd TPgd pgd] unfolding tables_ok_def by auto
  next
    fix pgd i j f
    assume a: "pgd \<in> P" "i < (3::nat)" "j < (512::nat)" "tab s1 pgd (TPmd i) = Some f" "pmem s1 f j \<noteq> 0"
    then have "tab s pgd (TPmd i) = Some f" using ts [of pgd "TPmd i"] by simp
    then show "pmem s1 f j AND 0xFFF = 7"
      using ok pm [of pgd "TPmd i" f] a unfolding tables_ok_def by auto
  qed
qed

lemma pinv_same:
  assumes i: "pinv P X H L s" and b: "binv UNIV H L1 s1" "zone_layout s1" and iz: "in_zone s1 = in_zone s"
    and off: "same_off UNIV L L1"
    and m: "\<And>f. is_table P s f \<Longrightarrow> pmem s1 f = pmem s f \<and> f \<notin> free_frames s1 ZNormal"
    and u: "\<And>f. maps s P f \<noteq> {} \<Longrightarrow> f \<notin> free_frames s1 ZNormal \<and> pg_nref (mempage s1 f) = pg_nref (mempage s f) \<and>
        pg_flags (mempage s1 f) = pg_flags (mempage s f)"
  shows "pinv P X H L1 s1" "maps s1 P = maps s P" "is_table P s1 = is_table P s"
proof -
  have st: "tab s1 pgd t = tab s pgd t" "pte s1 pgd v = pte s pgd v"
    if "pgd \<in> P" "t \<in> tids" "v \<in> slots" for pgd t v
    using same_tables [of P s s1 pgd] m that by blast+
  show mp: "maps s1 P = maps s P" using st(2) [of _ TPgd] by (intro same_maps) simp
  have sl: "(0, 0, 0) \<in> slots" by (simp add: slots_def)
  show tb: "is_table P s1 = is_table P s" using st(1) [OF _ _ sl] by (intro same_is_table)
  have "upage P X H L1 s1 f" if "maps s1 P f \<noteq> {}" for f
    using pinvD(5) [OF i, of f] u [of f] that unfolding upage_def unlisted_off [OF off] mp tb iz by simp
  then show "pinv P X H L1 s1"
    using pinvD(1,4) [OF i] b tables_ok_same [OF _ iz m] unfolding pinv_def by blast
qed

end
