(* ===== verification/Paging_Walk.thy ===== *)
theory Paging_Walk
  imports Paging_Inv
begin

text \<open>
  The operations on page tables against the invariant: allocating a table, walking with
  and without creating tables, dropping a reference, removing and inserting a mapping.
\<close>

section \<open>Allocating a frame\<close>

definition fresh :: "nat set \<Rightarrow> (nat \<Rightarrow> nat) \<Rightarrow> mnode set \<Rightarrow> (mnode \<Rightarrow> mnode list) \<Rightarrow> mmst \<Rightarrow> mmst \<Rightarrow> nat \<Rightarrow> bool" where
  "fresh P X H L s s1 p \<longleftrightarrow>
     pinv P X H L s1 \<and> p \<in> free_frames s ZNormal \<and> in_zone s1 = in_zone s \<and> max_pfn s1 = max_pfn s \<and>
     free_frames s1 ZNormal = free_frames s ZNormal - {p} \<and> free_frames s1 ZHigh = free_frames s ZHigh \<and>
     pmem s1 = (pmem s)(p := (\<lambda>_. 0)) \<and>
     (\<forall>f. pg_nref (mempage s1 f) = pg_nref (mempage s f) \<and> pg_flags (mempage s1 f) = pg_flags (mempage s f)) \<and>
     in_zone s1 ZNormal p \<and> p < max_pfn s1 \<and> pg_nref (mempage s1 p) = 0 \<and>
     pg_flags (mempage s1 p) AND pg_reserved = 0 \<and> unlisted UNIV H L {p} \<and>
     maps s1 P = maps s P \<and> is_table P s1 = is_table P s \<and> maps s P p = {} \<and> \<not> is_table P s p"

lemma normal_not_high:
  assumes "binv UNIV H L s" "in_zone s ZNormal p"
  shows "p \<notin> free_frames s ZHigh"
proof
  assume "p \<in> free_frames s ZHigh"
  then have "in_zone s ZHigh p" using assms(1) free_frames_in_zone [of UNIV H L s ZHigh p] by (simp add: binv_def)
  moreover have "zones_ok UNIV s" using assms(1) bcore_zones by (auto simp: binv_def)
  ultimately show False using assms(2) unfolding zones_ok_def by (metis zid.distinct(1))
qed

lemma free_no_table: "pinv P X H L s \<Longrightarrow> f \<in> free_frames s ZNormal \<Longrightarrow> maps s P f = {} \<and> \<not> is_table P s f"
  using pinvD(5) [of P X H L s f] tables_frame(2) [of P s] pinvD(4) [of P X H L s]
  by (auto simp: upage_def is_table_def)

lemma alloc_fresh:
  assumes i: "pinv P X H L s"
  shows "pages_alloc GFP_ZERO 0 s = Some (None, s) \<and> free_frames s ZNormal = {} \<or>
    (\<exists>p s1 L1. pages_alloc GFP_ZERO 0 s = Some (Some p, s1) \<and> same_off UNIV L L1 \<and> fresh P X H L1 s s1 p)"
proof -
  have fl: "\<not> (GFP_ZERO AND GFP_ZERO \<noteq> 0 \<and> GFP_ZERO AND GFP_HIGH \<noteq> 0)" and z: "gfp_zone GFP_ZERO = ZNormal"
    and nz: "GFP_ZERO AND GFP_ZERO \<noteq> 0"
    by (simp_all add: GFP_ZERO_def GFP_HIGH_def gfp_zone_def)
  have k: "0 < MAXORDER" by (simp add: MAXORDER_def)
  note spec = pages_alloc_spec [OF pinvD(2,3) [OF i] k fl, unfolded z]
  then show ?thesis
  proof (elim disjE exE conjE)
    fix p s1 L1
    assume a: "pages_alloc GFP_ZERO 0 s = Some (Some p, s1)" "binv UNIV H L1 s1" "same_off UNIV L L1"
      "loose UNIV H L1 ZNormal p 0 s1" "block p 0 \<subseteq> free_frames s ZNormal"
      "same_shape s (s1\<lparr>pmem := pmem s\<rparr>)"
      "\<forall>z'. free_frames s1 z' = (if z' = ZNormal then free_frames s z' - block p 0 else free_frames s z')"
      "\<forall>f. pmem s1 f = (if GFP_ZERO AND GFP_ZERO \<noteq> 0 \<and> f \<in> block p 0 then \<lambda>_. 0 else pmem s f)"
    have bl: "block p 0 = {p}" by (auto simp: block_def)
    have pf: "p \<in> free_frames s ZNormal" using a(5) bl by simp
    have sh: "in_zone s1 = in_zone s" "max_pfn s1 = max_pfn s" "zone_layout s1"
      using a(6) pinvD(3) [OF i] by (auto simp: same_shape_def in_zone_def fun_eq_iff zone_layout_def)
    have pg: "pg_nref (mempage s1 f) = pg_nref (mempage s f)" "pg_flags (mempage s1 f) = pg_flags (mempage s f)" for f
    proof -
      have "(mempage s1 f)\<lparr>pg_order := 0\<rparr> = (mempage s f)\<lparr>pg_order := 0\<rparr>"
        using a(6) by (simp add: same_shape_def)
      from arg_cong [OF this, of pg_nref] arg_cong [OF this, of pg_flags]
      show "pg_nref (mempage s1 f) = pg_nref (mempage s f)" "pg_flags (mempage s1 f) = pg_flags (mempage s f)"
        by simp_all
    qed
    have pm: "pmem s1 = (pmem s)(p := (\<lambda>_. 0))" using a(8) nz by (auto simp: bl fun_eq_iff)
    note no = free_no_table [OF i pf]
    have t: "pmem s1 f = pmem s f \<and> f \<notin> free_frames s1 ZNormal" if "is_table P s f" for f
      using that no pm a(7) tables_frame(2) [OF pinvD(4) [OF i]] by (auto simp: is_table_def)
    have u: "f \<notin> free_frames s1 ZNormal \<and> pg_nref (mempage s1 f) = pg_nref (mempage s f) \<and>
        pg_flags (mempage s1 f) = pg_flags (mempage s f)" if "maps s P f \<noteq> {}" for f
      using pinvD(5) [OF i that] a(7) by (auto simp: upage_def pg)
    note new = pinv_same [OF i a(2) sh(3,1) a(3) t u]
    have lo: "blk_ok s1 ZNormal p 0" "clean s1 p" "unlisted UNIV H L1 {p}"
      using a(4) bl by (auto simp: loose_def)
    then have inz: "in_zone s1 ZNormal p" by (auto simp: blk_ok_def in_zone_def)
    moreover have "p < max_pfn s1"
      using page_bounds(1) [OF _ sh(3) inz, of H L1] a(2) by (simp add: binv_def)
    ultimately show ?thesis
      using a(1,3,7) new pf sh(1,2) pm pg lo no bl unfolding fresh_def clean_def by auto
  qed (auto simp: free_frames_def)
qed

section \<open>Adding tables\<close>

text \<open>What adding empty tables leaves as it was: every mapping, and every frame in use that is no table.\<close>

definition walked :: "nat set \<Rightarrow> mmst \<Rightarrow> mmst \<Rightarrow> bool" where
  "walked P s s' \<longleftrightarrow>
     in_zone s' = in_zone s \<and> max_pfn s' = max_pfn s \<and> (\<forall>z. free_frames s' z \<subseteq> free_frames s z) \<and>
     (\<forall>f. f \<notin> free_frames s ZNormal \<longrightarrow> \<not> is_table P s f \<longrightarrow>
        pmem s' f = pmem s f \<and> \<not> is_table P s' f \<and>
        pg_nref (mempage s' f) = pg_nref (mempage s f) \<and> pg_flags (mempage s' f) = pg_flags (mempage s f)) \<and>
     (\<forall>pgd\<in>P. \<forall>v\<in>slots. pte s' pgd v = pte s pgd v) \<and>
     (\<forall>pgd\<in>P. \<forall>t\<in>tids. \<forall>f. tab s pgd t = Some f \<longrightarrow> tab s' pgd t = Some f)"

abbreviation nfree :: "mmst \<Rightarrow> nat" where
  "nfree s \<equiv> card (free_frames s ZNormal)"

lemma walked_refl [simp]: "walked P s s"
  by (simp add: walked_def)

lemma walked_trans [trans]:
  assumes "walked P s s'" "walked P s' s''"
  shows "walked P s s''"
proof -
  note w = assms [unfolded walked_def]
  have "pmem s'' f = pmem s f \<and> \<not> is_table P s'' f \<and>
      pg_nref (mempage s'' f) = pg_nref (mempage s f) \<and> pg_flags (mempage s'' f) = pg_flags (mempage s f)"
    if f: "f \<notin> free_frames s ZNormal" "\<not> is_table P s f" for f
  proof -
    have "f \<notin> free_frames s' ZNormal" "\<not> is_table P s' f" using f w(1) by auto
    then show ?thesis using f w by simp
  qed
  moreover have "free_frames s'' z \<subseteq> free_frames s z" for z using w by blast
  ultimately show ?thesis unfolding walked_def using w by simp
qed

lemma walked_maps: "walked P s s' \<Longrightarrow> maps s' P = maps s P"
  by (intro same_maps) (simp add: walked_def)

lemma walked_upage:
  assumes "walked P s s'" "same_off UNIV L L'" "upage P X H L s f"
  shows "upage P X H L' s' f"
  using assms walked_maps [OF assms(1)] unfolding upage_def unlisted_off [OF assms(2)] walked_def by auto

lemma normal_frame: "pinv P X H L s \<Longrightarrow> in_zone s ZNormal p \<Longrightarrow>
  p * 2 ^ PAGE_SHIFT < unat NORMAL_ADDR \<and> p < 2 ^ 52 \<and> p < max_pfn s"
  using page_bounds(1) [of H L s ZNormal p]
  by (auto simp: pinv_def binv_def zone_layout_def NORMAL_ADDR_val PAGE_SHIFT_def)

lemma fresh_new_entry:
  assumes "fresh P X H L s s1 p" "perm AND 0xFFF = perm" "ucast perm \<noteq> (0::u64)"
  shows "page2phys (ref_page p s1) p = Some (p * 2 ^ PAGE_SHIFT)" "ef (mk_entry p perm) = p"
    "mk_entry p perm AND 0xFFF = ucast perm" "mk_entry p perm \<noteq> 0"
proof -
  have p: "p < 2 ^ 52" "p < max_pfn s1" using assms(1) normal_frame [of P X H L s1 p] by (auto simp: fresh_def)
  show "page2phys (ref_page p s1) p = Some (p * 2 ^ PAGE_SHIFT)"
    using p by (simp add: page2phys_def page2pfn_def)
  show "ef (mk_entry p perm) = p" and m: "mk_entry p perm AND 0xFFF = ucast perm"
    using mk_entry [OF p(1) assms(2)] by auto
  show "mk_entry p perm \<noteq> 0" using m assms(3) by auto
qed

text \<open>
  \<open>hooked\<close> describes the step that hangs the fresh frame \<open>p\<close> as table \<open>tn\<close> into entry \<open>j\<close> of the table
  \<open>t0\<close>, which is the page directory or a middle table.
\<close>

definition hooked :: "nat set \<Rightarrow> (nat \<Rightarrow> nat) \<Rightarrow> mnode set \<Rightarrow> (mnode \<Rightarrow> mnode list) \<Rightarrow> mmst \<Rightarrow> mmst \<Rightarrow> nat \<Rightarrow>
    nat \<Rightarrow> tid \<Rightarrow> nat \<Rightarrow> nat \<Rightarrow> tid \<Rightarrow> u32 \<Rightarrow> mmst \<Rightarrow> bool" where
  "hooked P X H L s s1 p pgd t0 f j tn perm s3 \<longleftrightarrow>
     fresh P X H L s s1 p \<and> pgd \<in> P \<and> t0 \<in> tids \<and> tab s pgd t0 = Some f \<and> pmem s f j = 0 \<and> tn \<in> tids \<and>
     (t0 = TPgd \<and> tn = TPmd j \<and> perm = 1 \<or> (\<exists>i. t0 = TPmd i \<and> tn = TPte i j \<and> perm = 7)) \<and>
     s3 = set_entry (f, j) (mk_entry p perm) (ref_page p s1)"

lemma tableI: "pgd \<in> P \<Longrightarrow> t \<in> tids \<Longrightarrow> tab s pgd t = Some f \<Longrightarrow> is_table P s f"
  by (auto simp: is_table_def)

lemma hooked_mem:
  assumes h: "hooked P X H L s s1 p pgd t0 f j tn perm s3"
  shows "\<not> is_table P s p" "p \<noteq> f" "mk_entry p perm \<noteq> 0" "ef (mk_entry p perm) = p"
    "mk_entry p perm AND 0xFFF = ucast perm" "pmem s3 p = (\<lambda>_. 0)"
    "is_table P s g \<Longrightarrow> pmem s3 g k = (if g = f \<and> k = j then mk_entry p perm else pmem s g k)"
    "is_table P s g \<Longrightarrow> pmem (ref_page p s1) g = pmem s g" "pmem (ref_page p s1) p = (\<lambda>_. 0)"
proof -
  note hd = h [unfolded hooked_def] and fd = h [unfolded hooked_def fresh_def]
  have f: "is_table P s f" using hd tableI by blast
  show np: "\<not> is_table P s p" "p \<noteq> f" using fd f by auto
  have perm: "perm AND 0xFFF = perm" "ucast perm \<noteq> (0::u64)" using hd by auto
  show "mk_entry p perm \<noteq> 0" "ef (mk_entry p perm) = p" "mk_entry p perm AND 0xFFF = ucast perm"
    using fresh_new_entry [OF _ perm, of P X H L s s1 p] hd by auto
  show "pmem s3 p = (\<lambda>_. 0)" "pmem (ref_page p s1) p = (\<lambda>_. 0)" using fd np(2) by (auto simp: set_entry_def)
  show "is_table P s g \<Longrightarrow> pmem s3 g k = (if g = f \<and> k = j then mk_entry p perm else pmem s g k)"
    "is_table P s g \<Longrightarrow> pmem (ref_page p s1) g = pmem s g"
    using fd np by (auto simp: pmem_set_entry)
qed

lemma hooked_tab:
  assumes i: "pinv P X H L0 s" and h: "hooked P X H L s s1 p pgd t0 f j tn perm s3" and t: "pgd' \<in> P" "t \<in> tids"
  shows "tab s3 pgd' t = (if pgd' = pgd \<and> t = tn then Some p else tab s pgd' t)"
proof -
  note hd = h [unfolded hooked_def] and hm = hooked_mem [OF h] and ok = pinvD(4) [OF i]
  have P: "pgd \<in> P" "t0 \<in> tids" "tab s pgd t0 = Some f" and s3: "s3 = set_entry (f, j) (mk_entry p perm) (ref_page p s1)"
    using hd by auto
  have st: "tab s1 pgd' t = tab s pgd' t" if "pgd' \<in> P" "t \<in> tids" for pgd' t
    using same_tables(1) [of P s "ref_page p s1"] hm(8) that by simp
  have inj: "t = t0 \<and> pgd' = pgd" if "pgd' \<in> P" "t \<in> tids" "tab (ref_page p s1) pgd' t = Some f" for pgd' t
    using tables_inj [OF ok that(1) P(1) that(2) P(2) _ P(3)] st that by auto
  have q: "pgd' = pgd \<or> (\<forall>t\<in>tids. tab (ref_page p s1) pgd' t \<noteq> Some f)" using inj [OF t(1)] by auto
  have e: "pmem (ref_page p s1) f j = 0" using hd hm(8) tableI [OF P] by simp
  show ?thesis
  proof (cases "t0 = TPgd")
    case True
    then have tn: "tn = TPmd j" "j < 3" "f = pgd" using hd by auto
    have "tab s3 pgd' t = (if pgd' = pgd \<and> t = TPmd j then Some p else tab (ref_page p s1) pgd' t)"
      unfolding s3 tn(3)
    proof (rule tab_new_pmd)
      show "tab (ref_page p s1) pgd (TPmd i) \<noteq> Some pgd" if "i < 3" for i
        using inj [OF P(1), of "TPmd i"] that True tn(3) by auto
    qed (use e hm q t tn in auto)
    then show ?thesis using st t tn(1) by simp
  next
    case False
    then obtain i where tn: "t0 = TPmd i" "tn = TPte i j" "i < 3" "j < 512" using hd by auto
    have "tab s3 pgd' t = (if pgd' = pgd \<and> t = TPte i j then Some p else tab (ref_page p s1) pgd' t)"
      unfolding s3 by (rule tab_new_pte) (use e hm q t tn inj [OF P(1)] st [OF P(1,2)] P(3) in auto)
    then show ?thesis using st t tn(2) by simp
  qed
qed

lemma hooked_flags:
  assumes i: "pinv P X H L0 s" and h: "hooked P X H L s s1 p pgd t0 f j tn perm s3" and P: "pgd' \<in> P" "k < 3"
  shows "pmem s3 pgd' k \<noteq> 0 \<Longrightarrow> pmem s3 pgd' k AND 0xFFF = 1"
    "m < 512 \<Longrightarrow> tab s3 pgd' (TPmd k) = Some g \<Longrightarrow> pmem s3 g m \<noteq> 0 \<Longrightarrow> pmem s3 g m AND 0xFFF = 7"
proof -
  note hd = h [unfolded hooked_def] and hm = hooked_mem [OF h] and ok = pinvD(4) [OF i]
    and tb = hooked_tab [OF i h P(1)]
  have P0: "pgd \<in> P" "t0 \<in> tids" "tab s pgd t0 = Some f" using hd by auto
  have inj: "t = t0 \<and> pgd' = pgd" if "t \<in> tids" "tab s pgd' t = Some f" for t
    using tables_inj [OF ok P(1) P0(1) that(1) P0(2) that(2) P0(3)] by auto
  have "is_table P s pgd'" using tableI [OF P(1), of TPgd] by simp
  then show "pmem s3 pgd' k \<noteq> 0 \<Longrightarrow> pmem s3 pgd' k AND 0xFFF = 1"
    using hm(5) hm(7) [of pgd' k] inj [of TPgd] hd tables_flags(1) [OF ok P] by (auto split: if_split_asm)
  assume g: "m < 512" "tab s3 pgd' (TPmd k) = Some g" "pmem s3 g m \<noteq> 0"
  show "pmem s3 g m AND 0xFFF = 7"
  proof (cases "pgd' = pgd \<and> TPmd k = tn")
    case True
    then show ?thesis using tb [of "TPmd k"] P(2) g hm(6) by auto
  next
    case False
    then have t: "tab s pgd' (TPmd k) = Some g" using tb [of "TPmd k"] P(2) g by auto
    then show ?thesis
      using hm(5) hm(7) [of g m] tableI [OF P(1) _ t] inj [of "TPmd k"] hd P(2) g tables_flags(2) [OF ok P g(1) t]
      by (auto split: if_split_asm)
  qed
qed

lemma hooked_pte:
  assumes i: "pinv P X H L0 s" and h: "hooked P X H L s s1 p pgd t0 f j tn perm s3" and v: "pgd' \<in> P" "v \<in> slots"
  shows "pte s3 pgd' v = pte s pgd' v"
proof -
  note hd = h [unfolded hooked_def] and hm = hooked_mem [OF h] and ok = pinvD(4) [OF i]
  have P0: "pgd \<in> P" "t0 \<in> tids" "tab s pgd t0 = Some f" using hd by auto
  obtain x y z where xyz: "v = (x, y, z)" "TPte x y \<in> tids" using v by (auto simp: slots_def)
  show ?thesis
  proof (cases "pgd' = pgd \<and> TPte x y = tn")
    case True
    then have "tab s pgd' (TPte x y) = None" using hd by (auto simp: tab.simps(3))
    then show ?thesis using True hooked_tab [OF i h v(1) xyz(2)] hm(6) by (simp add: pte_def xyz(1))
  next
    case False
    have "g \<noteq> f" if "tab s pgd' (TPte x y) = Some g" for g
      using tables_inj [OF ok v(1) P0(1) xyz(2) P0(2) that] P0(3) hd by auto
    then show ?thesis using False hooked_tab [OF i h v(1) xyz(2)] hm(7) tableI [OF v(1) xyz(2)]
      by (auto simp: pte_def xyz(1) split: option.split)
  qed
qed

lemma hook:
  assumes i: "pinv P X H L0 s" and h: "hooked P X H L s s1 p pgd t0 f j tn perm s3"
  shows "pinv P X H L s3" "walked P s s3" "tab s3 pgd tn = Some p" "nfree s = Suc (nfree s3)"
proof -
  note hd = h [unfolded hooked_def] and fd = h [unfolded hooked_def fresh_def]
    and tb = hooked_tab [OF i h] and pt = hooked_pte [OF i h]
  have P: "pgd \<in> P" and tn: "tn \<in> tids" "tab s pgd tn = None" and f: "is_table P s f"
    and s3: "s3 = set_entry (f, j) (mk_entry p perm) (ref_page p s1)"
    using hd tableI [of pgd P t0 s f] by (auto simp: pmd_tab_def tab.simps(3))
  show "tab s3 pgd tn = Some p" using tb [OF P tn(1)] by simp
  have i1: "pinv P X H L s1" using fd by simp
  have nf: "p \<notin> free_frames s1 z" for z
    using normal_not_high [OF pinvD(2) [OF i1], of p] fd by (cases z) auto
  have iz: "in_zone s3 = in_zone s" "max_pfn s3 = max_pfn s" "free_frames s3 = free_frames s1" "zone_layout s3"
    "binv UNIV H L s3"
    using fd pinvD(2,3) [OF i1] nf by (simp_all add: s3)
  have sub: "free_frames s3 z \<subseteq> free_frames s z" for z using fd iz(3) by (cases z) auto
  have "finite (free_frames s ZNormal)" using pinvD(2) [OF i] finite_free_frames [of UNIV H L0 s ZNormal] by (simp add: binv_def)
  moreover have "p \<in> free_frames s ZNormal" "free_frames s3 ZNormal = free_frames s ZNormal - {p}" using fd iz(3) by simp_all
  ultimately show "nfree s = Suc (nfree s3)" by (metis card_Suc_Diff1)
  have it: "is_table P s3 f \<longleftrightarrow> is_table P s f \<or> f = p" for f
  proof
    show "is_table P s3 f \<Longrightarrow> is_table P s f \<or> f = p"
      using tb by (auto simp: is_table_def split: if_split_asm)
    have "tab s3 pgd' t = Some f" if "pgd' \<in> P" "t \<in> tids" "tab s pgd' t = Some f" for pgd' t
      using tb [OF that(1,2)] tn that(3) by auto
    moreover have "tab s3 pgd tn = Some p" using tb [OF P tn(1)] by simp
    ultimately show "is_table P s f \<or> f = p \<Longrightarrow> is_table P s3 f"
      using P tn(1) unfolding is_table_def by blast
  qed
  have mp: "maps s3 P = maps s P" using pt by (intro same_maps)
  have tk: "tables_ok P s3"
    unfolding tables_ok_def
  proof (intro conjI ballI allI impI)
    fix pgd' t f assume a: "pgd' \<in> P" "t \<in> tids" "tab s3 pgd' t = Some f"
    then have "f = p \<or> tab s pgd' t = Some f" using tb by (auto split: if_split_asm)
    then show "in_zone s3 ZNormal f" "f \<notin> free_frames s3 ZNormal"
      using tables_frame [OF pinvD(4) [OF i] a(1,2)] fd iz sub nf by auto
  next
    fix pgd1 pgd2 t1 t2 f
    assume a: "pgd1 \<in> P" "pgd2 \<in> P" "t1 \<in> tids" "t2 \<in> tids" "tab s3 pgd1 t1 = Some f" "tab s3 pgd2 t2 = Some f"
    have np: "\<not> is_table P s p" using fd by simp
    show "pgd1 = pgd2" "t1 = t2"
      using a tb np tables_inj [OF pinvD(4) [OF i] a(1-4)] by (auto simp: is_table_def split: if_split_asm)
  qed (use hooked_flags [OF i h] in blast)+
  have "upage P X H L s3 f" if "maps s3 P f \<noteq> {}" for f
  proof -
    have "maps s1 P f \<noteq> {}" "f \<noteq> p" using that mp fd by auto
    then show ?thesis using pinvD(5) [OF i1] it iz mp fd by (auto simp: upage_def s3)
  qed
  then show "pinv P X H L s3" using pinvD(1) [OF i] iz(4,5) tk by (simp add: pinv_def)
  have "pmem s3 f' = pmem s f'" if "f' \<notin> free_frames s ZNormal" "\<not> is_table P s f'" for f'
    using that fd f by (auto simp: s3 set_entry_def)
  moreover have "pg_nref (mempage s3 f) = pg_nref (mempage s f)" "pg_flags (mempage s3 f) = pg_flags (mempage s f)"
    if "f \<notin> free_frames s ZNormal" for f
    using that fd by (auto simp: s3)
  moreover have "tab s3 pgd' t = Some f" if "pgd' \<in> P" "t \<in> tids" "tab s pgd' t = Some f" for pgd' t f
    using tb [OF that(1,2)] tn that(3) by auto
  ultimately show "walked P s s3"
    using iz sub it pt fd unfolding walked_def by auto
qed

lemma get_pmd_spec:
  assumes i: "pinv P X H L s" and P: "pgd \<in> P" and e: "pmem s pgd k = 0" "k < 3"
  shows "get_pmd (pgd, k) (PAGE_PRESENT OR PAGE_RW OR PAGE_USER) s = Some (- 1, s) \<and> free_frames s ZNormal = {} \<or>
    (\<exists>p s' L'. get_pmd (pgd, k) (PAGE_PRESENT OR PAGE_RW OR PAGE_USER) s = Some (0, s') \<and>
       same_off UNIV L L' \<and> pinv P X H L' s' \<and> walked P s s' \<and> tab s' pgd (TPmd k) = Some p \<and>
       nfree s = Suc (nfree s'))"
  using alloc_fresh [OF i]
proof (elim disjE exE conjE)
  fix p s1 L1
  assume a: "pages_alloc GFP_ZERO 0 s = Some (Some p, s1)" "same_off UNIV L L1" "fresh P X H L1 s s1 p"
  let ?s3 = "set_entry (pgd, k) (mk_entry p 1) (ref_page p s1)"
  have "get_pmd (pgd, k) (PAGE_PRESENT OR PAGE_RW OR PAGE_USER) s = Some (0, ?s3)"
    using a(1) fresh_new_entry(1) [OF a(3), of 1] pte_set_frame(3) [of 1]
    by (simp add: get_pmd_def PAGE_PRESENT_def PAGE_RW_def PAGE_USER_def del: of_nat_mult)
  moreover have h: "hooked P X H L1 s s1 p pgd TPgd pgd k (TPmd k) 1 ?s3"
    using a(3) P e by (simp add: hooked_def)
  ultimately show ?thesis using a(2) hook [OF i h] by blast
qed (simp add: get_pmd_def)

lemma get_pte_spec:
  assumes i: "pinv P X H L s" and P: "pgd \<in> P" and e: "tab s pgd (TPmd k) = Some f" "pmem s f j = 0" "k < 3" "j < 512"
  shows "get_pte (f, j) (PAGE_PRESENT OR PAGE_RW OR PAGE_USER) s = Some (- 1, s) \<and> free_frames s ZNormal = {} \<or>
    (\<exists>p s' L'. get_pte (f, j) (PAGE_PRESENT OR PAGE_RW OR PAGE_USER) s = Some (0, s') \<and>
       same_off UNIV L L' \<and> pinv P X H L' s' \<and> walked P s s' \<and> tab s' pgd (TPte k j) = Some p \<and>
       nfree s = Suc (nfree s'))"
  using alloc_fresh [OF i]
proof (elim disjE exE conjE)
  fix p s1 L1
  assume a: "pages_alloc GFP_ZERO 0 s = Some (Some p, s1)" "same_off UNIV L L1" "fresh P X H L1 s s1 p"
  let ?s3 = "set_entry (f, j) (mk_entry p 7) (ref_page p s1)"
  have "get_pte (f, j) (PAGE_PRESENT OR PAGE_RW OR PAGE_USER) s = Some (0, ?s3)"
    using a(1) fresh_new_entry(1) [OF a(3), of 7] pte_set_frame(2) [of 7]
    by (simp add: get_pte_def PAGE_PRESENT_def PAGE_RW_def PAGE_USER_def del: of_nat_mult)
  moreover have h: "hooked P X H L1 s s1 p pgd (TPmd k) f j (TPte k j) 7 ?s3"
    using a(3) P e by (simp add: hooked_def)
  ultimately show ?thesis using a(2) hook [OF i h] by blast
qed (simp add: get_pte_def)

section \<open>Walking\<close>

abbreviation vtab :: "u32 \<Rightarrow> tid" where
  "vtab va \<equiv> TPte (pgd_index va) (pmd_index va)"

lemma pmd_offset_tab:
  assumes i: "pinv P X H L s" and P: "pgd \<in> P" "va < KERNEL_BASE_ADDR"
    and t: "tab s pgd (TPmd (pgd_index va)) = Some f"
  shows "pmd_offset (pgd_offset pgd va) va s = Some (f, pmd_index va)"
proof -
  have e: "f = ef (pmem s pgd (pgd_index va))" using t by (simp add: pmd_tab_def split: if_split_asm)
  have "in_zone s ZNormal f"
    using tables_frame(1) [OF pinvD(4) [OF i] P(1) _ t] user_index [OF P(2)] by simp
  then show ?thesis
    using normal_frame [OF i, of f] page_vaddr(1) [of "pmem s pgd (pgd_index va)"] e
    by (simp add: pmd_offset_def pgd_offset_def entry_def)
qed

lemma pte_offset_tab:
  assumes i: "pinv P X H L s" and P: "pgd \<in> P" "va < KERNEL_BASE_ADDR" "va \<noteq> 0"
    and f: "tab s pgd (TPmd (pgd_index va)) = Some f" and t: "tab s pgd (vtab va) = Some t"
  shows "pte_offset (f, pmd_index va) va s = Some (t, pte_index va)"
proof -
  have e: "t = ef (pmem s f (pmd_index va))" using f t by (simp add: tab.simps(3) split: if_split_asm)
  have "in_zone s ZNormal t"
    using tables_frame(1) [OF pinvD(4) [OF i] P(1) _ t] user_index [OF P(2)] by simp
  then show ?thesis
    using normal_frame [OF i, of t] page_vaddr(2) [of "pmem s f (pmd_index va)"] e P(3)
    by (simp add: pte_offset_def entry_def)
qed

lemma vtab_split: "tab s pgd (vtab va) = (case tab s pgd (TPmd (pgd_index va)) of None \<Rightarrow> None
  | Some f \<Rightarrow> if pmem s f (pmd_index va) = 0 then None else Some (ef (pmem s f (pmd_index va))))"
  by (simp add: tab.simps(3))

lemma page_walk_find:
  assumes i: "pinv P X H L s" and P: "pgd \<in> P" "va < KERNEL_BASE_ADDR" "va \<noteq> 0"
  shows "page_walk pgd va False s = Some (map_option (\<lambda>t. (t, pte_index va)) (tab s pgd (vtab va)), s)"
proof (cases "tab s pgd (TPmd (pgd_index va))")
  case None
  then show ?thesis
    by (simp add: vtab_split page_walk_def pgd_none_def entry_def pgd_offset_def pmd_tab_def split: if_split_asm)
next
  case (Some f)
  then have "pmem s pgd (pgd_index va) \<noteq> 0" by (simp add: pmd_tab_def split: if_split_asm)
  then show ?thesis
    using pmd_offset_tab [OF i P(1,2) Some] pte_offset_tab [OF i P Some] Some
    by (auto simp: page_walk_def page_walk_pmd_def pgd_none_def pmd_none_def entry_def pgd_offset_def vtab_split)
qed

lemma page_walk_pmd_create:
  assumes i: "pinv P X H L s" and P: "pgd \<in> P" "va < KERNEL_BASE_ADDR" "va \<noteq> 0"
    and f: "tab s pgd (TPmd (pgd_index va)) = Some f"
  shows "\<exists>r s' L'. page_walk_pmd (pgd_offset pgd va) va True s = Some (r, s') \<and> same_off UNIV L L' \<and>
    pinv P X H L' s' \<and> walked P s s' \<and> nfree s \<le> nfree s' + 1 \<and>
    (r = None \<and> nfree s = 0 \<and> tab s pgd (vtab va) = None \<or> (\<exists>t. r = Some (t, pte_index va) \<and> tab s' pgd (vtab va) = Some t))"
proof (cases "pmem s f (pmd_index va) = 0")
  case False
  then have t: "tab s pgd (vtab va) = Some (ef (pmem s f (pmd_index va)))" using f by (simp add: vtab_split)
  have "page_walk_pmd (pgd_offset pgd va) va True s = Some (Some (ef (pmem s f (pmd_index va)), pte_index va), s)"
    using False pmd_offset_tab [OF i P(1,2) f] pte_offset_tab [OF i P f t]
    by (simp add: page_walk_pmd_def pmd_none_def entry_def)
  then show ?thesis using i t by (intro exI conjI disjI2) auto
next
  case True
  have k: "pgd_index va < 3" "pmd_index va < 512" using user_index [OF P(2)] by simp_all
  note off = pmd_offset_tab [OF i P(1,2) f]
  from get_pte_spec [OF i P(1) f True k] show ?thesis
  proof (elim disjE exE conjE)
    assume "get_pte (f, pmd_index va) (PAGE_PRESENT OR PAGE_RW OR PAGE_USER) s = Some (- 1, s)" "free_frames s ZNormal = {}"
    then show ?thesis
      using off True i f by (auto simp: page_walk_pmd_def pmd_none_def entry_def vtab_split intro!: exI [of _ L])
  next
    fix p s' L'
    assume a: "get_pte (f, pmd_index va) (PAGE_PRESENT OR PAGE_RW OR PAGE_USER) s = Some (0, s')"
      "same_off UNIV L L'" "pinv P X H L' s'" "walked P s s'" "tab s' pgd (vtab va) = Some p"
      "nfree s = Suc (nfree s')"
    obtain f' where f': "tab s' pgd (TPmd (pgd_index va)) = Some f'"
      using a(5) by (auto simp: vtab_split split: option.splits)
    have "page_walk_pmd (pgd_offset pgd va) va True s = Some (Some (p, pte_index va), s')"
      using a(1) off True pmd_offset_tab [OF a(3) P(1,2) f'] pte_offset_tab [OF a(3) P f' a(5)]
      by (simp add: page_walk_pmd_def pmd_none_def entry_def)
    then show ?thesis using a by auto
  qed
qed

lemma page_walk_create:
  assumes i: "pinv P X H L s" and P: "pgd \<in> P" "va < KERNEL_BASE_ADDR" "va \<noteq> 0"
  shows "\<exists>r s' L'. page_walk pgd va True s = Some (r, s') \<and> same_off UNIV L L' \<and> pinv P X H L' s' \<and> walked P s s' \<and>
    nfree s \<le> nfree s' + 2 \<and> (r = None \<and> nfree s \<le> 1 \<and> tab s pgd (vtab va) = None \<or> (\<exists>t. r = Some (t, pte_index va) \<and> tab s' pgd (vtab va) = Some t))"
proof (cases "pmem s pgd (pgd_index va) = 0")
  case False
  then obtain f where f: "tab s pgd (TPmd (pgd_index va)) = Some f" by (simp add: pmd_tab_def)
  have "page_walk pgd va True s = page_walk_pmd (pgd_offset pgd va) va True s"
    using False by (simp add: page_walk_def pgd_none_def entry_def pgd_offset_def)
  moreover obtain r s2 L2 where "page_walk_pmd (pgd_offset pgd va) va True s = Some (r, s2)" "same_off UNIV L L2"
    "pinv P X H L2 s2" "walked P s s2" "nfree s \<le> nfree s2 + 1"
    "r = None \<and> nfree s = 0 \<and> tab s pgd (vtab va) = None \<or> (\<exists>t. r = Some (t, pte_index va) \<and> tab s2 pgd (vtab va) = Some t)"
    using page_walk_pmd_create [OF i P f] by blast
  ultimately show ?thesis by auto
next
  case True
  then have none: "tab s pgd (vtab va) = None" by (simp add: vtab_split pmd_tab_def)
  from get_pmd_spec [OF i P(1) True user_index [OF P(2)]] show ?thesis
  proof (elim disjE exE conjE)
    assume "get_pmd (pgd, pgd_index va) (PAGE_PRESENT OR PAGE_RW OR PAGE_USER) s = Some (- 1, s)" and no: "free_frames s ZNormal = {}"
    then have "page_walk pgd va True s = Some (None, s)"
      using True by (simp add: page_walk_def pgd_none_def entry_def pgd_offset_def)
    then show ?thesis using i no none by (auto intro!: exI [of _ L])
  next
    fix p s' L'
    assume a: "get_pmd (pgd, pgd_index va) (PAGE_PRESENT OR PAGE_RW OR PAGE_USER) s = Some (0, s')"
      "same_off UNIV L L'" "pinv P X H L' s'" "walked P s s'" "tab s' pgd (TPmd (pgd_index va)) = Some p"
      "nfree s = Suc (nfree s')"
    have "page_walk pgd va True s = page_walk_pmd (pgd_offset pgd va) va True s'"
      using True a(1) by (simp add: page_walk_def pgd_none_def entry_def pgd_offset_def)
    moreover obtain r s2 L2 where "page_walk_pmd (pgd_offset pgd va) va True s' = Some (r, s2)" "same_off UNIV L' L2"
      "pinv P X H L2 s2" "walked P s' s2" "nfree s' \<le> nfree s2 + 1"
      "r = None \<and> nfree s' = 0 \<and> tab s' pgd (vtab va) = None \<or> (\<exists>t. r = Some (t, pte_index va) \<and> tab s2 pgd (vtab va) = Some t)"
      using page_walk_pmd_create [OF a(3) P a(5)] by blast
    ultimately show ?thesis using same_off_trans [OF a(2)] walked_trans [OF a(4)] none a(6) by auto
  qed
qed

section \<open>Dropping a reference\<close>

definition dropped :: "mnode set \<Rightarrow> (mnode \<Rightarrow> mnode list) \<Rightarrow> (mnode \<Rightarrow> mnode list) \<Rightarrow> nat \<Rightarrow> mmst \<Rightarrow> mmst \<Rightarrow> bool" where
  "dropped H L L' p s s' \<longleftrightarrow>
     binv UNIV H L' s' \<and> same_off UNIV L L' \<and> zone_layout s' \<and> in_zone s' = in_zone s \<and> max_pfn s' = max_pfn s \<and>
     pmem s' = pmem s \<and> (\<forall>f. pg_flags (mempage s' f) = pg_flags (mempage s f)) \<and>
     (\<forall>f. pg_nref (mempage s' f) = (if f = p then pg_nref (mempage s f) - 1 else pg_nref (mempage s f))) \<and>
     free_frames s' ZHigh = free_frames s ZHigh \<and>
     free_frames s' ZNormal = free_frames s ZNormal \<union> {f. f = p \<and> pg_nref (mempage s p) = 1}"

lemma page_decref_spec:
  assumes b: "binv UNIV H L s" "zone_layout s" and p: "in_zone s ZNormal p" "p \<notin> free_frames s ZNormal"
    "pg_flags (mempage s p) AND pg_reserved = 0" "unlisted UNIV H L {p}"
  shows "\<exists>s' L'. page_decref p s = Some s' \<and> dropped H L L' p s s'"
proof -
  let ?f = "\<lambda>g. g\<lparr>pg_nref := pg_nref g - 1\<rparr>"
  let ?s1 = "upd_page p ?f s"
  have fr: "free_frames ?s1 = free_frames s" "in_zone ?s1 = in_zone s" "zone_layout ?s1 = zone_layout s" "blk_ok ?s1 = blk_ok s"
    by (simp_all add: upd_page_free)
  have nf: "p \<notin> free_frames s z" for z using normal_not_high [OF b(1) p(1)] p(2) by (cases z) auto
  have b1: "binv UNIV H L ?s1" using b(1) nf by (subst binv_upd_page) auto
  show ?thesis
  proof (cases "pg_nref (mempage s p) = 1")
    case False
    then have "page_decref p s = Some ?s1"
      by (simp add: page_decref_def atomic_dec_and_test_def upd_page_def Let_def)
    moreover have "dropped H L L p s ?s1" using b1 b(2) fr False by (auto simp: dropped_def)
    ultimately show ?thesis by blast
  next
    case True
    have bl: "block p 0 = {p}" by (auto simp: block_def)
    have "loose UNIV H L ZNormal p 0 ?s1"
      using p True fr by (simp add: loose_def bl blk_ok_def in_zone_def clean_def MAXORDER_def)
    from pages_free_spec [OF b1 _ this] b(2) fr obtain s' L' where s': "pages_free p 0 ?s1 = Some s'" "binv UNIV H L' s'"
      "same_off UNIV L L'" "same_shape ?s1 s'"
      "\<forall>z'. free_frames s' z' = (if z' = ZNormal then free_frames s ZNormal \<union> {p} else free_frames s z')"
      by (auto simp: bl)
    have "page_decref p s = Some s'"
      using True s'(1) by (simp add: page_decref_def atomic_dec_and_test_def page_free_def upd_page_def Let_def)
    moreover have pg: "pg_nref (mempage s' f) = pg_nref (mempage ?s1 f)" "pg_flags (mempage s' f) = pg_flags (mempage ?s1 f)" for f
    proof -
      have e: "(mempage s' f)\<lparr>pg_order := 0\<rparr> = (mempage ?s1 f)\<lparr>pg_order := 0\<rparr>"
        using s'(4) unfolding same_shape_def by blast
      show "pg_nref (mempage s' f) = pg_nref (mempage ?s1 f)" "pg_flags (mempage s' f) = pg_flags (mempage ?s1 f)"
        using arg_cong [OF e, of pg_nref] arg_cong [OF e, of pg_flags] by simp_all
    qed
    have "in_zone s' = in_zone s" using fr(2) same_shape_sel(1) [OF s'(4)] by (simp add: fun_eq_iff)
    then have "dropped H L L' p s s'"
      using s' b(2) fr(3) zone_layout_shape [OF s'(4)] True pg same_shape_sel(5,6) [OF s'(4)]
      by (auto simp: dropped_def)
    ultimately show ?thesis by blast
  qed
qed

section \<open>Writing a slot\<close>

lemma tables_ok_write:
  assumes ok: "tables_ok P s" and P: "pgd \<in> P" and t: "tab s pgd (TPte i j) = Some t" "i < 3" "j < 512"
  shows "tables_ok P (set_entry (t, k) v s)"
proof -
  let ?s = "set_entry (t, k) v s"
  have tb: "tab ?s pgd' t' = tab s pgd' t'" if "pgd' \<in> P" "t' \<in> tids" for pgd' t'
    using tab_write_pte [OF ok P that(1) t that(2)] .
  have up: "pmem ?s f = pmem s f" if "pgd' \<in> P" "u \<in> tids" "tab s pgd' u = Some f" "\<forall>i j. u \<noteq> TPte i j" for pgd' u f
    using tables_inj [OF ok P that(1) _ that(2) t(1)] t(2,3) that(3,4) by (auto simp: set_entry_def)
  show ?thesis
    unfolding tables_ok_def
  proof (intro conjI ballI allI impI)
    fix pgd' t' f assume a: "pgd' \<in> P" "t' \<in> tids" "tab ?s pgd' t' = Some f"
    then show "in_zone ?s ZNormal f" "f \<notin> free_frames ?s ZNormal"
      using tb tables_frame [OF ok a(1,2)] by auto
  next
    fix pgd1 pgd2 t1 t2 f
    assume a: "pgd1 \<in> P" "pgd2 \<in> P" "t1 \<in> tids" "t2 \<in> tids" "tab ?s pgd1 t1 = Some f" "tab ?s pgd2 t2 = Some f"
    show "pgd1 = pgd2" "t1 = t2" using tables_inj [OF ok a(1-4)] a tb by auto
  next
    fix pgd' m assume a: "pgd' \<in> P" "m < (3::nat)" "pmem ?s pgd' m \<noteq> 0"
    then show "pmem ?s pgd' m AND 0xFFF = 1" using up [of pgd' TPgd] tables_flags(1) [OF ok a(1,2)] by simp
  next
    fix pgd' m n f
    assume a: "pgd' \<in> P" "m < (3::nat)" "n < (512::nat)" "tab ?s pgd' (TPmd m) = Some f" "pmem ?s f n \<noteq> 0"
    have f: "tab s pgd' (TPmd m) = Some f" using tb [of pgd' "TPmd m"] a by simp
    then show "pmem ?s f n AND 0xFFF = 7" using up [OF a(1) _ f] tables_flags(2) [OF ok a(1-3) f] a(2,5) by simp
  qed
qed

lemma maps_write:
  assumes ok: "tables_ok P s" and P: "pgd \<in> P" and t: "tab s pgd (TPte i j) = Some t" "i < 3" "j < 512" "k < 512"
  shows "maps (set_entry (t, k) v s) P f =
    (maps s P f - {(pgd, i, j, k)}) \<union> (if pte_present v \<and> ef v = f then {(pgd, i, j, k)} else {})"
  using pte_write_pte [OF ok P _ t(1-3)] P t(2-4) by (auto simp: maps_def slots_def split: if_split_asm)

lemma maps_finite: "finite P \<Longrightarrow> finite (maps s P f)"
  by (rule finite_subset [of _ "P \<times> slots"]) (auto simp: maps_def slots_def)

section \<open>Removing a mapping\<close>

definition removed :: "nat set \<Rightarrow> (nat \<Rightarrow> nat) \<Rightarrow> mnode set \<Rightarrow> (mnode \<Rightarrow> mnode list) \<Rightarrow> (mnode \<Rightarrow> mnode list) \<Rightarrow>
    nat \<Rightarrow> slot \<Rightarrow> mmst \<Rightarrow> mmst \<Rightarrow> bool" where
  "removed P X H L L' pgd v s s' \<longleftrightarrow>
     pinv P X H L' s' \<and> same_off UNIV L L' \<and> in_zone s' = in_zone s \<and> max_pfn s' = max_pfn s \<and>
     (\<forall>pgd'\<in>P. \<forall>t\<in>tids. tab s' pgd' t = tab s pgd' t) \<and>
     (\<forall>pgd'\<in>P. \<forall>w\<in>slots. pte s' pgd' w =
        (if pgd' = pgd \<and> w = v \<and> pte_present (pte s pgd v) then 0 else pte s pgd' w)) \<and>
     (\<forall>f. \<not> is_table P s f \<longrightarrow> pmem s' f = pmem s f) \<and>
     free_frames s' ZHigh = free_frames s ZHigh \<and>
     free_frames s' ZNormal = free_frames s ZNormal \<union>
       {f. pte_present (pte s pgd v) \<and> ef (pte s pgd v) = f \<and> card (maps s P f) + X f = 1} \<and>
     (\<forall>f. upage P X H L s f \<longrightarrow> f \<notin> free_frames s' ZNormal \<longrightarrow> upage P X H L' s' f)"

lemma removed_same:
  assumes "pinv P X H L s" "\<not> pte_present (pte s pgd v)"
  shows "removed P X H L L pgd v s s"
  using assms by (simp add: removed_def)

lemma count_nref:
  assumes "upage P X H L s q"
  shows "pg_nref (mempage s q) = 1 \<longleftrightarrow> card (maps s P q) + X q = 1"
proof -
  define n where "n = card (maps s P q) + X q"
  have n: "pg_nref (mempage s q) = of_nat n" "n < 2 ^ 32" using assms by (simp_all add: upage_def n_def)
  then have "unat (pg_nref (mempage s q)) = n" by (simp add: unat_of_nat)
  then show ?thesis using n(1) by (fold n_def) (metis unat_1 of_nat_1)
qed

lemma drop_slot:
  assumes i: "pinv P X H L s" and P: "pgd \<in> P" and t: "tab s pgd (TPte a b) = Some t" "a < 3" "b < 512" "k < 512"
    and pr: "pte_present (pte s pgd (a, b, k))" and d: "dropped H L L' (ef (pte s pgd (a, b, k))) s s2"
  shows "removed P X H L L' pgd (a, b, k) s (set_entry (t, k) 0 s2)"
proof -
  let ?v = "(a, b, k)" let ?s' = "set_entry (t, k) 0 s2"
  define q where "q = ef (pte s pgd ?v)"
  note dd = d [unfolded dropped_def, folded q_def] and ok = pinvD(4) [OF i]
  have v: "?v \<in> slots" using t by (simp add: slots_def)
  have qm: "(pgd, ?v) \<in> maps s P q" using P v pr by (simp add: maps_def q_def)
  then have uq: "upage P X H L s q" using pinvD(5) [OF i] by blast
  have one: "pg_nref (mempage s q) = 1 \<longleftrightarrow> card (maps s P q) + X q = 1" using count_nref [OF uq] .
  have st: "tab s2 pgd' t = tab s pgd' t" "pte s2 pgd' w = pte s pgd' w"
    if "pgd' \<in> P" "t \<in> tids" "w \<in> slots" for pgd' t w
    using same_tables [of P s s2 pgd'] dd that by auto
  have ok2: "tables_ok P s2"
  proof (rule tables_ok_same [OF ok])
    fix f assume "is_table P s f"
    then show "pmem s2 f = pmem s f \<and> f \<notin> free_frames s2 ZNormal"
      using dd uq tables_frame(2) [OF ok] by (auto simp: is_table_def upage_def)
  qed (use dd in simp)
  have t2: "tab s2 pgd (TPte a b) = Some t" using st(1) [OF P _ v, of "TPte a b"] t by simp
  have mp: "maps ?s' P f = maps s P f - {(pgd, ?v)}" for f
    using maps_write [OF ok2 P t2 t(2-4), of 0 f] same_maps [of P s2 s] st(2) [of _ TPgd]
    by (simp add: pte_present_def)
  have tb: "tab ?s' pgd' u = tab s pgd' u" if "pgd' \<in> P" "u \<in> tids" for pgd' u
    using tab_write_pte [OF ok2 P that(1) t2 t(2,3) that(2)] st(1) [OF that v] by simp
  have up: "upage P X H L' ?s' f" if f: "upage P X H L s f" "f \<notin> free_frames s2 ZNormal" for f
  proof -
    have "card (maps ?s' P f) = (if f = q then card (maps s P f) - 1 else card (maps s P f))"
      using mp qm by (auto simp: maps_def q_def)
    moreover have "0 < card (maps s P q)" using qm maps_finite [OF pinvD(1) [OF i]] card_gt_0_iff by blast
    ultimately show ?thesis
      using f dd same_is_table [of P ?s' s, OF tb] unlisted_off [of UNIV L L' H "{f}"] unfolding upage_def
      by (auto simp: of_nat_diff Suc_leI)
  qed
  have "pinv P X H L' ?s'"
    unfolding pinv_def
  proof (intro conjI allI impI)
    show "tables_ok P ?s'" using tables_ok_write [OF ok2 P t2 t(2,3)] .
    fix f assume m: "maps ?s' P f \<noteq> {}"
    then have uf: "upage P X H L s f" using pinvD(5) [OF i] mp by blast
    have "f = q \<Longrightarrow> card (maps s P q) \<noteq> 1" using m mp qm by (auto simp: card_1_singleton_iff)
    moreover have "0 < card (maps s P q)" using qm maps_finite [OF pinvD(1) [OF i]] card_gt_0_iff by blast
    ultimately have "f \<notin> free_frames s2 ZNormal" using uf dd one by (auto simp: upage_def)
    then show "upage P X H L' ?s' f" using up uf by blast
  qed (use pinvD(1) [OF i] dd in simp_all)
  moreover have "pte ?s' pgd' w = (if pgd' = pgd \<and> w = ?v then 0 else pte s pgd' w)" if "pgd' \<in> P" "w \<in> slots" for pgd' w
    using pte_write_pte [OF ok2 P that(1) t2 t(2,3) that(2)] st(2) [of _ TPgd] that by simp
  moreover have "pmem ?s' f = pmem s f" if "\<not> is_table P s f" for f
    using that tableI [OF P _ t(1)] t(2,3) dd by (auto simp: set_entry_def)
  ultimately show ?thesis unfolding removed_def using dd one tb up pr by (auto simp: q_def)
qed

lemma present_tab: "pte_present (pte s pgd (vslot va)) \<Longrightarrow> \<exists>t. tab s pgd (vtab va) = Some t"
  by (auto simp: pte_def vslot_def pte_present_def split: option.splits)

lemma pte_at: "tab s pgd (vtab va) = Some t \<Longrightarrow> entry s (t, pte_index va) = pte s pgd (vslot va)"
  by (simp add: pte_def vslot_def entry_def)

lemma page_lookup_spec:
  assumes i: "pinv P X H L s" and P: "pgd \<in> P" "va < KERNEL_BASE_ADDR" "va \<noteq> 0"
  shows "page_lookup pgd va s =
    Some (if pte_present (pte s pgd (vslot va))
          then Some (ef (pte s pgd (vslot va)), the (tab s pgd (vtab va)), pte_index va) else None, s)"
proof (cases "pte_present (pte s pgd (vslot va))")
  case True
  then obtain t where t: "tab s pgd (vtab va) = Some t" using present_tab by blast
  let ?q = "ef (pte s pgd (vslot va))"
  have "(pgd, vslot va) \<in> maps s P ?q" using P True by (simp add: maps_def)
  then have q: "in_zone s ZNormal ?q" using pinvD(5) [OF i] by (auto simp: upage_def)
  show ?thesis
    using True t page_walk_find [OF i P] pte_at [OF t] page_vaddr(3) [of "pte s pgd (vslot va)"] normal_frame [OF i q] P(3)
    by (simp add: page_lookup_def)
next
  case False
  then show ?thesis
    using page_walk_find [OF i P] pte_at P(3) by (auto simp: page_lookup_def split: option.splits)
qed

lemma page_remove_spec:
  assumes i: "pinv P X H L s" and P: "pgd \<in> P" "va < KERNEL_BASE_ADDR" "va \<noteq> 0"
  shows "\<exists>s' L'. page_remove pgd va s = Some s' \<and> removed P X H L L' pgd (vslot va) s s'"
proof (cases "pte_present (pte s pgd (vslot va))")
  case False
  then have "page_remove pgd va s = Some s" using page_lookup_spec [OF i P] P(3) by (simp add: page_remove_def)
  then show ?thesis using removed_same [OF i False] by blast
next
  case True
  then obtain t where t: "tab s pgd (vtab va) = Some t" using present_tab by blast
  let ?q = "ef (pte s pgd (vslot va))"
  have "(pgd, vslot va) \<in> maps s P ?q" using P True by (simp add: maps_def)
  then have "upage P X H L s ?q" using pinvD(5) [OF i] by blast
  then obtain s2 L' where s2: "page_decref ?q s = Some s2" "dropped H L L' ?q s s2"
    using page_decref_spec [OF pinvD(2,3) [OF i], of ?q] by (auto simp: upage_def)
  have "page_remove pgd va s = Some (set_entry (t, pte_index va) 0 s2)"
    using True t page_lookup_spec [OF i P] s2(1) P(3) by (simp add: page_remove_def pte_set_zero)
  moreover have "removed P X H L L' pgd (vslot va) s (set_entry (t, pte_index va) 0 s2)"
    using drop_slot [OF i P(1) t user_index [OF P(2)] index_lt(2,3)] True s2(2) by (simp add: vslot_def)
  ultimately show ?thesis by blast
qed

end
