(* ===== verification/Paging_Insert.thy ===== *)
theory Paging_Insert
  imports Paging_Walk
begin

text \<open>
  Inserting a mapping: the counter goes up first, an old mapping of the address goes, the
  entry is written. The lemmas follow these three steps.
\<close>

lemma upage_X:
  "upage P (X(p := n)) H L s f \<longleftrightarrow> (if f = p then upage P (\<lambda>_. n) H L s f else upage P X H L s f)"
  by (simp add: upage_def)

lemma ref_upage:
  assumes "upage P X H L s f" "f = p \<Longrightarrow> card (maps s P p) + X p + 1 < 2 ^ 32"
  shows "upage P (X(p := X p + 1)) H L (ref_page p s) f"
  using assms by (auto simp: upage_def)

lemma ref_pinv:
  assumes i: "pinv P X H L s" and u: "upage P X H L s p" and lt: "card (maps s P p) + X p + 1 < 2 ^ 32"
  shows "pinv P (X(p := X p + 1)) H L (ref_page p s)"
proof -
  have "p \<notin> free_frames s z" for z
    using u normal_not_high [OF pinvD(2) [OF i], of p] by (cases z) (auto simp: upage_def)
  then have "binv UNIV H L (ref_page p s)" using pinvD(2) [OF i] by simp
  moreover have "tables_ok P (ref_page p s)" using pinvD(4) [OF i] by (simp add: tables_ok_def)
  ultimately show ?thesis
    using i ref_upage [of P X H L s _ p] lt unfolding pinv_def by simp
qed

lemma mk_entry_present:
  assumes "p < 2 ^ 52" "perm AND 0xFFF = perm" "perm AND PAGE_PRESENT \<noteq> 0"
  shows "pte_present (mk_entry p perm)"
proof -
  have "bit perm 0" using assms(3) and_exp_eq_0_iff_not_bit [of perm 0] by (simp add: PAGE_PRESENT_def)
  then show ?thesis using mk_entry_bit [OF assms(2), of p 0] by (simp add: flag_bits)
qed

text \<open>Writing an entry for \<open>p\<close> into an empty slot turns one kernel reference into a mapping.\<close>

lemma set_slot:
  assumes i: "pinv P (X(p := X p + 1)) H L s" and u: "upage P (X(p := X p + 1)) H L s p" and P: "pgd \<in> P"
    and t: "tab s pgd (TPte a b) = Some t" "a < 3" "b < 512" "k < 512"
    and pr: "\<not> pte_present (pte s pgd (a, b, k))" and e: "pte_present e" "ef e = p"
    and s': "s' = set_entry (t, k) e s"
  shows "pinv P X H L s'" "upage P X H L s' p"
    "f \<noteq> p \<Longrightarrow> upage P (X(p := X p + 1)) H L s f \<Longrightarrow> upage P X H L s' f"
    "pgd' \<in> P \<Longrightarrow> w \<in> slots \<Longrightarrow> pte s' pgd' w = (if pgd' = pgd \<and> w = (a, b, k) then e else pte s pgd' w)"
    "is_table P s' = is_table P s"
proof -
  note ok = pinvD(4) [OF i]
  have nm: "(pgd, a, b, k) \<notin> maps s P f" for f using pr by (simp add: maps_def)
  have mp: "maps s' P f = (if f = p then insert (pgd, a, b, k) (maps s P f) else maps s P f)" for f
    using maps_write [OF ok P t, of e f] e nm unfolding s' by auto
  have cp: "card (maps s' P p) = Suc (card (maps s P p))"
    using mp [of p] nm maps_finite [OF pinvD(1) [OF i]] by simp
  show tb: "is_table P s' = is_table P s"
    using tab_write_pte [OF ok P _ t(1-3)] unfolding s' by (intro same_is_table)
  have fr: "in_zone s' = in_zone s" "free_frames s' = free_frames s" "mempage s' = mempage s" unfolding s' by simp_all
  show up: "upage P X H L s' p" using u cp tb fr by (simp add: upage_def)
  show uf: "upage P X H L s' f" if "f \<noteq> p" "upage P (X(p := X p + 1)) H L s f" for f
    using that mp [of f] tb fr by (simp add: upage_def)
  show "pinv P X H L s'"
    unfolding pinv_def
  proof (intro conjI allI impI)
    show "tables_ok P s'" unfolding s' by (rule tables_ok_write [OF ok P t(1-3)])
    fix f assume "maps s' P f \<noteq> {}"
    then show "upage P X H L s' f" using up uf [of f] pinvD(5) [OF i, of f] mp [of f] by (cases "f = p") auto
  qed (use pinvD(1-3) [OF i] in \<open>simp_all add: s'\<close>)
  show "pgd' \<in> P \<Longrightarrow> w \<in> slots \<Longrightarrow> pte s' pgd' w = (if pgd' = pgd \<and> w = (a, b, k) then e else pte s pgd' w)"
    unfolding s' by (rule pte_write_pte [OF ok P _ t(1-3)])
qed

section \<open>The whole operation\<close>

definition inserted :: "nat set \<Rightarrow> (nat \<Rightarrow> nat) \<Rightarrow> mnode set \<Rightarrow> (mnode \<Rightarrow> mnode list) \<Rightarrow> (mnode \<Rightarrow> mnode list) \<Rightarrow>
    nat \<Rightarrow> slot \<Rightarrow> nat \<Rightarrow> u64 \<Rightarrow> mmst \<Rightarrow> mmst \<Rightarrow> bool" where
  "inserted P X H L L' pgd v p e s s' \<longleftrightarrow>
     pinv P X H L' s' \<and> same_off UNIV L L' \<and> in_zone s' = in_zone s \<and> max_pfn s' = max_pfn s \<and>
     upage P X H L' s' p \<and>
     (\<forall>pgd'\<in>P. \<forall>w\<in>slots. pte s' pgd' w = (if pgd' = pgd \<and> w = v then e else pte s pgd' w)) \<and>
     (\<forall>f. f \<notin> free_frames s ZNormal \<longrightarrow> \<not> is_table P s f \<longrightarrow> pmem s' f = pmem s f \<and> \<not> is_table P s' f \<and>
        (f \<in> free_frames s' ZNormal \<longleftrightarrow> f \<noteq> p \<and> pte_present (pte s pgd v) \<and> ef (pte s pgd v) = f \<and>
           card (maps s P f) + X f = 1)) \<and>
     (\<forall>f. upage P X H L s f \<longrightarrow> f \<notin> free_frames s' ZNormal \<longrightarrow> upage P X H L' s' f)"

lemma insert_finish:
  assumes w: "walked P s s1" "same_off UNIV L L1" and i: "pinv P X H L1 s1" and u: "upage P X H L s p"
    and lt: "card (maps s P p) + X p + 1 < 2 ^ 32"
    and rm: "removed P (X(p := X p + 1)) H L1 L3 pgd (a, b, k) (ref_page p s1) s3"
    and P: "pgd \<in> P" and t: "tab s3 pgd (TPte a b) = Some t" "a < 3" "b < 512" "k < 512"
    and e: "pte_present e" "ef e = p"
  shows "inserted P X H L L3 pgd (a, b, k) p e s (set_entry (t, k) e s3)"
proof -
  let ?X = "X(p := X p + 1)" let ?s2 = "ref_page p s1" let ?v = "(a, b, k)" let ?s4 = "set_entry (t, k) e s3"
  note rd = rm [unfolded removed_def] and wd = w(1) [unfolded walked_def]
  have v: "?v \<in> slots" using t by (simp add: slots_def)
  have mp: "maps s1 P = maps s P" using walked_maps [OF w(1)] .
  have old: "pte s1 pgd ?v = pte s pgd ?v" using wd P v by simp
  have u1: "upage P X H L1 s1 f" if "upage P X H L s f" for f using walked_upage [OF w that] .
  have u2: "upage P ?X H L1 ?s2 f" if "upage P X H L s f" for f
    using ref_upage [OF u1 [OF that], of p] lt mp by simp
  have two: "pte_present (pte s1 pgd ?v) \<Longrightarrow> ef (pte s1 pgd ?v) = p \<Longrightarrow> 0 < card (maps s1 P p)"
    using maps_finite [OF pinvD(1) [OF i]] P v card_gt_0_iff [of "maps s1 P p"] by (auto simp: maps_def)
  have fr: "f \<in> free_frames s3 ZNormal \<longleftrightarrow> f \<noteq> p \<and> pte_present (pte s pgd ?v) \<and> ef (pte s pgd ?v) = f \<and>
      card (maps s P f) + X f = 1" if "f \<notin> free_frames s ZNormal" for f
    using rd wd that two old mp by auto
  have pnf: "p \<notin> free_frames s3 ZNormal" using fr [of p] u by (simp add: upage_def)
  have u3: "upage P ?X H L3 s3 f" if "upage P X H L s f" "f \<notin> free_frames s3 ZNormal" for f
    using rd u2 that by blast
  have np: "\<not> pte_present (pte s3 pgd ?v)" using rd P v by (auto simp: pte_present_def)
  have i3: "pinv P ?X H L3 s3" using rd by blast
  note ss = set_slot [OF i3 u3 [OF u pnf] P t np e refl]
  have "upage P X H L3 ?s4 f" if "upage P X H L s f" "f \<notin> free_frames s3 ZNormal" for f
    using ss(2) ss(3) [OF _ u3 [OF that]] by (cases "f = p") auto
  moreover have "same_off UNIV L L3" using rd w(2) same_off_trans by blast
  moreover have "pte ?s4 pgd' x = (if pgd' = pgd \<and> x = ?v then e else pte s pgd' x)" if "pgd' \<in> P" "x \<in> slots" for pgd' x
    using ss(4) [OF that] rd wd that by simp
  moreover have it: "is_table P s3 = is_table P s1" using rd same_is_table [of P s3 ?s2] by simp
  moreover have "pmem ?s4 f = pmem s f \<and> \<not> is_table P ?s4 f" if "f \<notin> free_frames s ZNormal" "\<not> is_table P s f" for f
  proof -
    have n1: "\<not> is_table P s1 f" "pmem s1 f = pmem s f" using wd that by auto
    moreover have "f \<noteq> t" using tableI [OF P _ t(1)] t(2,3) n1(1) it by auto
    ultimately show ?thesis using rd ss(5) it by (auto simp: set_entry_def)
  qed
  ultimately show ?thesis
    unfolding inserted_def using ss(1,2) rd wd fr by simp
qed

lemma page_insert_spec:
  assumes i: "pinv P X H L s" and u: "upage P X H L s p" and lt: "card (maps s P p) + X p + 1 < 2 ^ 32"
    and P: "pgd \<in> P" "va < KERNEL_BASE_ADDR" "va \<noteq> 0"
    and perm: "perm AND 0xFFF = perm" "perm AND PAGE_PRESENT \<noteq> 0"
  shows "\<exists>s' L'. page_insert pgd p va perm s = Some (- errno_val ENOMEM, s') \<and> same_off UNIV L L' \<and>
      pinv P X H L' s' \<and> walked P s s' \<and> nfree s \<le> 1 \<and> tab s pgd (vtab va) = None \<or>
    page_insert pgd p va perm s = Some (0, s') \<and> inserted P X H L L' pgd (vslot va) p (mk_entry p perm) s s' \<and>
      nfree s \<le> nfree s' + 2"
proof -
  obtain r s1 L1 where w: "page_walk pgd va True s = Some (r, s1)" "same_off UNIV L L1" "pinv P X H L1 s1" "walked P s s1"
    "nfree s \<le> nfree s1 + 2"
    "r = None \<and> nfree s \<le> 1 \<and> tab s pgd (vtab va) = None \<or> (\<exists>t. r = Some (t, pte_index va) \<and> tab s1 pgd (vtab va) = Some t)"
    using page_walk_create [OF i P] by blast
  show ?thesis
  proof (cases r)
    case None
    then have "page_insert pgd p va perm s = Some (- errno_val ENOMEM, s1)" using w(1) P(3) by (simp add: page_insert_def)
    then show ?thesis using w(2-4,6) None by blast
  next
    case (Some l)
    then obtain t where r: "r = Some (t, pte_index va)" and t: "tab s1 pgd (vtab va) = Some t" using w(6) by auto
    let ?X = "X(p := X p + 1)" let ?s2 = "ref_page p s1"
    have mp: "maps s1 P = maps s P" using walked_maps [OF w(4)] .
    have u1: "upage P X H L1 s1 p" using walked_upage [OF w(4,2) u] .
    have i2: "pinv P ?X H L1 ?s2" and u2: "upage P ?X H L1 ?s2 p"
      using ref_pinv [OF w(3) u1] ref_upage [OF u1, of p] lt mp by simp_all
    have v: "vslot va \<in> slots" using P(2) by simp
    have old: "pte s1 pgd (vslot va) = pte s pgd (vslot va)" using w(4) P(1) v by (simp add: walked_def)
    obtain s3 L3 where s3: "(if pte_present (entry ?s2 (t, pte_index va)) then page_remove pgd va ?s2 else Some ?s2) = Some s3"
      "removed P ?X H L1 L3 pgd (vslot va) ?s2 s3"
    proof (cases "pte_present (pte s1 pgd (vslot va))")
      case True
      then show ?thesis using page_remove_spec [OF i2 P] that pte_at [of ?s2 pgd va t] t by auto
    next
      case False
      then show ?thesis using removed_same [OF i2, of pgd "vslot va"] that pte_at [of ?s2 pgd va t] t by auto
    qed
    note rd = s3(2) [unfolded removed_def]
    let ?s4 = "set_entry (t, pte_index va) (mk_entry p perm) s3"
    have pz: "in_zone s3 ZNormal p" "p < 2 ^ 52" "p < max_pfn s3"
      using rd u1 normal_frame [of P ?X H L3 s3 p] by (auto simp: upage_def)
    have run: "page_insert pgd p va perm s = Some (0, ?s4)"
      using w(1) r s3(1) pz(3) P(3) pte_set_frame(1) [OF perm(1)]
      by (simp add: page_insert_def page2phys_def page2pfn_def del: of_nat_mult)
    have t3: "tab s3 pgd (vtab va) = Some t" using rd t P(1) user_index [OF P(2)] by simp
    have "inserted P X H L L3 pgd (vslot va) p (mk_entry p perm) s ?s4"
      unfolding vslot_def
      using insert_finish [OF w(4,2,3) u lt s3(2) [unfolded vslot_def] P(1) t3 user_index [OF P(2)] index_lt(2,3)]
        mk_entry_present [OF pz(2) perm] mk_entry(1) [OF pz(2) perm(1)] by blast
    moreover have "nfree s \<le> nfree ?s4 + 2"
    proof -
      have "finite (free_frames s3 ZNormal)"
        using rd pinvD(2) [of P ?X H L3 s3] finite_free_frames [of UNIV H L3 s3 ZNormal] by (simp add: binv_def)
      then have "nfree s1 \<le> nfree s3" using rd by (intro card_mono) auto
      then show ?thesis using w(5) by simp
    qed
    ultimately show ?thesis using run by blast
  qed
qed

section \<open>What the processor sees\<close>

text \<open>On well-formed tables the translation of a user address is decided by its slot alone.\<close>

lemma mmu_slot:
  assumes ok: "tables_ok P s" and P: "pgd \<in> P" "va < KERNEL_BASE_ADDR"
  shows "mmu s pgd va = (let e = pte s pgd (vslot va) in
    if pte_present e then Some (ef e, pte_write e, e AND ucast PAGE_USER \<noteq> 0) else None)"
proof -
  note k = user_index [OF P(2)]
  let ?e1 = "pmem s pgd (pgd_index va)"
  let ?e2 = "pmem s (ef ?e1) (pmd_index va)"
  show ?thesis
  proof (cases "?e1 = 0 \<or> ?e2 = 0")
    case True
    then have "pte s pgd (vslot va) = 0" by (auto simp: pte_def vslot_def tab.simps(3) pmd_tab_def)
    then show ?thesis using True by (auto simp: mmu_def Let_def flag_bits)
  next
    case False
    then have t: "tab s pgd (TPmd (pgd_index va)) = Some (ef ?e1)" by (simp add: pmd_tab_def)
    have "bit ?e1 0" using low_bit [of 0 ?e1 1] tables_flags(1) [OF ok P(1) k] False by simp
    moreover have "?e2 AND 0xFFF = 7" using tables_flags(2) [OF ok P(1) k _ t] False by simp
    then have "bit ?e2 0" "bit ?e2 1" "bit ?e2 2" using low_bit [of 0 ?e2 7] low_bit [of 1 ?e2 7] low_bit [of 2 ?e2 7]
      by (simp_all add: numeral_2_eq_2)
    moreover have "pte s pgd (vslot va) = pmem s (ef ?e2) (pte_index va)"
      using t False by (simp add: pte_def vslot_def tab.simps(3))
    ultimately show ?thesis by (simp add: mmu_def Let_def flag_bits)
  qed
qed

section \<open>A new address space\<close>

lemma empty_pgd:
  assumes "\<forall>i<3. pmem s pgd i = 0"
  shows "t \<in> tids \<Longrightarrow> tab s pgd t = Some f \<Longrightarrow> t = TPgd \<and> f = pgd" "v \<in> slots \<Longrightarrow> pte s pgd v = 0"
proof -
  have m: "i < 3 \<Longrightarrow> pmd_tab s pgd i = None" for i using assms by (simp add: pmd_tab_def)
  then show "t \<in> tids \<Longrightarrow> tab s pgd t = Some f \<Longrightarrow> t = TPgd \<and> f = pgd" by (cases t) (auto simp: tab.simps(3))
  show "v \<in> slots \<Longrightarrow> pte s pgd v = 0" using m by (auto simp: pte_def slots_def tab.simps(3))
qed

lemma new_aspace:
  assumes i: "pinv P X H L s" and z: "\<forall>i<3. pmem s pgd i = 0"
    and pgd: "in_zone s ZNormal pgd" "pgd \<notin> free_frames s ZNormal" "\<not> is_table P s pgd" "maps s P pgd = {}" "pgd \<notin> P"
  shows "pinv (insert pgd P) X H L s" "maps s (insert pgd P) = maps s P"
    "is_table (insert pgd P) s f \<longleftrightarrow> is_table P s f \<or> f = pgd"
proof -
  note ok = pinvD(4) [OF i] and ep = empty_pgd [OF z]
  show mp: "maps s (insert pgd P) = maps s P" using ep(2) by (auto simp: maps_def fun_eq_iff pte_present_def)
  have T: "is_table (insert pgd P) s f \<longleftrightarrow> is_table P s f \<or> f = pgd" for f
    using ep(1) by (auto simp: is_table_def intro: bexI [of _ TPgd])
  then show "is_table (insert pgd P) s f \<longleftrightarrow> is_table P s f \<or> f = pgd" .
  have "tables_ok (insert pgd P) s"
    unfolding tables_ok_def
  proof (intro conjI ballI allI impI)
    fix pgd' t f assume a: "pgd' \<in> insert pgd P" "t \<in> tids" "tab s pgd' t = Some f"
    then show "in_zone s ZNormal f" "f \<notin> free_frames s ZNormal"
      using tables_frame [OF ok _ a(2)] ep(1) [OF a(2), of f] pgd by (auto simp: insert_iff)
  next
    fix a b t u f
    assume h: "a \<in> insert pgd P" "b \<in> insert pgd P" "t \<in> tids" "u \<in> tids" "tab s a t = Some f" "tab s b u = Some f"
    have no: "tab s c w \<noteq> Some pgd" if "c \<in> P" "w \<in> tids" for c w using pgd(3) that by (auto simp: is_table_def)
    have "a = b \<and> t = u"
    proof (cases "a = pgd \<or> b = pgd")
      case True
      then have "f = pgd" using ep(1) [OF h(3)] ep(1) [OF h(4)] h(5,6) by blast
      then show ?thesis using ep(1) [OF h(3)] ep(1) [OF h(4)] h no [OF _ h(3)] no [OF _ h(4)] by auto
    qed (use h tables_inj [OF ok _ _ h(3,4)] in auto)
    then show "a = b" "t = u" by simp_all
  next
    fix a i assume h: "a \<in> insert pgd P" "i < (3::nat)" "pmem s a i \<noteq> 0"
    then show "pmem s a i AND 0xFFF = 1" using tables_flags(1) [OF ok] z by auto
  next
    fix a i j f
    assume h: "a \<in> insert pgd P" "i < (3::nat)" "j < (512::nat)" "tab s a (TPmd i) = Some f" "pmem s f j \<noteq> 0"
    then have "a \<in> P" using ep(1) [of "TPmd i" f] by auto
    then show "pmem s f j AND 0xFFF = 7" using tables_flags(2) [OF ok _ h(2-5)] by blast
  qed
  moreover have "upage (insert pgd P) X H L s f" if "maps s (insert pgd P) f \<noteq> {}" for f
    using pinvD(5) [OF i, of f] that mp T pgd(4) by (auto simp: upage_def)
  ultimately show "pinv (insert pgd P) X H L s" using i unfolding pinv_def by simp
qed

lemma no_aspace: "binv UNIV H L s \<Longrightarrow> zone_layout s \<Longrightarrow> pinv {} X H L s"
  by (simp add: pinv_def tables_ok_def maps_def)

lemma fresh_upage:
  assumes "fresh P X H L s s1 p" "X p = 0"
  shows "upage P X H L s1 p"
  using assms unfolding fresh_def upage_def by auto

end
