(* ===== verification/Paging_Props.thy ===== *)
theory Paging_Props
  imports Paging_Insert Buddy_Props
begin

text \<open>
  The properties of page tables. \<open>pinv P X H L s\<close> is the invariant of the address spaces with
  page directories \<open>P\<close>: tables are frames of their own, outside the free memory and not
  shared, and the reference counter of every mapped frame is the number of its mappings
  plus the references \<open>X\<close> that kernel code holds.
\<close>

section \<open>An address space on a small machine\<close>

abbreviation nox :: "nat \<Rightarrow> nat" where "nox \<equiv> \<lambda>_. 0"

lemma boot_aspace:
  assumes "n \<le> 0x30000"
  shows "\<exists>s L. pinv {} nox (fa_heads UNIV) L s \<and> nfree s = n"
proof -
  obtain s L where s: "binv UNIV (fa_heads UNIV) L s" "zone_layout s" "free_frames s ZNormal = {0..<n}"
    using mm_boot [OF assms] by blast
  then show ?thesis using no_aspace [of "fa_heads UNIV" L s nox] by (intro exI conjI) auto
qed

lemma take_fresh:
  assumes "pinv P nox H L s" "nfree s = Suc n"
  shows "\<exists>p s1 L1. pages_alloc GFP_ZERO 0 s = Some (Some p, s1) \<and> fresh P nox H L1 s s1 p \<and> nfree s1 = n"
proof -
  obtain p s1 L1 where a: "pages_alloc GFP_ZERO 0 s = Some (Some p, s1)" "fresh P nox H L1 s s1 p"
    using alloc_fresh [OF assms(1)] assms(2) by fastforce
  then have "nfree s1 = n" using assms(2) by (auto simp: fresh_def)
  then show ?thesis using a by blast
qed

lemma small_aspace:
  assumes "n \<le> 0x2fffe"
  shows "\<exists>s L pgd p. pinv {pgd} nox (fa_heads UNIV) L s \<and> upage {pgd} nox (fa_heads UNIV) L s p \<and>
     maps s {pgd} p = {} \<and> nfree s = n \<and> (\<forall>v\<in>slots. pte s pgd v = 0)"
proof -
  obtain s L where s: "pinv {} nox (fa_heads UNIV) L s" "nfree s = Suc (Suc n)"
    using boot_aspace [of "Suc (Suc n)"] assms by auto
  obtain pgd s1 L1 where s1: "fresh {} nox (fa_heads UNIV) L1 s s1 pgd" "nfree s1 = Suc n"
    using take_fresh [OF s] by auto
  have i1: "pinv {pgd} nox (fa_heads UNIV) L1 s1"
    using new_aspace(1) [of "{}" nox "fa_heads UNIV" L1 s1 pgd] s1(1) by (auto simp: fresh_def)
  obtain p s2 L2 where s2: "fresh {pgd} nox (fa_heads UNIV) L2 s1 s2 p" "nfree s2 = n"
    using take_fresh [OF i1 s1(2)] by auto
  then have f: "maps s2 {pgd} p = {}" "pinv {pgd} nox (fa_heads UNIV) L2 s2" "\<not> is_table {pgd} s1 p"
    unfolding fresh_def by simp_all
  then have "p \<noteq> pgd" using tableI [of pgd "{pgd}" TPgd s1 pgd] by auto
  then have "\<forall>i<3. pmem s2 pgd i = 0" using s1(1) s2(1) by (simp add: fresh_def)
  then have "\<forall>v\<in>slots. pte s2 pgd v = 0" using empty_pgd(2) by blast
  then show ?thesis using fresh_upage [OF s2(1)] s2(2) f by blast
qed

section \<open>Properties\<close>

lemma mk_entry_flags:
  assumes "perm AND 0xFFF = perm"
  shows "pte_write (mk_entry p perm) \<longleftrightarrow> perm AND PAGE_RW \<noteq> 0"
    "mk_entry p perm AND ucast PAGE_USER \<noteq> 0 \<longleftrightarrow> perm AND PAGE_USER \<noteq> 0"
  unfolding flag_bits using mk_entry_bit [OF assms, of p 1] mk_entry_bit [OF assms, of p 2]
    and_exp_eq_0_iff_not_bit [of perm 1] and_exp_eq_0_iff_not_bit [of perm 2]
  by (simp_all add: PAGE_RW_def PAGE_USER_def)

lemma mmu_same:
  assumes "tables_ok P s" "tables_ok P s'" "pgd \<in> P" "va < KERNEL_BASE_ADDR" "pte s' pgd (vslot va) = pte s pgd (vslot va)"
  shows "mmu s' pgd va = mmu s pgd va"
  using assms by (simp add: mmu_slot [of P])

text \<open>
  C19. \<^verbatim>\<open>page_insert\<close> of a page whose reference count has room, at a user address other than 0
  and with the present bit among the permissions, always returns. On success the processor translates the address to the
  given frame with the given permissions, every other page of every address space is
  translated as before, no frame in use changes its contents, and the reference counts
  stay exact; the frame that was mapped there before is given back to the allocator
  exactly if this was its last reference. It fails, with \<^verbatim>\<open>-ENOMEM\<close> and no translation
  changed, only when fewer than two frames of the normal zone are free.
\<close>

theorem page_insert_correct:
  assumes "pinv P X H L s" "upage P X H L s p" "card (maps s P p) + X p + 1 < 2 ^ 32"
    "pgd \<in> P" "va < KERNEL_BASE_ADDR" "va \<noteq> 0" "perm AND 0xFFF = perm" "perm AND PAGE_PRESENT \<noteq> 0"
  shows "\<exists>r s' L'. page_insert pgd p va perm s = Some (r, s') \<and> pinv P X H L' s' \<and>
    (\<forall>f. upage P X H L s f \<longrightarrow> pmem s' f = pmem s f) \<and>
    (\<forall>pgd'\<in>P. \<forall>va'<KERNEL_BASE_ADDR. mmu s' pgd' va' =
       (if r = 0 \<and> pgd' = pgd \<and> unat va' div 4096 = unat va div 4096
        then Some (p, perm AND PAGE_RW \<noteq> 0, perm AND PAGE_USER \<noteq> 0) else mmu s pgd' va')) \<and>
    (r = 0 \<and> (\<forall>f. upage P X H L s f \<longrightarrow> (f \<in> free_frames s' ZNormal \<longleftrightarrow>
         f \<noteq> p \<and> (\<exists>w u. mmu s pgd va = Some (f, w, u)) \<and> card (maps s P f) + X f = 1)) \<or>
     r = - errno_val ENOMEM \<and> nfree s \<le> 1)"
proof -
  have old: "(\<exists>w u. mmu s pgd va = Some (f, w, u)) \<longleftrightarrow> pte_present (pte s pgd (vslot va)) \<and> ef (pte s pgd (vslot va)) = f" for f
    using mmu_slot [OF pinvD(4) [OF assms(1)] assms(4,5)] by (auto simp: Let_def)
  have p: "p < 2 ^ 52" using normal_frame [OF assms(1)] assms(2) by (simp add: upage_def)
  obtain s' L' where "page_insert pgd p va perm s = Some (- errno_val ENOMEM, s') \<and> same_off UNIV L L' \<and>
      pinv P X H L' s' \<and> walked P s s' \<and> nfree s \<le> 1 \<and> tab s pgd (vtab va) = None \<or>
    page_insert pgd p va perm s = Some (0, s') \<and> inserted P X H L L' pgd (vslot va) p (mk_entry p perm) s s' \<and>
      nfree s \<le> nfree s' + 2"
    using page_insert_spec [OF assms] by blast
  then show ?thesis
  proof (elim disjE conjE)
    assume a: "page_insert pgd p va perm s = Some (- errno_val ENOMEM, s')" "pinv P X H L' s'" "walked P s s'"
      "nfree s \<le> 1"
    then have "mmu s' pgd' va' = mmu s pgd' va'" if "pgd' \<in> P" "va' < KERNEL_BASE_ADDR" for pgd' va'
      using mmu_same [OF pinvD(4) [OF assms(1)] pinvD(4) [OF a(2)] that] that by (simp add: walked_def)
    moreover have "pmem s' f = pmem s f" if "upage P X H L s f" for f
      using a(3) that by (simp add: walked_def upage_def)
    ultimately show ?thesis using a(1,2,4) by (intro exI conjI disjI2) (auto simp: errno_val.simps)
  next
    assume a: "page_insert pgd p va perm s = Some (0, s')" "inserted P X H L L' pgd (vslot va) p (mk_entry p perm) s s'"
    note ad = a(2) [unfolded inserted_def]
    have i': "pinv P X H L' s'" using ad by blast
    have sl: "pte s' pgd' (vslot va') = (if pgd' = pgd \<and> unat va' div 4096 = unat va div 4096 then mk_entry p perm
        else pte s pgd' (vslot va'))" if "pgd' \<in> P" "va' < KERNEL_BASE_ADDR" for pgd' va'
      using ad that vslot_eq [of va' va] by (simp add: PAGE_SHIFT_def)
    have "mmu s' pgd' va' = (if pgd' = pgd \<and> unat va' div 4096 = unat va div 4096
        then Some (p, perm AND PAGE_RW \<noteq> 0, perm AND PAGE_USER \<noteq> 0) else mmu s pgd' va')"
      if "pgd' \<in> P" "va' < KERNEL_BASE_ADDR" for pgd' va'
      using mmu_slot [OF pinvD(4) [OF assms(1)] that] mmu_slot [OF pinvD(4) [OF i'] that] sl [OF that]
        mk_entry_present [OF p assms(7,8)] mk_entry(1) [OF p assms(7)] mk_entry_flags [OF assms(7)] by (simp add: Let_def)
    then show ?thesis using a(1) i' ad old by (intro exI conjI disjI1) (auto simp: upage_def)
  qed
qed

theorem page_insert_correct_witness:
  "\<exists>s L pgd p s' L'. pinv {pgd} nox (fa_heads UNIV) L s \<and> upage {pgd} nox (fa_heads UNIV) L s p \<and>
     page_insert pgd p 0x1000 7 s = Some (0, s') \<and> pinv {pgd} nox (fa_heads UNIV) L' s' \<and>
     mmu s' pgd 0x1234 = Some (p, True, True)"
proof -
  obtain s L pgd p where s: "pinv {pgd} nox (fa_heads UNIV) L s" "upage {pgd} nox (fa_heads UNIV) L s p"
    "maps s {pgd} p = {}" "nfree s = 2"
    using small_aspace [of 2] by force
  have c: "card (maps s {pgd} p) + 0 + 1 < 2 ^ 32" using s(3) by simp
  have low: "(0x1000::u32) < KERNEL_BASE_ADDR" by (simp add: KERNEL_BASE_ADDR_def)
  have perm: "(7::u32) AND 0xFFF = 7" "(7::u32) AND PAGE_PRESENT \<noteq> 0" by (simp_all add: PAGE_PRESENT_def)
  obtain r s' L' where a: "page_insert pgd p 0x1000 7 s = Some (r, s')" "pinv {pgd} nox (fa_heads UNIV) L' s'"
    "\<forall>pgd'\<in>{pgd}. \<forall>va'<KERNEL_BASE_ADDR. mmu s' pgd' va' =
       (if r = 0 \<and> pgd' = pgd \<and> unat va' div 4096 = unat (0x1000::u32) div 4096
        then Some (p, 7 AND PAGE_RW \<noteq> 0, 7 AND PAGE_USER \<noteq> 0) else mmu s pgd' va')" "r = 0"
    using page_insert_correct [OF s(1,2) c singletonI low _ perm] s(4) by auto
  then have "mmu s' pgd 0x1234 = Some (p, True, True)"
    by (auto simp: KERNEL_BASE_ADDR_def PAGE_RW_def PAGE_USER_def)
  then show ?thesis using s(1,2) a(1,2,4) by blast
qed

text \<open>
  C20. \<^verbatim>\<open>page_remove\<close> at a user address other than 0 always returns: afterwards the address has no translation, every other page
  of every address space has its old one, no frame changes its contents, and the frame
  that was mapped is given back to the allocator exactly if this was its last reference.
\<close>

theorem page_remove_correct:
  assumes "pinv P X H L s" "pgd \<in> P" "va < KERNEL_BASE_ADDR" "va \<noteq> 0"
  shows "\<exists>s' L'. page_remove pgd va s = Some s' \<and> pinv P X H L' s' \<and>
    (\<forall>f. upage P X H L s f \<longrightarrow> pmem s' f = pmem s f) \<and>
    (\<forall>pgd'\<in>P. \<forall>va'<KERNEL_BASE_ADDR. mmu s' pgd' va' =
       (if pgd' = pgd \<and> unat va' div 4096 = unat va div 4096 then None else mmu s pgd' va')) \<and>
    free_frames s' ZNormal = free_frames s ZNormal \<union>
      {f. (\<exists>w u. mmu s pgd va = Some (f, w, u)) \<and> card (maps s P f) + X f = 1}"
proof -
  obtain s' L' where r: "page_remove pgd va s = Some s'" "removed P X H L L' pgd (vslot va) s s'"
    using page_remove_spec [OF assms] by blast
  note rd = r(2) [unfolded removed_def]
  have i': "pinv P X H L' s'" using rd by blast
  have old: "(\<exists>w u. mmu s pgd va = Some (f, w, u)) \<longleftrightarrow> pte_present (pte s pgd (vslot va)) \<and> ef (pte s pgd (vslot va)) = f" for f
    using mmu_slot [OF pinvD(4) [OF assms(1)] assms(2,3)] by (auto simp: Let_def)
  have z: "\<not> pte_present 0" by (simp add: pte_present_def)
  have "mmu s' pgd' va' = (if pgd' = pgd \<and> unat va' div 4096 = unat va div 4096 then None else mmu s pgd' va')"
    if "pgd' \<in> P" "va' < KERNEL_BASE_ADDR" for pgd' va'
  proof -
    have "pte s' pgd' (vslot va') = (if pgd' = pgd \<and> unat va' div 4096 = unat va div 4096 \<and>
        pte_present (pte s pgd (vslot va)) then 0 else pte s pgd' (vslot va'))"
      using rd that vslot_eq [of va' va] by (simp add: PAGE_SHIFT_def)
    moreover have "unat va' div 4096 = unat va div 4096 \<Longrightarrow> vslot va' = vslot va"
      using vslot_eq [of va' va] by (simp add: PAGE_SHIFT_def)
    ultimately show ?thesis
      using mmu_slot [OF pinvD(4) [OF assms(1)] that] mmu_slot [OF pinvD(4) [OF i'] that] z by (auto simp: Let_def)
  qed
  then show ?thesis using r(1) i' rd old by (intro exI conjI) (auto simp: upage_def)
qed

theorem page_remove_correct_witness:
  "\<exists>s L pgd s' L'. pinv {pgd} nox (fa_heads UNIV) L s \<and> page_remove pgd 0x1000 s = Some s' \<and>
     pinv {pgd} nox (fa_heads UNIV) L' s' \<and> mmu s' pgd 0x1fff = None"
proof -
  obtain s L pgd where s: "pinv {pgd} nox (fa_heads UNIV) L s" using small_aspace [of 0] by force
  have low: "(0x1000::u32) < KERNEL_BASE_ADDR" "(0x1fff::u32) < KERNEL_BASE_ADDR" by (simp_all add: KERNEL_BASE_ADDR_def)
  obtain s' L' where "page_remove pgd 0x1000 s = Some s'" "pinv {pgd} nox (fa_heads UNIV) L' s'"
    "\<forall>pgd'\<in>{pgd}. \<forall>va'<KERNEL_BASE_ADDR. mmu s' pgd' va' =
       (if pgd' = pgd \<and> unat va' div 4096 = unat (0x1000::u32) div 4096 then None else mmu s pgd' va')"
    using page_remove_correct [OF s singletonI low(1)] by auto
  moreover from this(3) have "mmu s' pgd 0x1fff = None" using low(2) by simp
  ultimately show ?thesis using s by blast
qed

end
