(* ===== verification/Cow.thy ===== *)
theory Cow
  imports Paging_Props
begin

text \<open>
  Copy on write: \<^verbatim>\<open>do_wp_fault\<close> of \<^verbatim>\<open>kernel/trap/page_fault.c\<close> and the page loop of
  \<^verbatim>\<open>copy_task\<close> in \<^verbatim>\<open>kernel/syscall/fork.c\<close>. The kernel runs on the page tables of the
  faulting task, so \<^verbatim>\<open>memmove\<close> between two user pages goes through the translation of that
  task; an access that the translation does not allow would fault again inside the
  kernel and is outside the model (\<open>None\<close>).
\<close>

text \<open>How a fault ends: handled, or with the task killed by \<^verbatim>\<open>exit(curtask); schedule()\<close>.\<close>

datatype fault_end = Handled | Killed

definition copy_page :: "nat \<Rightarrow> u32 \<Rightarrow> u32 \<Rightarrow> mmst \<Rightarrow> mmst option" where
  "copy_page pgd dst src s = do {
     (fd, w, _) \<leftarrow> mmu s pgd dst;
     (fs, _, _) \<leftarrow> mmu s pgd src;
     kassert w;
     Some (s\<lparr>pmem := (pmem s)(fd := pmem s fs)\<rparr>) }"

definition do_wp_fault :: "nat \<Rightarrow> u32 \<Rightarrow> loc \<Rightarrow> mmst \<Rightarrow> (fault_end \<times> mmst) option" where
  "do_wp_fault pgd address l s = do {
     v \<leftarrow> pte_page_vaddr (entry s l);
     page \<leftarrow> virt2page s v;
     if pg_nref (mempage s page) = 1 then Some (Handled, pte_mkwrite l s)
     else do {
       (new, s1) \<leftarrow> page_alloc GFP_ZERO s;
       case new of
         None \<Rightarrow> Some (Killed, s1)
       | Some n \<Rightarrow> do {
           (r, s2) \<leftarrow> page_insert pgd n USER_TEMPBOTT (PAGE_PRESENT OR PAGE_RW OR PAGE_USER) s1;
           if r < 0 then do { s3 \<leftarrow> page_free n s2; Some (Killed, s3) }
           else do {
             s3 \<leftarrow> copy_page pgd USER_TEMPBOTT (ROUNDDOWN address PAGE_SIZE) s2;
             (r, s4) \<leftarrow> page_insert pgd n address (PAGE_PRESENT OR PAGE_RW OR PAGE_USER) s3;
             s5 \<leftarrow> page_remove pgd USER_TEMPBOTT s4;
             kassert (\<not> r < 0);
             Some (Handled, s5) } } } }"

text \<open>
  The loop of \<^verbatim>\<open>copy_task\<close> over one area of the parent: every present page is shared with the
  child, and write permission is taken from both.
\<close>

partial_function (option) copy_pages :: "nat \<Rightarrow> nat \<Rightarrow> u32 \<Rightarrow> u32 \<Rightarrow> mmst \<Rightarrow> (int \<times> mmst) option" where
  "copy_pages src dest start fin s =
     (if \<not> start < fin then Some (0, s)
      else do {
        (srcpte, s1) \<leftarrow> page_walk src start False s;
        case srcpte of
          None \<Rightarrow> copy_pages src dest (start + PAGE_SIZE) fin s1
        | Some l \<Rightarrow>
            if \<not> pte_present (entry s1 l) then copy_pages src dest (start + PAGE_SIZE) fin s1
            else do {
              (destpte, s2) \<leftarrow> page_walk dest start True s1;
              case destpte of
                None \<Rightarrow> Some (- errno_val ENOMEM, s2)
              | Some d \<Rightarrow> do {
                  v \<leftarrow> pte_page_vaddr (entry s2 l);
                  page \<leftarrow> virt2page s2 v;
                  let s3 = pte_clearwrite l s2;
                  let s4 = ref_page page s3;
                  copy_pages src dest (start + PAGE_SIZE) fin (set_entry d (entry s4 l) s4) } } })"

section \<open>Steps on frames that are no tables\<close>

lemma data_write:
  assumes i: "pinv P X H L s" and f: "\<not> is_table P s f" and s': "s' = s\<lparr>pmem := (pmem s)(f := m)\<rparr>"
  shows "pinv P X H L s'" "maps s' P = maps s P" "is_table P s' = is_table P s"
    "pgd \<in> P \<Longrightarrow> v \<in> slots \<Longrightarrow> pte s' pgd v = pte s pgd v"
    "free_frames s' = free_frames s" "in_zone s' = in_zone s" "mempage s' = mempage s"
    "upage P X H L s' g = upage P X H L s g"
proof -
  have fr: "free_head s' = free_head s" "in_zone s' = in_zone s" unfolding s'
    by (auto simp: fun_eq_iff free_head_def in_zone_def)
  then show ff: "free_frames s' = free_frames s" "in_zone s' = in_zone s" "mempage s' = mempage s"
    unfolding s' by (auto simp: fun_eq_iff free_frames_def)
  have b: "binv UNIV H L s'" "zone_layout s'"
  proof -
    have "coalesced s' = coalesced s" "blk_ok s' = blk_ok s" "clean s' = clean s" "zones_ok UNIV s' = zones_ok UNIV s"
      using fr unfolding s' by (auto simp: fun_eq_iff coalesced_def blk_ok_def clean_def zones_ok_def)
    then show "binv UNIV H L s'" using pinvD(2) [OF i] fr ff unfolding binv_def bcore_def by (simp add: s')
    show "zone_layout s'" using pinvD(3) [OF i] fr by (simp add: zone_layout_def)
  qed
  have t: "pmem s' g = pmem s g \<and> g \<notin> free_frames s' ZNormal" if "is_table P s g" for g
    using that f tables_frame(2) [OF pinvD(4) [OF i]] ff by (auto simp: s' is_table_def)
  have u: "g \<notin> free_frames s' ZNormal \<and> pg_nref (mempage s' g) = pg_nref (mempage s g) \<and>
      pg_flags (mempage s' g) = pg_flags (mempage s g)" if "maps s P g \<noteq> {}" for g
    using pinvD(5) [OF i that] ff by (simp add: upage_def)
  show ps: "pinv P X H L s'" "maps s' P = maps s P" "is_table P s' = is_table P s"
    using pinv_same [OF i b ff(2) same_off_refl t u] by simp_all
  show "upage P X H L s' g = upage P X H L s g" using ps(2,3) ff by (simp add: upage_def)
  show "pgd \<in> P \<Longrightarrow> v \<in> slots \<Longrightarrow> pte s' pgd v = pte s pgd v" using same_tables(2) [of P s s'] t by blast
qed

lemma fresh_keep:
  assumes i: "pinv P X H L s" and off: "same_off UNIV L L1" and fr: "fresh P X H L1 s s1 p"
  shows "pgd \<in> P \<Longrightarrow> v \<in> slots \<Longrightarrow> pte s1 pgd v = pte s pgd v"
    "upage P X H L s f \<Longrightarrow> upage P X H L1 s1 f \<and> f \<noteq> p \<and> pmem s1 f = pmem s f"
proof -
  note fd = fr [unfolded fresh_def]
  have "pmem s1 g = pmem s g" if "is_table P s g" for g using fd that by auto
  then show "pgd \<in> P \<Longrightarrow> v \<in> slots \<Longrightarrow> pte s1 pgd v = pte s pgd v" using same_tables(2) [of P s s1] by blast
  show "upage P X H L s f \<Longrightarrow> upage P X H L1 s1 f \<and> f \<noteq> p \<and> pmem s1 f = pmem s f"
    using fd unlisted_off [OF off, of H "{f}"] by (auto simp: upage_def)
qed

lemma free_upage:
  assumes i: "pinv P X H L s" and u: "upage P X H L s n" and n: "maps s P n = {}" "X n = 0"
  shows "\<exists>s' L'. page_free n s = Some s' \<and> pinv P X H L' s' \<and> same_off UNIV L L' \<and> pmem s' = pmem s \<and>
    maps s' P = maps s P \<and> (\<forall>pgd\<in>P. \<forall>v\<in>slots. pte s' pgd v = pte s pgd v)"
proof -
  have bl: "block n 0 = {n}" by (auto simp: block_def)
  have "loose UNIV H L ZNormal n 0 s"
    using u n by (simp add: loose_def bl blk_ok_def in_zone_def clean_def MAXORDER_def upage_def)
  from pages_free_spec [OF pinvD(2,3) [OF i] this] obtain s' L' where s': "pages_free n 0 s = Some s'"
    "binv UNIV H L' s'" "same_off UNIV L L'" "same_shape s s'"
    "\<forall>z'. free_frames s' z' = (if z' = ZNormal then free_frames s ZNormal \<union> {n} else free_frames s z')"
    by (auto simp: bl)
  have iz: "in_zone s' = in_zone s" "zone_layout s'"
    using same_shape_sel(1) [OF s'(4)] zone_layout_shape [OF s'(4)] pinvD(3) [OF i] by (simp_all add: fun_eq_iff)
  have pm: "pmem s' = pmem s" using same_shape_sel(6) [OF s'(4)] .
  have pg: "pg_nref (mempage s' f) = pg_nref (mempage s f)" "pg_flags (mempage s' f) = pg_flags (mempage s f)" for f
  proof -
    have e: "(mempage s' f)\<lparr>pg_order := 0\<rparr> = (mempage s f)\<lparr>pg_order := 0\<rparr>"
      using s'(4) unfolding same_shape_def by blast
    show "pg_nref (mempage s' f) = pg_nref (mempage s f)" "pg_flags (mempage s' f) = pg_flags (mempage s f)"
      using arg_cong [OF e, of pg_nref] arg_cong [OF e, of pg_flags] by simp_all
  qed
  have t: "pmem s' g = pmem s g \<and> g \<notin> free_frames s' ZNormal" if "is_table P s g" for g
    using that u tables_frame(2) [OF pinvD(4) [OF i]] s'(5) pm by (auto simp: is_table_def upage_def)
  have m: "g \<notin> free_frames s' ZNormal \<and> pg_nref (mempage s' g) = pg_nref (mempage s g) \<and>
      pg_flags (mempage s' g) = pg_flags (mempage s g)" if "maps s P g \<noteq> {}" for g
    using pinvD(5) [OF i that] s'(5) n(1) that by (auto simp: upage_def pg)
  note ps = pinv_same [OF i s'(2) iz(2,1) s'(3) t m]
  have "pte s' pgd v = pte s pgd v" if "pgd \<in> P" "v \<in> slots" for pgd v
    using same_tables(2) [of P s s'] t that by blast
  then show ?thesis using s'(1,3) ps(1,2) pm by (auto simp: page_free_def)
qed

lemma rewrite_slot:
  assumes i: "pinv P X H L s" and P: "pgd \<in> P" and t: "tab s pgd (TPte a b) = Some t" "a < 3" "b < 512" "k < 512"
    and e: "pte_present (pte s pgd (a, b, k))" "pte_present e" "ef e = ef (pte s pgd (a, b, k))"
    and s': "s' = set_entry (t, k) e s"
  shows "pinv P X H L s'" "maps s' P = maps s P" "is_table P s' = is_table P s"
    "pgd' \<in> P \<Longrightarrow> w \<in> slots \<Longrightarrow> pte s' pgd' w = (if pgd' = pgd \<and> w = (a, b, k) then e else pte s pgd' w)"
    "pgd' \<in> P \<Longrightarrow> u \<in> tids \<Longrightarrow> tab s' pgd' u = tab s pgd' u"
    "\<not> is_table P s f \<Longrightarrow> pmem s' f = pmem s f" "upage P X H L s' f = upage P X H L s f"
proof -
  note ok = pinvD(4) [OF i]
  have v: "(a, b, k) \<in> slots" using t by (simp add: slots_def)
  show mp: "maps s' P = maps s P"
  proof
    fix f
    have "(pgd, a, b, k) \<in> maps s P f \<longleftrightarrow> ef e = f" using P v e(1,3) by (auto simp: maps_def)
    then show "maps s' P f = maps s P f" unfolding s' maps_write [OF ok P t] using e(2) by auto
  qed
  show tb: "pgd' \<in> P \<Longrightarrow> u \<in> tids \<Longrightarrow> tab s' pgd' u = tab s pgd' u" for pgd' u
    unfolding s' using tab_write_pte [OF ok P _ t(1-3)] by blast
  show it: "is_table P s' = is_table P s" using tb by (intro same_is_table)
  show up: "upage P X H L s' f = upage P X H L s f" for f using mp it by (simp add: upage_def s')
  show "pgd' \<in> P \<Longrightarrow> w \<in> slots \<Longrightarrow> pte s' pgd' w = (if pgd' = pgd \<and> w = (a, b, k) then e else pte s pgd' w)"
    unfolding s' by (rule pte_write_pte [OF ok P _ t(1-3)])
  show "\<not> is_table P s f \<Longrightarrow> pmem s' f = pmem s f" using tableI [OF P _ t(1)] t(2,3) by (auto simp: s' set_entry_def)
  show "pinv P X H L s'"
    using i tables_ok_write [OF ok P t(1-3), of k e] up mp unfolding pinv_def by (simp add: s')
qed

section \<open>The copying path\<close>

abbreviation urw :: u32 where "urw \<equiv> PAGE_PRESENT OR PAGE_RW OR PAGE_USER"

lemma urw: "urw AND 0xFFF = urw" "urw AND PAGE_PRESENT \<noteq> 0" "urw AND PAGE_RW \<noteq> 0" "urw AND PAGE_USER \<noteq> 0"
  by (simp_all add: PAGE_PRESENT_def PAGE_RW_def PAGE_USER_def)

lemma temp_addr: "USER_TEMPBOTT < KERNEL_BASE_ADDR" "USER_TEMPBOTT \<noteq> 0"
  by (simp_all add: USER_TEMPBOTT_def KERNEL_BASE_ADDR_def)

lemma vslot_ROUNDDOWN: "vslot (ROUNDDOWN va PAGE_SIZE) = vslot va"
  unfolding vslot_eq unat_ROUNDDOWN by (simp add: PAGE_SIZE_val PAGE_SHIFT_def minus_mod_eq_mult_div)

lemma low_ROUNDDOWN: "va < KERNEL_BASE_ADDR \<Longrightarrow> ROUNDDOWN va PAGE_SIZE < KERNEL_BASE_ADDR"
  using ROUNDDOWN_le [of va PAGE_SIZE] by (rule order.strict_trans1)

text \<open>After the copy: the page \<open>n\<close> takes the place of the shared page in slot \<open>v\<close>.\<close>

definition copied :: "nat set \<Rightarrow> mnode set \<Rightarrow> (mnode \<Rightarrow> mnode list) \<Rightarrow> nat \<Rightarrow> slot \<Rightarrow> slot \<Rightarrow> nat \<Rightarrow> (nat \<Rightarrow> u64) \<Rightarrow> mmst \<Rightarrow> mmst \<Rightarrow> bool" where
  "copied P H L pgd v tv n m s s' \<longleftrightarrow>
     (\<exists>L'. pinv P nox H L' s') \<and> pmem s' n = m \<and>
     (\<forall>pgd'\<in>P. \<forall>w\<in>slots. pte s' pgd' w = (if pgd' = pgd \<and> w = v then mk_entry n urw
        else if pgd' = pgd \<and> w = tv then 0 else pte s pgd' w)) \<and>
     (\<forall>f. upage P nox H L s f \<longrightarrow> f \<noteq> n \<longrightarrow> pmem s' f = pmem s f)"

lemma wp_move:
  assumes i: "pinv P nox H L s" and P: "pgd \<in> P" "va < KERNEL_BASE_ADDR" "va \<noteq> 0"
    and u: "upage P nox H L s n" "maps s P n = {(pgd, vslot USER_TEMPBOTT)}"
    and tv: "pte s pgd (vslot USER_TEMPBOTT) = mk_entry n urw"
    and e: "pte_present (pte s pgd (vslot va))" "ef (pte s pgd (vslot va)) = q" "vslot va \<noteq> vslot USER_TEMPBOTT"
  shows "\<exists>s3 s4 s5. copy_page pgd USER_TEMPBOTT (ROUNDDOWN va PAGE_SIZE) s = Some s3 \<and>
    page_insert pgd n va urw s3 = Some (0, s4) \<and> page_remove pgd USER_TEMPBOTT s4 = Some s5 \<and>
    copied P H L pgd (vslot va) (vslot USER_TEMPBOTT) n (pmem s q) s s5"
proof -
  let ?v = "vslot va" and ?tv = "vslot USER_TEMPBOTT"
  let ?s3 = "s\<lparr>pmem := (pmem s)(n := pmem s q)\<rparr>"
  have sl: "?v \<in> slots" "?tv \<in> slots" using P(2) temp_addr(1) by simp_all
  have n52: "n < 2 ^ 52" using normal_frame [OF i] u(1) by (simp add: upage_def)
  have pn: "pte_present (mk_entry n urw)" "ef (mk_entry n urw) = n" "pte_write (mk_entry n urw)"
    using mk_entry_present [OF n52 urw(1,2)] mk_entry(1) [OF n52 urw(1)] mk_entry_flags(1) [OF urw(1)] urw(3) by auto
  have cp: "copy_page pgd USER_TEMPBOTT (ROUNDDOWN va PAGE_SIZE) s = Some ?s3"
    using mmu_slot [OF pinvD(4) [OF i] P(1) temp_addr(1)] mmu_slot [OF pinvD(4) [OF i] P(1) low_ROUNDDOWN [OF P(2)]]
      tv pn e by (simp add: copy_page_def Let_def vslot_ROUNDDOWN)
  have nt: "\<not> is_table P s n" using u(1) by (simp add: upage_def)
  note w = data_write [OF i nt refl [of ?s3]]
  obtain t where t: "tab ?s3 pgd (vtab va) = Some t"
    using present_tab [of ?s3 pgd va] e(1) w(4) [OF P(1) sl(1)] by auto
  have u3: "upage P nox H L ?s3 n" using u(1) w(8) by simp
  have c3: "card (maps ?s3 P n) + nox n + 1 < 2 ^ 32" using w(2) u(2) by simp
  obtain s4 L4 where s4: "page_insert pgd n va urw ?s3 = Some (0, s4)"
    and ins: "inserted P nox H L L4 pgd ?v n (mk_entry n urw) ?s3 s4"
    using page_insert_spec [OF w(1) u3 c3 P urw(1,2)] t by auto
  note id = ins [unfolded inserted_def]
  have i4: "pinv P nox H L4 s4" using id by blast
  obtain s5 L5 where s5: "page_remove pgd USER_TEMPBOTT s4 = Some s5" "removed P nox H L4 L5 pgd ?tv s4 s5"
    using page_remove_spec [OF i4 P(1) temp_addr] by blast
  note rd = s5(2) [unfolded removed_def]
  have p4: "pte s4 pgd' x = (if pgd' = pgd \<and> x = ?v then mk_entry n urw else pte s pgd' x)" if "pgd' \<in> P" "x \<in> slots" for pgd' x
    using id w(4) [OF that] that by simp
  have "pte s5 pgd' x = (if pgd' = pgd \<and> x = ?v then mk_entry n urw else if pgd' = pgd \<and> x = ?tv then 0 else pte s pgd' x)"
    if "pgd' \<in> P" "x \<in> slots" for pgd' x
    using rd p4 [OF that] p4 [OF P(1) sl(2)] that tv pn(1) e(3) by auto
  moreover have "pmem s5 f = pmem ?s3 f" if "upage P nox H L s f" for f
  proof -
    have "f \<notin> free_frames ?s3 ZNormal" "\<not> is_table P ?s3 f" using that w(3,5) by (simp_all add: upage_def)
    then show ?thesis using id rd by auto
  qed
  ultimately have "copied P H L pgd ?v ?tv n (pmem s q) s s5"
    using rd u(1) unfolding copied_def by auto
  then show ?thesis using cp s4 s5(1) by blast
qed

lemma wp_place:
  assumes i: "pinv P nox H L s" and P: "pgd \<in> P" "va < KERNEL_BASE_ADDR" "va \<noteq> 0"
    and e: "pte_present (pte s pgd (vslot va))" "ef (pte s pgd (vslot va)) = q"
    and tv: "\<not> pte_present (pte s pgd (vslot USER_TEMPBOTT))"
    and off: "same_off UNIV L L1" and fr: "fresh P nox H L1 s s1 n"
    and ins: "inserted P nox H L1 L2 pgd (vslot USER_TEMPBOTT) n (mk_entry n urw) s1 s2"
  shows "\<exists>s3 s4 s5. copy_page pgd USER_TEMPBOTT (ROUNDDOWN va PAGE_SIZE) s2 = Some s3 \<and>
    page_insert pgd n va urw s3 = Some (0, s4) \<and> page_remove pgd USER_TEMPBOTT s4 = Some s5 \<and>
    copied P H L pgd (vslot va) (vslot USER_TEMPBOTT) n (pmem s q) s s5"
proof -
  let ?v = "vslot va" and ?tv = "vslot USER_TEMPBOTT"
  note fk = fresh_keep [OF i off fr] and id = ins [unfolded inserted_def] and fd = fr [unfolded fresh_def]
  have sl: "?v \<in> slots" "?tv \<in> slots" "?v \<noteq> ?tv" using P(2) temp_addr(1) e(1) tv by auto
  have i2: "pinv P nox H L2 s2" and u2: "upage P nox H L2 s2 n" using id by blast+
  have p2: "pte s2 pgd' w = (if pgd' = pgd \<and> w = ?tv then mk_entry n urw else pte s pgd' w)"
    if "pgd' \<in> P" "w \<in> slots" for pgd' w
    using id fk(1) [OF that] that by simp
  have n52: "n < 2 ^ 52" using normal_frame [OF i2] u2 by (simp add: upage_def)
  have pn: "pte_present (mk_entry n urw)" "ef (mk_entry n urw) = n"
    using mk_entry_present [OF n52 urw(1,2)] mk_entry(1) [OF n52 urw(1)] by auto
  have mn: "maps s P n = {}" using fd by simp
  have none: "\<not> (pte_present (pte s pgd' w) \<and> ef (pte s pgd' w) = n)" if "pgd' \<in> P" "w \<in> slots" for pgd' w
    using mn that unfolding maps_def by blast
  have "(pgd', w) \<in> maps s2 P n \<longleftrightarrow> pgd' = pgd \<and> w = ?tv" for pgd' w
  proof (cases "pgd' \<in> P \<and> w \<in> slots")
    case True
    then show ?thesis using p2 [of pgd' w] none [of pgd' w] pn by (auto simp: maps_def)
  qed (use P(1) sl(2) in \<open>auto simp: maps_def\<close>)
  then have m2: "maps s2 P n = {(pgd, ?tv)}" by auto
  have keep: "upage P nox H L2 s2 f \<and> f \<noteq> n \<and> pmem s2 f = pmem s f" if "upage P nox H L s f" for f
  proof -
    have f: "upage P nox H L1 s1 f" "f \<noteq> n" "pmem s1 f = pmem s f" using fk(2) [OF that] by auto
    have f': "f \<notin> free_frames s1 ZNormal" "\<not> is_table P s1 f" using f(1) by (simp_all add: upage_def)
    moreover have "\<not> pte_present (pte s1 pgd ?tv)" using fk(1) [OF P(1) sl(2)] tv by simp
    ultimately have "f \<notin> free_frames s2 ZNormal" "pmem s2 f = pmem s1 f" using id by auto
    then show ?thesis using id f by auto
  qed
  have qm: "(pgd, ?v) \<in> maps s P q" using P(1) sl(1) e by (simp add: maps_def)
  then have q2: "pmem s2 q = pmem s q" using keep pinvD(5) [OF i] by blast
  have e2: "pte_present (pte s2 pgd ?v)" "ef (pte s2 pgd ?v) = q" using p2 [OF P(1) sl(1)] e sl(3) by simp_all
  have t2: "pte s2 pgd ?tv = mk_entry n urw" using p2 [OF P(1) sl(2)] by simp
  obtain s3 s4 s5 where r: "copy_page pgd USER_TEMPBOTT (ROUNDDOWN va PAGE_SIZE) s2 = Some s3"
    "page_insert pgd n va urw s3 = Some (0, s4)" "page_remove pgd USER_TEMPBOTT s4 = Some s5"
    "copied P H L2 pgd ?v ?tv n (pmem s2 q) s2 s5"
    using wp_move [OF i2 P u2 m2 t2 e2 sl(3)] by blast
  have "copied P H L pgd ?v ?tv n (pmem s q) s s5"
    using r(4) keep p2 q2 unfolding copied_def by auto
  then show ?thesis using r(1-3) by blast
qed

lemma nomem_neg: "- errno_val ENOMEM < 0"
  by simp

lemma wp_copy:
  assumes i: "pinv P nox H L s" and P: "pgd \<in> P" "va < KERNEL_BASE_ADDR" "va \<noteq> 0"
    and e: "pte_present (pte s pgd (vslot va))" "ef (pte s pgd (vslot va)) = q"
    and tv: "\<not> pte_present (pte s pgd (vslot USER_TEMPBOTT))"
    and l: "entry s l = pte s pgd (vslot va)" and q: "pg_nref (mempage s q) \<noteq> 1"
  shows "\<exists>r s'. do_wp_fault pgd va l s = Some (r, s') \<and>
    (r = Killed \<and> nfree s \<le> 2 \<and> (\<exists>L'. pinv P nox H L' s') \<and> (\<forall>pgd'\<in>P. \<forall>w\<in>slots. pte s' pgd' w = pte s pgd' w) \<and>
       (\<forall>f. upage P nox H L s f \<longrightarrow> pmem s' f = pmem s f) \<or>
     r = Handled \<and> (\<exists>n. maps s P n = {} \<and> n < 2 ^ 52 \<and> \<not> upage P nox H L s n \<and>
       copied P H L pgd (vslot va) (vslot USER_TEMPBOTT) n (pmem s q) s s'))"
proof -
  let ?v = "vslot va" and ?tv = "vslot USER_TEMPBOTT"
  have sl: "?v \<in> slots" "?tv \<in> slots" "?v \<noteq> ?tv" using P(2) temp_addr(1) e(1) tv by auto
  have qm: "(pgd, ?v) \<in> maps s P q" using P(1) sl(1) e by (simp add: maps_def)
  then have uq: "upage P nox H L s q" using pinvD(5) [OF i] by blast
  then have pre: "pte_page_vaddr (entry s l) = Some (q * 2 ^ PAGE_SHIFT + unat KERNEL_BASE_ADDR)"
    "virt2page s (q * 2 ^ PAGE_SHIFT + unat KERNEL_BASE_ADDR) = Some q"
    using page_vaddr(3) [of "pte s pgd ?v"] normal_frame [OF i, of q] e(2) l by (auto simp: upage_def)
  from alloc_fresh [OF i] show ?thesis
  proof (elim disjE exE conjE)
    assume "pages_alloc GFP_ZERO 0 s = Some (None, s)" and fe: "free_frames s ZNormal = {}"
    then have "do_wp_fault pgd va l s = Some (Killed, s)" using pre q by (simp add: do_wp_fault_def page_alloc_def)
    then show ?thesis using i fe by auto
  next
    fix n s1 L1
    assume a: "pages_alloc GFP_ZERO 0 s = Some (Some n, s1)" "same_off UNIV L L1" "fresh P nox H L1 s s1 n"
    note fk = fresh_keep [OF i a(2,3)] and fd = a(3) [unfolded fresh_def]
    have i1: "pinv P nox H L1 s1" and u1: "upage P nox H L1 s1 n" and m1: "maps s1 P n = {}"
      using fd fresh_upage [OF a(3)] by simp_all
    have c1: "card (maps s1 P n) + nox n + 1 < 2 ^ 32" using m1 by simp
    have nn: "maps s P n = {}" "n < 2 ^ 52" "\<not> upage P nox H L s n"
      using fd normal_frame [OF i1, of n] by (auto simp: upage_def)
    from page_insert_spec [OF i1 u1 c1 P(1) temp_addr urw(1,2)] show ?thesis
    proof (elim disjE exE conjE)
      fix s2 L2
      assume b: "page_insert pgd n USER_TEMPBOTT urw s1 = Some (- errno_val ENOMEM, s2)" "same_off UNIV L1 L2"
        "pinv P nox H L2 s2" "walked P s1 s2" "nfree s1 \<le> 1"
      have m2: "maps s2 P n = {}" using walked_maps [OF b(4)] m1 by simp
      obtain s3 L3 where s3: "page_free n s2 = Some s3" "pinv P nox H L3 s3" "pmem s3 = pmem s2"
        "\<forall>pgd\<in>P. \<forall>v\<in>slots. pte s3 pgd v = pte s2 pgd v"
        using free_upage [OF b(3) walked_upage [OF b(4,2) u1] m2] by auto
      have "do_wp_fault pgd va l s = Some (Killed, s3)"
        using pre q a(1) b(1) s3(1) nomem_neg by (simp add: do_wp_fault_def page_alloc_def del: errno_val.simps)
      moreover have "pte s3 pgd' w = pte s pgd' w" if "pgd' \<in> P" "w \<in> slots" for pgd' w
        using s3(4) b(4) fk(1) [OF that] that by (simp add: walked_def)
      moreover have "pmem s3 f = pmem s f" if "upage P nox H L s f" for f
        using s3(3) b(4) fk(2) [OF that] by (simp add: walked_def upage_def)
      moreover have "nfree s \<le> 2" using b(5) fd by (simp add: card_Diff_singleton)
      ultimately show ?thesis using s3(2) by blast
    next
      fix s2 L2
      assume b: "page_insert pgd n USER_TEMPBOTT urw s1 = Some (0, s2)"
        "inserted P nox H L1 L2 pgd ?tv n (mk_entry n urw) s1 s2"
      obtain s3 s4 s5 where r: "copy_page pgd USER_TEMPBOTT (ROUNDDOWN va PAGE_SIZE) s2 = Some s3"
        "page_insert pgd n va urw s3 = Some (0, s4)" "page_remove pgd USER_TEMPBOTT s4 = Some s5"
        "copied P H L pgd ?v ?tv n (pmem s q) s s5"
        using wp_place [OF i P e tv a(2,3) b(2)] by blast
      then have "do_wp_fault pgd va l s = Some (Handled, s5)"
        using pre q a(1) b(1) by (simp add: do_wp_fault_def page_alloc_def)
      then show ?thesis using r(4) nn by blast
    qed
  qed
qed

section \<open>A page that is mapped twice\<close>

lemma shared_page:
  "\<exists>s L pgd p. pinv {pgd} nox (fa_heads UNIV) L s \<and> mmu s pgd 0x1000 = Some (p, False, True) \<and>
     mmu s pgd 0x2000 = Some (p, False, True) \<and> mmu s pgd USER_TEMPBOTT = None \<and> 3 \<le> nfree s"
proof -
  obtain s L pgd p where s: "pinv {pgd} nox (fa_heads UNIV) L s" "upage {pgd} nox (fa_heads UNIV) L s p"
    "maps s {pgd} p = {}" "nfree s = 7" "\<forall>v\<in>slots. pte s pgd v = 0"
    using small_aspace [of 7] by force
  have low: "(0x1000::u32) < KERNEL_BASE_ADDR" "(0x2000::u32) < KERNEL_BASE_ADDR" by (simp_all add: KERNEL_BASE_ADDR_def)
  have perm: "(5::u32) AND 0xFFF = 5" "(5::u32) AND PAGE_PRESENT \<noteq> 0" by (simp_all add: PAGE_PRESENT_def)
  have p52: "p < 2 ^ 52" using normal_frame [OF s(1)] s(2) by (simp add: upage_def)
  have e: "pte_present (mk_entry p 5)" "ef (mk_entry p 5) = p" "\<not> pte_write (mk_entry p 5)" "mk_entry p 5 AND ucast PAGE_USER \<noteq> 0"
    using mk_entry_present [OF p52 perm] mk_entry(1) [OF p52 perm(1)] mk_entry_flags [OF perm(1), of p]
    by (simp_all add: PAGE_RW_def PAGE_USER_def)
  have c1: "card (maps s {pgd} p) + nox p + 1 < 2 ^ 32" using s(3) by simp
  obtain s1 L1 where a: "inserted {pgd} nox (fa_heads UNIV) L L1 pgd (vslot 0x1000) p (mk_entry p 5) s s1" "nfree s \<le> nfree s1 + 2"
    using page_insert_spec [OF s(1,2) c1 singletonI low(1) _ perm] s(4) by auto
  note ad = a(1) [unfolded inserted_def]
  have i1: "pinv {pgd} nox (fa_heads UNIV) L1 s1" and u1: "upage {pgd} nox (fa_heads UNIV) L1 s1 p" using ad by blast+
  have p1: "pte s1 pgd w = (if w = vslot 0x1000 then mk_entry p 5 else 0)" if "w \<in> slots" for w
    using ad s(5) that by simp
  have z: "\<not> pte_present 0" by (simp add: pte_present_def)
  have "maps s1 {pgd} p \<subseteq> {(pgd, vslot 0x1000)}"
  proof (intro subsetI)
    fix y assume "y \<in> maps s1 {pgd} p"
    then obtain w where "y = (pgd, w)" "w \<in> slots" "pte_present (pte s1 pgd w)" by (auto simp: maps_def)
    then show "y \<in> {(pgd, vslot 0x1000)}" using p1 [of w] z by (cases "w = vslot 0x1000") auto
  qed
  then have "card (maps s1 {pgd} p) \<le> card {(pgd, vslot 0x1000)}" by (intro card_mono) simp_all
  then have c2: "card (maps s1 {pgd} p) + nox p + 1 < 2 ^ 32" by simp
  obtain s2 L2 where b: "inserted {pgd} nox (fa_heads UNIV) L1 L2 pgd (vslot 0x2000) p (mk_entry p 5) s1 s2" "nfree s1 \<le> nfree s2 + 2"
    using page_insert_spec [OF i1 u1 c2 singletonI low(2) _ perm] s(4) a(2) by auto
  note bd = b(1) [unfolded inserted_def]
  have i2: "pinv {pgd} nox (fa_heads UNIV) L2 s2" using bd by blast
  note ms = mmu_slot [OF pinvD(4) [OF i2] singletonI]
  have d: "vslot 0x1000 \<noteq> vslot 0x2000" "vslot USER_TEMPBOTT \<noteq> vslot 0x1000" "vslot USER_TEMPBOTT \<noteq> vslot 0x2000"
    by (simp_all add: vslot_eq PAGE_SHIFT_def USER_TEMPBOTT_def)
  have "pte s2 pgd (vslot 0x1000) = mk_entry p 5" "pte s2 pgd (vslot 0x2000) = mk_entry p 5" "pte s2 pgd (vslot USER_TEMPBOTT) = 0"
    using bd p1 [of "vslot 0x1000"] p1 [of "vslot USER_TEMPBOTT"] low temp_addr(1) d by simp_all
  then have "mmu s2 pgd 0x1000 = Some (p, False, True)" "mmu s2 pgd 0x2000 = Some (p, False, True)" "mmu s2 pgd USER_TEMPBOTT = None"
    using ms [OF low(1)] ms [OF low(2)] ms [OF temp_addr(1)] e z by (simp_all add: Let_def)
  moreover have "3 \<le> nfree s2" using a(2) b(2) s(4) by simp
  ultimately show ?thesis using i2 by blast
qed

section \<open>Properties\<close>

lemma mkwrite_bits: "pte_present (e OR ucast PAGE_RW) = pte_present e" "pte_write (e OR ucast PAGE_RW)"
    "ef (e OR ucast PAGE_RW) = ef e"
  and clearwrite_bits: "pte_present (e AND NOT (ucast PAGE_RW)) = pte_present e" "\<not> pte_write (e AND NOT (ucast PAGE_RW))"
    "ef (e AND NOT (ucast PAGE_RW)) = ef e"
proof -
  define x :: u64 where "x = ucast PAGE_RW"
  have x: "x = 2 ^ 1" by (simp add: x_def PAGE_RW_def)
  have bx: "bit x m \<longleftrightarrow> m = 1" for m unfolding x bit_exp_iff by auto
  show "pte_present (e OR ucast PAGE_RW) = pte_present e" "pte_write (e OR ucast PAGE_RW)"
    "pte_present (e AND NOT (ucast PAGE_RW)) = pte_present e" "\<not> pte_write (e AND NOT (ucast PAGE_RW))"
    unfolding flag_bits x_def [symmetric] by (simp_all add: bit_or_iff bit_and_iff bit_not_iff bx)
  have "drop_bit 12 (e OR x) = drop_bit 12 e" "drop_bit 12 (e AND NOT x) = drop_bit 12 e"
    by (rule bit_word_eqI, auto simp: bit_drop_bit_eq bit_or_iff bit_and_iff bit_not_iff bx dest: bit_imp_le_length)+
  then show "ef (e OR ucast PAGE_RW) = ef e" "ef (e AND NOT (ucast PAGE_RW)) = ef e"
    unfolding ef_def x_def [symmetric] PAGE_SHIFT_def by simp_all
qed

lemma wp_private:
  assumes i: "pinv P nox H L s" and P: "pgd \<in> P" "va < KERNEL_BASE_ADDR"
    and e: "pte_present (pte s pgd (vslot va))" "ef (pte s pgd (vslot va)) = q"
    and t: "tab s pgd (vtab va) = Some t" and q: "pg_nref (mempage s q) = 1"
    and s': "s' = pte_mkwrite (t, pte_index va) s"
  shows "do_wp_fault pgd va (t, pte_index va) s = Some (Handled, s')" "pinv P nox H L s'" "maps s' P = maps s P"
    "card (maps s P q) = 1" "upage P nox H L s f \<Longrightarrow> pmem s' f = pmem s f"
    "pgd' \<in> P \<Longrightarrow> w \<in> slots \<Longrightarrow> pte s' pgd' w =
      (if pgd' = pgd \<and> w = vslot va then pte s pgd (vslot va) OR ucast PAGE_RW else pte s pgd' w)"
proof -
  note en = pte_at [OF t]
  have qm: "(pgd, vslot va) \<in> maps s P q" using P e by (simp add: maps_def)
  then have uq: "upage P nox H L s q" using pinvD(5) [OF i] by blast
  show "card (maps s P q) = 1" using count_nref [OF uq] q by simp
  have "pte_page_vaddr (entry s (t, pte_index va)) = Some (q * 2 ^ PAGE_SHIFT + unat KERNEL_BASE_ADDR)"
    "virt2page s (q * 2 ^ PAGE_SHIFT + unat KERNEL_BASE_ADDR) = Some q"
    using page_vaddr(3) [of "pte s pgd (vslot va)"] normal_frame [OF i, of q] e(2) en uq by (auto simp: upage_def)
  then show "do_wp_fault pgd va (t, pte_index va) s = Some (Handled, s')" using q s' by (simp add: do_wp_fault_def)
  have w: "s' = set_entry (t, pte_index va) (pte s pgd (vslot va) OR ucast PAGE_RW) s"
    unfolding s' pte_mkwrite_def en ..
  note r = rewrite_slot [OF i P(1) t user_index [OF P(2)] index_lt(2) index_lt(3) [of va], folded vslot_def, OF e(1) _ _ w]
  show "pinv P nox H L s'" "maps s' P = maps s P" "upage P nox H L s f \<Longrightarrow> pmem s' f = pmem s f"
    "pgd' \<in> P \<Longrightarrow> w \<in> slots \<Longrightarrow> pte s' pgd' w =
      (if pgd' = pgd \<and> w = vslot va then pte s pgd (vslot va) OR ucast PAGE_RW else pte s pgd' w)" for w
    using r(1,2,4,6) e(1) by (auto simp: mkwrite_bits upage_def)
qed

lemma copied_maps:
  assumes c: "copied P H L pgd v tv n m s s'" and n: "maps s P n = {}" "n < 2 ^ 52" and v: "pgd \<in> P" "v \<in> slots"
  shows "maps s' P n = {(pgd, v)}"
proof -
  have pn: "pte_present (mk_entry n urw)" "ef (mk_entry n urw) = n" "\<not> pte_present 0"
    using mk_entry_present [OF n(2) urw(1,2)] mk_entry(1) [OF n(2) urw(1)] by (auto simp: pte_present_def)
  have none: "\<not> (pte_present (pte s pgd' w) \<and> ef (pte s pgd' w) = n)" if "pgd' \<in> P" "w \<in> slots" for pgd' w
    using n(1) that unfolding maps_def by blast
  have "(pgd', w) \<in> maps s' P n \<longleftrightarrow> pgd' = pgd \<and> w = v" for pgd' w
  proof (cases "pgd' \<in> P \<and> w \<in> slots")
    case True
    then show ?thesis using c none [of pgd' w] pn by (auto simp: maps_def copied_def split: if_split_asm)
  qed (use v in \<open>auto simp: maps_def\<close>)
  then show ?thesis by auto
qed

lemma wp_outcome:
  assumes i: "pinv P nox H L s" and P: "pgd \<in> P" "va < KERNEL_BASE_ADDR" "va \<noteq> 0"
    and e: "pte_present (pte s pgd (vslot va))" "ef (pte s pgd (vslot va)) = q"
    and tv: "\<not> pte_present (pte s pgd (vslot USER_TEMPBOTT))" and t: "tab s pgd (vtab va) = Some t"
  shows "\<exists>r s' L'. do_wp_fault pgd va (t, pte_index va) s = Some (r, s') \<and> pinv P nox H L' s' \<and>
    (\<forall>f. maps s P f \<noteq> {} \<longrightarrow> pmem s' f = pmem s f) \<and>
    (r = Killed \<and> nfree s \<le> 2 \<and> (\<forall>pgd'\<in>P. \<forall>w\<in>slots. pte s' pgd' w = pte s pgd' w) \<or>
     r = Handled \<and> (\<exists>n e'. pte_present e' \<and> pte_write e' \<and> ef e' = n \<and> pmem s' n = pmem s q \<and>
       maps s' P n = {(pgd, vslot va)} \<and> (\<forall>pgd'\<in>P. \<forall>w\<in>slots. pte s' pgd' w =
         (if pgd' = pgd \<and> w = vslot va then e' else pte s pgd' w) \<or>
         pgd' = pgd \<and> w = vslot USER_TEMPBOTT \<and> pte s' pgd' w = 0)))"
proof (cases "pg_nref (mempage s q) = 1")
  case True
  note w = wp_private [OF i P(1,2) e t True refl]
  have qm: "(pgd, vslot va) \<in> maps s P q" using P e by (simp add: maps_def)
  obtain y where "maps s P q = {y}" using w(4) by (rule card_1_singletonE)
  then have "maps (pte_mkwrite (t, pte_index va) s) P q = {(pgd, vslot va)}" using qm w(3) by simp
  moreover have "pmem (pte_mkwrite (t, pte_index va) s) f = pmem s f" if "maps s P f \<noteq> {}" for f
    using w(5) pinvD(5) [OF i that] by blast
  moreover have "pmem (pte_mkwrite (t, pte_index va) s) q = pmem s q" using calculation qm by blast
  moreover have "\<forall>pgd'\<in>P. \<forall>x\<in>slots. pte (pte_mkwrite (t, pte_index va) s) pgd' x =
      (if pgd' = pgd \<and> x = vslot va then pte s pgd (vslot va) OR ucast PAGE_RW else pte s pgd' x) \<or>
      pgd' = pgd \<and> x = vslot USER_TEMPBOTT \<and> pte (pte_mkwrite (t, pte_index va) s) pgd' x = 0"
    by (intro ballI disjI1) (rule w(6))
  ultimately show ?thesis
    using w(1,2) e mkwrite_bits [of "pte s pgd (vslot va)"] by blast
next
  case False
  have v: "vslot va \<in> slots" using P(2) by simp
  have u: "upage P nox H L s f" if "maps s P f \<noteq> {}" for f using pinvD(5) [OF i that] .
  obtain r s' where run: "do_wp_fault pgd va (t, pte_index va) s = Some (r, s')" and
    d: "r = Killed \<and> nfree s \<le> 2 \<and> (\<exists>L'. pinv P nox H L' s') \<and> (\<forall>pgd'\<in>P. \<forall>w\<in>slots. pte s' pgd' w = pte s pgd' w) \<and>
       (\<forall>f. upage P nox H L s f \<longrightarrow> pmem s' f = pmem s f) \<or>
     r = Handled \<and> (\<exists>n. maps s P n = {} \<and> n < 2 ^ 52 \<and> \<not> upage P nox H L s n \<and>
       copied P H L pgd (vslot va) (vslot USER_TEMPBOTT) n (pmem s q) s s')"
    using wp_copy [OF i P e tv pte_at [OF t] False] by blast
  from d show ?thesis
  proof (elim disjE conjE exE)
    fix n assume n: "r = Handled" "maps s P n = {}" "n < 2 ^ 52" "\<not> upage P nox H L s n"
      and c: "copied P H L pgd (vslot va) (vslot USER_TEMPBOTT) n (pmem s q) s s'"
    note cd = c [unfolded copied_def]
    have "pte_present (mk_entry n urw)" "pte_write (mk_entry n urw)" "ef (mk_entry n urw) = n"
      using mk_entry_present [OF n(3) urw(1,2)] mk_entry(1) [OF n(3) urw(1)] mk_entry_flags(1) [OF urw(1)] urw(3) by auto
    moreover have "pmem s' f = pmem s f" if "maps s P f \<noteq> {}" for f using cd u [OF that] n(2) that by auto
    moreover have "maps s' P n = {(pgd, vslot va)}" using copied_maps [OF c n(2,3) P(1) v] .
    moreover have "\<forall>pgd'\<in>P. \<forall>w\<in>slots. pte s' pgd' w = (if pgd' = pgd \<and> w = vslot va then mk_entry n urw else pte s pgd' w) \<or>
         pgd' = pgd \<and> w = vslot USER_TEMPBOTT \<and> pte s' pgd' w = 0" using cd by auto
    ultimately show ?thesis using run n(1) cd by blast
  qed (use run u in blast)
qed

text \<open>
  C21. Copy on write keeps address spaces apart. On a write to a read-only page
  of a user address other than 0, while nothing is mapped at the temporary address the copy
  is made through, \<^verbatim>\<open>do_wp_fault\<close> always returns; it never changes the contents of a mapped frame nor the
  translation of any other page of any address space. If it succeeds, the faulting page
  is writable, has the contents it had, and its frame is mapped at this one place only,
  so a write to it is seen by nobody else. It kills the task only if fewer than three
  frames are free.
\<close>

theorem cow_fault_isolated:
  assumes "pinv P nox H L s" "pgd \<in> P" "va < KERNEL_BASE_ADDR" "va \<noteq> 0"
    "mmu s pgd va = Some (q, False, u)" "mmu s pgd USER_TEMPBOTT = None"
    "page_walk pgd va False s = Some (Some l, s)"
  shows "\<exists>r s'. do_wp_fault pgd va l s = Some (r, s') \<and> (\<exists>L'. pinv P nox H L' s') \<and>
    (\<forall>pgd'\<in>P. \<forall>va'<KERNEL_BASE_ADDR. pgd' \<noteq> pgd \<or> unat va' div 4096 \<noteq> unat va div 4096 \<longrightarrow>
       mmu s' pgd' va' = mmu s pgd' va') \<and>
    (\<forall>f. maps s P f \<noteq> {} \<longrightarrow> pmem s' f = pmem s f) \<and>
    (r = Killed \<and> nfree s \<le> 2 \<and> mmu s' pgd va = mmu s pgd va \<or>
     r = Handled \<and> (\<exists>n u'. mmu s' pgd va = Some (n, True, u') \<and> pmem s' n = pmem s q \<and>
       maps s' P n = {(pgd, vslot va)}))"
proof -
  note i = assms(1) and P = assms(2-4) and ms = mmu_slot [OF pinvD(4) [OF assms(1)]]
  have e: "pte_present (pte s pgd (vslot va))" "ef (pte s pgd (vslot va)) = q" "\<not> pte_present (pte s pgd (vslot USER_TEMPBOTT))"
    using ms [OF P(1,2)] ms [OF P(1) temp_addr(1)] assms(5,6) by (auto simp: Let_def split: if_split_asm)
  obtain t where t: "tab s pgd (vtab va) = Some t" "l = (t, pte_index va)"
    using page_walk_find [OF i P] assms(7) by (cases "tab s pgd (vtab va)") auto
  have sl: "unat va' div 4096 = unat va div 4096 \<longleftrightarrow> vslot va' = vslot va" for va'
    using vslot_eq [of va' va] by (simp add: PAGE_SHIFT_def)
  have z: "\<not> pte_present 0" by (simp add: pte_present_def)
  obtain r s' L' where run: "do_wp_fault pgd va l s = Some (r, s')" and i': "pinv P nox H L' s'"
    and mem: "\<forall>f. maps s P f \<noteq> {} \<longrightarrow> pmem s' f = pmem s f"
    and d: "r = Killed \<and> nfree s \<le> 2 \<and> (\<forall>pgd'\<in>P. \<forall>w\<in>slots. pte s' pgd' w = pte s pgd' w) \<or>
     r = Handled \<and> (\<exists>n e'. pte_present e' \<and> pte_write e' \<and> ef e' = n \<and> pmem s' n = pmem s q \<and>
       maps s' P n = {(pgd, vslot va)} \<and> (\<forall>pgd'\<in>P. \<forall>w\<in>slots. pte s' pgd' w =
         (if pgd' = pgd \<and> w = vslot va then e' else pte s pgd' w) \<or>
         pgd' = pgd \<and> w = vslot USER_TEMPBOTT \<and> pte s' pgd' w = 0))"
    using wp_outcome [OF i P e t(1)] t(2) by blast
  note ms' = mmu_slot [OF pinvD(4) [OF i']]
  from d show ?thesis
  proof (elim disjE conjE exE)
    assume a: "r = Killed" "nfree s \<le> 2" "\<forall>pgd'\<in>P. \<forall>w\<in>slots. pte s' pgd' w = pte s pgd' w"
    then have "mmu s' pgd' va' = mmu s pgd' va'" if "pgd' \<in> P" "va' < KERNEL_BASE_ADDR" for pgd' va'
      using ms [OF that] ms' [OF that] that by simp
    then show ?thesis using run i' mem a P by blast
  next
    fix n e' assume a: "r = Handled" "pte_present e'" "pte_write e'" "ef e' = n" "pmem s' n = pmem s q"
      "maps s' P n = {(pgd, vslot va)}" "\<forall>pgd'\<in>P. \<forall>w\<in>slots. pte s' pgd' w =
         (if pgd' = pgd \<and> w = vslot va then e' else pte s pgd' w) \<or>
         pgd' = pgd \<and> w = vslot USER_TEMPBOTT \<and> pte s' pgd' w = 0"
    have "mmu s' pgd' va' = mmu s pgd' va'"
      if "pgd' \<in> P" "va' < KERNEL_BASE_ADDR" "pgd' \<noteq> pgd \<or> vslot va' \<noteq> vslot va" for pgd' va'
    proof -
      have "pte s' pgd' (vslot va') = (if pgd' = pgd \<and> vslot va' = vslot va then e' else pte s pgd' (vslot va')) \<or>
          pgd' = pgd \<and> vslot va' = vslot USER_TEMPBOTT \<and> pte s' pgd' (vslot va') = 0"
        using a(7) that(1) vslot_slots [OF that(2)] by blast
      then have "pte s' pgd' (vslot va') = pte s pgd' (vslot va') \<or>
          \<not> pte_present (pte s' pgd' (vslot va')) \<and> \<not> pte_present (pte s pgd' (vslot va'))"
        using that(3) e(3) z by auto
      then show ?thesis unfolding ms [OF that(1,2)] ms' [OF that(1,2)] by (auto simp: Let_def)
    qed
    moreover have "vslot va \<noteq> vslot USER_TEMPBOTT" using e(1,3) by auto
    then have "pte s' pgd (vslot va) = e'" using a(7) P by (metis vslot_slots)
    then have "mmu s' pgd va = Some (n, True, e' AND ucast PAGE_USER \<noteq> 0)"
      using ms' [OF P(1,2)] a(2-4) by (simp add: Let_def)
    ultimately show ?thesis using run i' mem a(1,5,6) unfolding sl by blast
  qed
qed

theorem cow_fault_isolated_witness:
  "\<exists>s L pgd q l s' n. pinv {pgd} nox (fa_heads UNIV) L s \<and> mmu s pgd 0x1000 = Some (q, False, True) \<and>
     mmu s pgd 0x2000 = Some (q, False, True) \<and> do_wp_fault pgd 0x1000 l s = Some (Handled, s') \<and>
     mmu s' pgd 0x2000 = Some (q, False, True) \<and> maps s' {pgd} n = {(pgd, vslot 0x1000)} \<and> pmem s' n = pmem s q"
proof -
  obtain s L pgd q where s: "pinv {pgd} nox (fa_heads UNIV) L s" "mmu s pgd 0x1000 = Some (q, False, True)"
    "mmu s pgd 0x2000 = Some (q, False, True)" "mmu s pgd USER_TEMPBOTT = None" "3 \<le> nfree s"
    using shared_page by blast
  have low: "(0x1000::u32) < KERNEL_BASE_ADDR" "(0x2000::u32) < KERNEL_BASE_ADDR" by (simp_all add: KERNEL_BASE_ADDR_def)
  obtain l where l: "page_walk pgd 0x1000 False s = Some (Some l, s)"
    using page_walk_find [OF s(1) singletonI low(1)] present_tab [of s pgd "0x1000"] s(2)
      mmu_slot [OF pinvD(4) [OF s(1)] singletonI low(1)] by (auto simp: Let_def split: if_split_asm)
  from cow_fault_isolated [OF s(1) singletonI low(1) _ s(2,4) l] obtain r s' where
    "do_wp_fault pgd 0x1000 l s = Some (r, s')"
    and o: "\<forall>pgd'\<in>{pgd}. \<forall>va'<KERNEL_BASE_ADDR. pgd' \<noteq> pgd \<or> unat va' div 4096 \<noteq> unat (0x1000::u32) div 4096 \<longrightarrow>
       mmu s' pgd' va' = mmu s pgd' va'"
    and d: "r = Killed \<and> nfree s \<le> 2 \<and> mmu s' pgd 0x1000 = mmu s pgd 0x1000 \<or>
     r = Handled \<and> (\<exists>n u'. mmu s' pgd 0x1000 = Some (n, True, u') \<and> pmem s' n = pmem s q \<and> maps s' {pgd} n = {(pgd, vslot 0x1000)})"
    by auto
  moreover have "mmu s' pgd 0x2000 = Some (q, False, True)" using o low(2) s(3) by simp
  moreover obtain n where "r = Handled" "pmem s' n = pmem s q" "maps s' {pgd} n = {(pgd, vslot 0x1000)}" using d s(5) by auto
  ultimately show ?thesis using s(1-3) by blast
qed

end
