(* ===== verification/Fork_Pages.thy ===== *)
theory Fork_Pages
  imports Cow
begin

text \<open>
  The page loop of \<^verbatim>\<open>copy_task\<close> (\<^verbatim>\<open>kernel/syscall/fork.c\<close>) against the invariant of the
  address spaces: parent and child share every present page of an area, read-only, and
  the reference counts grow accordingly.
\<close>

lemma maps_bound:
  assumes "finite P" "card P \<le> 5000"
  shows "card (maps s P f) + 1 < 2 ^ 32"
proof -
  have "card (maps s P f) \<le> card (P \<times> slots)"
    by (rule card_mono) (use assms in \<open>auto simp: maps_def slots_def\<close>)
  also have "\<dots> \<le> 5000 * 786432"
    using mult_le_mono1 [OF assms(2), of 786432] by (simp add: card_cartesian_product slots_def)
  finally show ?thesis by simp
qed

section \<open>Sharing one page\<close>

definition shared :: "nat set \<Rightarrow> mnode set \<Rightarrow> (mnode \<Rightarrow> mnode list) \<Rightarrow> nat \<Rightarrow> nat \<Rightarrow> slot set \<Rightarrow> mmst \<Rightarrow> mmst \<Rightarrow> bool" where
  "shared P H L src dest R s s' \<longleftrightarrow>
     (\<exists>L'. pinv P nox H L' s' \<and> same_off UNIV L L') \<and>
     (\<forall>f. f \<notin> free_frames s ZNormal \<longrightarrow> \<not> is_table P s f \<longrightarrow>
        f \<notin> free_frames s' ZNormal \<and> \<not> is_table P s' f \<and> pmem s' f = pmem s f) \<and>
     (\<forall>pgd\<in>P. \<forall>w\<in>slots. pte s' pgd w =
        (if w \<in> R \<and> pte_present (pte s src w) \<and> (pgd = src \<or> pgd = dest)
         then pte s src w AND NOT (ucast PAGE_RW) else pte s pgd w))"

lemma shared_none:
  assumes "pinv P nox H L s" "\<And>w. w \<in> R \<Longrightarrow> w \<in> slots \<Longrightarrow> \<not> pte_present (pte s src w)"
  shows "shared P H L src dest R s s"
  using assms by (auto simp: shared_def intro!: exI [of _ L])

lemma walked_shared:
  assumes "pinv P nox H L' s'" "same_off UNIV L L'" "walked P s s'"
  shows "shared P H L src dest {} s s'"
  using assms unfolding shared_def walked_def by auto

lemma share_page:
  assumes i: "pinv P nox H L s" and cP: "card P \<le> 5000" and P: "src \<in> P" "dest \<in> P" "src \<noteq> dest"
    and va: "va < KERNEL_BASE_ADDR"
    and t: "tab s src (vtab va) = Some t" and d: "tab s dest (vtab va) = Some d"
    and e: "pte_present (pte s src (vslot va))" "\<not> pte_present (pte s dest (vslot va))"
    and q: "q = ef (pte s src (vslot va))"
    and s4: "s4 = ref_page q (pte_clearwrite (t, pte_index va) s)"
  shows "shared P H L src dest {vslot va} s (set_entry (d, pte_index va) (entry s4 (t, pte_index va)) s4)"
proof -
  let ?v = "vslot va" let ?k = "pte_index va" let ?s3 = "pte_clearwrite (t, ?k) s"
  define e' where "e' = pte s src ?v AND NOT (ucast PAGE_RW)"
  have v: "?v \<in> slots" using va by simp
  have eb: "pte_present e'" "ef e' = q" using e(1) q clearwrite_bits [of "pte s src ?v"] by (simp_all add: e'_def)
  have s3: "?s3 = set_entry (t, ?k) e' s" unfolding pte_clearwrite_def pte_at [OF t] e'_def ..
  note r = rewrite_slot [OF i P(1) t user_index [OF va] index_lt(2) index_lt(3) [of va], folded vslot_def,
      OF e(1) eb(1) eb(2) [unfolded q] s3]
  have "(src, ?v) \<in> maps s P q" using P(1) v e(1) q by (simp add: maps_def)
  then have uq: "upage P nox H L ?s3 q" using pinvD(5) [OF i] r(7) by blast
  have ct: "card (maps ?s3 P q) + nox q + 1 < 2 ^ 32" using maps_bound [OF pinvD(1) [OF i] cP] by simp
  have i4: "pinv P (nox(q := nox q + 1)) H L s4" and u4: "upage P (nox(q := nox q + 1)) H L s4 q"
    unfolding s4 using ref_pinv [OF r(1) uq ct] ref_upage [OF uq, of q] ct by simp_all
  have p4: "pte s4 pgd w = (if pgd = src \<and> w = ?v then e' else pte s pgd w)" if "pgd \<in> P" "w \<in> slots" for pgd w
    unfolding s4 using r(4) [OF that] by simp
  have tb: "tab s4 pgd u = tab s pgd u" if "pgd \<in> P" "u \<in> tids" for pgd u
    unfolding s4 using r(5) [OF that] by simp
  have vt: "vtab va \<in> tids" using user_index [OF va] by simp
  have d4: "tab s4 dest (vtab va) = Some d" and t4: "tab s4 src (vtab va) = Some t"
    using tb [OF P(2) vt] tb [OF P(1) vt] d t by simp_all
  have e4: "\<not> pte_present (pte s4 dest ?v)" using p4 [OF P(2) v] P(3) e(2) by simp
  have en: "entry s4 (t, ?k) = e'" using pte_at [OF t4] p4 [OF P(1) v] by simp
  note f = set_slot [OF i4 u4 P(2) d4 user_index [OF va] index_lt(2) index_lt(3) [of va], folded vslot_def,
      OF e4 eb refl]
  let ?s5 = "set_entry (d, ?k) e' s4"
  have "pte ?s5 pgd w = (if w \<in> {?v} \<and> pte_present (pte s src w) \<and> (pgd = src \<or> pgd = dest)
      then pte s src w AND NOT (ucast PAGE_RW) else pte s pgd w)" if "pgd \<in> P" "w \<in> slots" for pgd w
    using f(4) [OF that] p4 [OF that] e(1) P(3) by (auto simp: e'_def)
  moreover have "f \<notin> free_frames ?s5 ZNormal \<and> \<not> is_table P ?s5 f \<and> pmem ?s5 f = pmem s f"
    if "f \<notin> free_frames s ZNormal" "\<not> is_table P s f" for f
  proof -
    have "f \<noteq> d" using that(2) tableI [OF P(2) vt d] by auto
    then have "pmem ?s5 f = pmem ?s3 f" by (simp add: set_entry_def s4)
    moreover have "is_table P ?s5 = is_table P s" using f(5) r(3) by (simp add: s4)
    moreover have "free_frames ?s5 = free_frames s" unfolding s4 s3 by simp
    ultimately show ?thesis using r(6) that by simp
  qed
  ultimately show ?thesis
    using f(1) unfolding en shared_def by (auto intro!: exI [of _ L])
qed

section \<open>The loop\<close>

definition range_slots :: "u32 \<Rightarrow> u32 \<Rightarrow> slot set" where
  "range_slots a b = {vslot va |va. a \<le> va \<and> va < b}"

lemma range_slots_empty: "\<not> a < b \<Longrightarrow> range_slots a b = {}"
  by (auto simp: range_slots_def)

lemma range_slots_step:
  assumes a: "a < b" "b \<le> KERNEL_BASE_ADDR" "4096 dvd unat a" "4096 dvd unat b"
  shows "unat (a + PAGE_SIZE) = unat a + 4096" "a + PAGE_SIZE \<le> b" "4096 dvd unat (a + PAGE_SIZE)"
    "range_slots a b = insert (vslot a) (range_slots (a + PAGE_SIZE) b)" "vslot a \<notin> range_slots (a + PAGE_SIZE) b"
proof -
  have lt: "unat a < unat b" "unat b \<le> 0xC0000000" using a(1,2) by (simp_all add: word_less_nat_alt word_le_nat_alt KERNEL_BASE_ADDR_def)
  obtain m where m: "unat a = 4096 * m" using a(3) by (rule dvdE)
  obtain n where n: "unat b = 4096 * n" using a(4) by (rule dvdE)
  note mn = m n
  have "unat a + unat PAGE_SIZE < 2 ^ LENGTH(32)" using lt by (simp add: PAGE_SIZE_val)
  then have "unat (a + PAGE_SIZE) = unat a + unat PAGE_SIZE" by (rule unat_add_lem [THEN iffD1])
  then show u: "unat (a + PAGE_SIZE) = unat a + 4096" by (simp add: PAGE_SIZE_val)
  show le: "a + PAGE_SIZE \<le> b" and "4096 dvd unat (a + PAGE_SIZE)" using u mn lt by (simp_all add: word_le_nat_alt)
  have eq: "vslot va = vslot a \<longleftrightarrow> unat va div 4096 = m" for va
    using mn by (simp add: vslot_eq PAGE_SHIFT_def)
  have first: "a \<le> va \<and> va < b \<longleftrightarrow> a \<le> va \<and> va < a + PAGE_SIZE \<or> a + PAGE_SIZE \<le> va \<and> va < b" for va
    using u lt mn by (auto simp: word_le_nat_alt word_less_nat_alt)
  have one: "a \<le> va \<and> va < a + PAGE_SIZE \<Longrightarrow> vslot va = vslot a" for va
    unfolding eq word_le_nat_alt word_less_nat_alt u mn by (auto intro: div_nat_eqI)
  show "range_slots a b = insert (vslot a) (range_slots (a + PAGE_SIZE) b)"
  proof (intro set_eqI iffI)
    fix w assume "w \<in> range_slots a b"
    then obtain va where "w = vslot va" "a \<le> va \<and> va < b" by (auto simp: range_slots_def)
    then show "w \<in> insert (vslot a) (range_slots (a + PAGE_SIZE) b)"
      unfolding first using one [of va] by (auto simp: range_slots_def)
  next
    fix w assume "w \<in> insert (vslot a) (range_slots (a + PAGE_SIZE) b)"
    then consider "w = vslot a" | va where "w = vslot va" "a + PAGE_SIZE \<le> va \<and> va < b"
      by (auto simp: range_slots_def)
    then show "w \<in> range_slots a b"
    proof cases
      case (2 va)
      then have "a \<le> va \<and> va < b" using first [of va] by blast
      then show ?thesis using 2(1) by (auto simp: range_slots_def)
    qed (use a(1) in \<open>auto simp: range_slots_def\<close>)
  qed
  have "unat va div 4096 \<noteq> m" if "a + PAGE_SIZE \<le> va" for va
    using that unfolding word_le_nat_alt u mn by auto
  then show "vslot a \<notin> range_slots (a + PAGE_SIZE) b" 
  proof (intro notI)
    assume "vslot a \<in> range_slots (a + PAGE_SIZE) b"
    then obtain va where "vslot a = vslot va" "a + PAGE_SIZE \<le> va" by (auto simp: range_slots_def)
    then show False using eq [of va] \<open>\<And>va. a + PAGE_SIZE \<le> va \<Longrightarrow> unat va div 4096 \<noteq> m\<close> by simp
  qed
qed

lemma shared_trans:
  assumes a: "shared P H L src dest {v} s s1" "same_off UNIV L L1" "shared P H L1 src dest R s1 s2"
    and v: "v \<notin> R" "src \<in> P"
  shows "shared P H L src dest (insert v R) s s2"
proof -
  note sa = a(1) [unfolded shared_def] and sb = a(3) [unfolded shared_def]
  have "\<exists>L'. pinv P nox H L' s2 \<and> same_off UNIV L L'" using sb a(2) same_off_trans by blast
  moreover have "f \<notin> free_frames s2 ZNormal \<and> \<not> is_table P s2 f \<and> pmem s2 f = pmem s f"
    if "f \<notin> free_frames s ZNormal" "\<not> is_table P s f" for f
    using sa sb that by simp
  moreover have "pte s2 pgd w = (if w \<in> insert v R \<and> pte_present (pte s src w) \<and> (pgd = src \<or> pgd = dest)
      then pte s src w AND NOT (ucast PAGE_RW) else pte s pgd w)" if w: "pgd \<in> P" "w \<in> slots" for pgd w
  proof -
    have "pte s1 src w = (if w = v \<and> pte_present (pte s src w) then pte s src w AND NOT (ucast PAGE_RW) else pte s src w)"
      "pte s1 pgd w = (if w = v \<and> pte_present (pte s src w) \<and> (pgd = src \<or> pgd = dest)
        then pte s src w AND NOT (ucast PAGE_RW) else pte s pgd w)"
      using sa v(2) w by simp_all
    moreover have "pte s2 pgd w = (if w \<in> R \<and> pte_present (pte s1 src w) \<and> (pgd = src \<or> pgd = dest)
        then pte s1 src w AND NOT (ucast PAGE_RW) else pte s1 pgd w)" using sb w by simp
    ultimately show ?thesis using v(1) by (cases "w = v") auto
  qed
  ultimately show ?thesis unfolding shared_def by blast
qed

lemma shared_walked:
  assumes w: "walked P s s1" "same_off UNIV L L1" and sh: "shared P H L1 src dest R s1 s2" and P: "src \<in> P"
  shows "shared P H L src dest R s s2"
proof -
  note wd = w(1) [unfolded walked_def] and sd = sh [unfolded shared_def]
  have "\<exists>L'. pinv P nox H L' s2 \<and> same_off UNIV L L'" using sd w(2) same_off_trans by blast
  moreover have "f \<notin> free_frames s2 ZNormal \<and> \<not> is_table P s2 f \<and> pmem s2 f = pmem s f"
    if "f \<notin> free_frames s ZNormal" "\<not> is_table P s f" for f
  proof -
    have "f \<notin> free_frames s1 ZNormal" "\<not> is_table P s1 f" "pmem s1 f = pmem s f" using wd that by auto
    then show ?thesis using sd by simp
  qed
  moreover have "pte s2 pgd w = (if w \<in> R \<and> pte_present (pte s src w) \<and> (pgd = src \<or> pgd = dest)
      then pte s src w AND NOT (ucast PAGE_RW) else pte s pgd w)" if w: "pgd \<in> P" "w \<in> slots" for pgd w
  proof -
    have "pte s1 pgd w = pte s pgd w" "pte s1 src w = pte s src w" using wd w P by simp_all
    moreover have "pte s2 pgd w = (if w \<in> R \<and> pte_present (pte s1 src w) \<and> (pgd = src \<or> pgd = dest)
        then pte s1 src w AND NOT (ucast PAGE_RW) else pte s1 pgd w)" using sd w by blast
    ultimately show ?thesis by (simp only:)
  qed
  ultimately show ?thesis unfolding shared_def by blast
qed

lemma range_slots_slots: "b \<le> KERNEL_BASE_ADDR \<Longrightarrow> w \<in> range_slots a b \<Longrightarrow> w \<in> slots"
  by (auto simp: range_slots_def intro!: vslot_slots dest: order.strict_trans2)

lemma shared_skip:
  assumes "\<not> pte_present (pte s src v)"
  shows "shared P H L src dest (insert v R) s s' = shared P H L src dest R s s'"
proof -
  have "w \<in> insert v R \<and> pte_present (pte s src w) \<and> X \<longleftrightarrow> w \<in> R \<and> pte_present (pte s src w) \<and> X" for w X
    using assms by auto
  then show ?thesis unfolding shared_def by simp
qed

text \<open>One round of the loop on a present page.\<close>

lemma copy_pages_round:
  assumes i: "pinv P nox H L s" and cP: "card P \<le> 5000" and P: "src \<in> P" "dest \<in> P" "src \<noteq> dest"
    and st: "start < fin" "start < KERNEL_BASE_ADDR" "start \<noteq> 0"
    and e: "pte_present (pte s src (vslot start))" "\<not> pte_present (pte s dest (vslot start))"
  shows "(\<exists>s'. copy_pages src dest start fin s = Some (- errno_val ENOMEM, s') \<and> shared P H L src dest {} s s' \<and> nfree s \<le> 1) \<or>
    (\<exists>s1 s5 L1. nfree s \<le> nfree s5 + 2 \<and> walked P s s1 \<and> same_off UNIV L L1 \<and> shared P H L1 src dest {vslot start} s1 s5 \<and>
       copy_pages src dest start fin s = copy_pages src dest (start + PAGE_SIZE) fin s5)"
proof -
  obtain t where t: "tab s src (vtab start) = Some t" using present_tab [OF e(1)] by blast
  note pw = page_walk_find [OF i P(1) st(2,3)] and en = pte_at [OF t]
  obtain r s1 L1 where w: "page_walk dest start True s = Some (r, s1)" "same_off UNIV L L1" "pinv P nox H L1 s1" "walked P s s1"
    "r = None \<or> (\<exists>d. r = Some (d, pte_index start) \<and> tab s1 dest (vtab start) = Some d)"
    "r = None \<longrightarrow> nfree s \<le> 1" "nfree s \<le> nfree s1 + 2"
    using page_walk_create [OF i P(2) st(2,3)] by blast
  show ?thesis
  proof (cases r)
    case None
    then have "copy_pages src dest start fin s = Some (- errno_val ENOMEM, s1)"
      using st(1) pw t en e(1) w(1) by (subst copy_pages.simps) simp
    then show ?thesis using walked_shared [OF w(3,2,4)] w(6) None by blast
  next
    case (Some l)
    then obtain d where d: "r = Some (d, pte_index start)" "tab s1 dest (vtab start) = Some d" using w(5) by auto
    have v: "vslot start \<in> slots" "vtab start \<in> tids" using st(2) user_index [OF st(2)] by simp_all
    have t1: "tab s1 src (vtab start) = Some t" and p1: "pte s1 src (vslot start) = pte s src (vslot start)"
      "pte s1 dest (vslot start) = pte s dest (vslot start)"
      using w(4) t P v by (auto simp: walked_def)
    define q where "q = ef (pte s1 src (vslot start))"
    have "(src, vslot start) \<in> maps s1 P q" using P(1) v(1) e(1) p1(1) by (simp add: maps_def q_def)
    then have "in_zone s1 ZNormal q" using pinvD(5) [OF w(3)] by (auto simp: upage_def)
    then have qp: "pte_page_vaddr (entry s1 (t, pte_index start)) = Some (q * 2 ^ PAGE_SHIFT + unat KERNEL_BASE_ADDR)"
      "virt2page s1 (q * 2 ^ PAGE_SHIFT + unat KERNEL_BASE_ADDR) = Some q"
      using page_vaddr(3) [of "pte s1 src (vslot start)"] normal_frame [OF w(3), of q] pte_at [OF t1] by (simp_all add: q_def)
    let ?s4 = "ref_page q (pte_clearwrite (t, pte_index start) s1)"
    have "shared P H L1 src dest {vslot start} s1 (set_entry (d, pte_index start) (entry ?s4 (t, pte_index start)) ?s4)"
      using share_page [OF w(3) cP P st(2) t1 d(2) _ _ q_def refl] e p1 by simp
    moreover have "copy_pages src dest start fin s =
        copy_pages src dest (start + PAGE_SIZE) fin (set_entry (d, pte_index start) (entry ?s4 (t, pte_index start)) ?s4)"
      using st(1) pw t en e(1) w(1) d(1) qp by (subst copy_pages.simps) (simp add: Let_def)
    moreover have "free_frames (set_entry (d, pte_index start) (entry ?s4 (t, pte_index start)) ?s4) = free_frames s1"
      by (simp add: pte_clearwrite_def)
    ultimately show ?thesis using w(2,4,7) by metis
  qed
qed

text \<open>On an error the loop stops with the pages of a prefix \<open>R\<close> of the area shared.\<close>

lemma copy_pages_spec:
  assumes "pinv P nox H L s" "card P \<le> 5000" "src \<in> P" "dest \<in> P" "src \<noteq> dest"
    "start \<noteq> 0" "fin \<le> KERNEL_BASE_ADDR" "4096 dvd unat start" "4096 dvd unat fin"
    "\<forall>w\<in>range_slots start fin. \<not> pte_present (pte s dest w)"
  shows "\<exists>r s' R. copy_pages src dest start fin s = Some (r, s') \<and> R \<subseteq> range_slots start fin \<and>
    shared P H L src dest R s s' \<and> (r = 0 \<and> R = range_slots start fin \<or>
       r = - errno_val ENOMEM \<and> nfree s * 2048 < unat fin - unat start)"
  using assms
proof (induction "unat fin - unat start" arbitrary: start s L rule: less_induct)
  case less
  note i = less.prems(1) and cP = less.prems(2) and P = less.prems(3-5) and st = less.prems(6-9) and nd = less.prems(10)
  show ?case
  proof (cases "start < fin")
    case False
    then show ?thesis using range_slots_empty [OF False] shared_none [OF i, of "{}"]
      by (subst copy_pages.simps) (auto intro!: exI [of _ "{}"])
  next
    case True
    note rs = range_slots_step [OF True st(2,3,4)]
    have va: "start < KERNEL_BASE_ADDR" using True st(2) by (rule order.strict_trans2)
    have v: "vslot start \<in> slots" "vslot start \<in> range_slots start fin" using va rs(4) by auto
    let ?R = "range_slots (start + PAGE_SIZE) fin"
    have nz: "start + PAGE_SIZE \<noteq> 0" using rs(1) by (metis add_is_0 unat_0 zero_neq_numeral)
    have dec: "unat fin - unat (start + PAGE_SIZE) < unat fin - unat start"
      using True rs(1) by (simp add: word_less_nat_alt)
    have IH: "\<exists>r s' R. copy_pages src dest (start + PAGE_SIZE) fin s1 = Some (r, s') \<and> R \<subseteq> ?R \<and>
        shared P H L1 src dest R s1 s' \<and> (r = 0 \<and> R = ?R \<or> r = - errno_val ENOMEM \<and> nfree s1 * 2048 < unat fin - unat (start + PAGE_SIZE))"
      if "pinv P nox H L1 s1" "\<forall>w\<in>?R. \<not> pte_present (pte s1 dest w)" for s1 L1
      using less.hyps [OF dec that(1) cP P nz st(2) rs(3) st(4) that(2)] .
    have ins: "range_slots start fin = insert (vslot start) ?R" using rs(4) .
    show ?thesis
    proof (cases "pte_present (pte s src (vslot start))")
      case np: False
      have "copy_pages src dest start fin s = copy_pages src dest (start + PAGE_SIZE) fin s"
        using True page_walk_find [OF i P(1) va st(1)] np pte_at [of s src start]
        by (subst copy_pages.simps) (auto split: option.splits)
      moreover obtain r s' R where r: "copy_pages src dest (start + PAGE_SIZE) fin s = Some (r, s')" "R \<subseteq> ?R"
        "shared P H L src dest R s s'" "r = 0 \<and> R = ?R \<or> r = - errno_val ENOMEM \<and> nfree s * 2048 < unat fin - unat (start + PAGE_SIZE)"
        using IH [OF i] nd ins by blast
      ultimately show ?thesis using shared_skip [OF np, of P H L dest R s'] ins dec by (intro exI [of _ "insert (vslot start) R"] exI conjI) auto
    next
      case pr: True
      have e2: "\<not> pte_present (pte s dest (vslot start))" using nd v(2) by blast
      from copy_pages_round [OF i cP P True va st(1) pr e2] show ?thesis
      proof (elim disjE exE conjE)
        fix s1 s5 L1
        assume a: "walked P s s1" "same_off UNIV L L1" "shared P H L1 src dest {vslot start} s1 s5"
          "copy_pages src dest start fin s = copy_pages src dest (start + PAGE_SIZE) fin s5" "nfree s \<le> nfree s5 + 2"
        obtain L5 where L5: "pinv P nox H L5 s5" "same_off UNIV L1 L5" using a(3) by (auto simp: shared_def)
        have nd5: "\<not> pte_present (pte s5 dest w)" if "w \<in> ?R" for w
        proof -
          have w: "w \<in> slots" "w \<noteq> vslot start" using range_slots_slots [OF st(2) that] that rs(5) by auto
          then have "pte s5 dest w = pte s1 dest w" "pte s1 dest w = pte s dest w"
            using a(1,3) P(2) by (simp_all add: shared_def walked_def)
          then show ?thesis using nd ins that by simp
        qed
        then obtain r s' R where r: "copy_pages src dest (start + PAGE_SIZE) fin s5 = Some (r, s')" "R \<subseteq> ?R"
          "shared P H L5 src dest R s5 s'" "r = 0 \<and> R = ?R \<or> r = - errno_val ENOMEM \<and> nfree s5 * 2048 < unat fin - unat (start + PAGE_SIZE)"
          using IH [OF L5(1)] by blast
        have "shared P H L1 src dest (insert (vslot start) R) s1 s'"
          by (rule shared_trans [OF a(3) L5(2) r(3) _ P(1)]) (use r(2) rs(5) in blast)
        then have "shared P H L src dest (insert (vslot start) R) s s'"
          by (rule shared_walked [OF a(1,2) _ P(1)])
        moreover have "nfree s * 2048 < unat fin - unat start" if "nfree s5 * 2048 < unat fin - unat (start + PAGE_SIZE)"
          using that a(5) rs(1) by linarith
        ultimately show ?thesis using r ins a(4) by (intro exI [of _ "insert (vslot start) R"] exI conjI) auto
      next
        fix s' assume a: "copy_pages src dest start fin s = Some (- errno_val ENOMEM, s')" "shared P H L src dest {} s s'" "nfree s \<le> 1"
        have "unat (start + PAGE_SIZE) \<le> unat fin" using rs(2) by (simp add: word_le_nat_alt)
        then have "nfree s * 2048 < unat fin - unat start" using a(3) rs(1) by linarith
        then show ?thesis using a(1,2) by blast
      qed
    qed
  qed
qed

section \<open>Properties\<close>

lemma range_slots_iff:
  assumes "4096 dvd unat a" "4096 dvd unat b"
  shows "vslot va \<in> range_slots a b \<longleftrightarrow> a \<le> va \<and> va < b"
proof
  assume "vslot va \<in> range_slots a b"
  then obtain w where "vslot va = vslot w" "a \<le> w" "w < b" unfolding range_slots_def by blast
  then have w: "unat va div 4096 = unat w div 4096" "unat a \<le> unat w" "unat w < unat b"
    by (simp_all add: vslot_eq PAGE_SHIFT_def word_le_nat_alt word_less_nat_alt)
  obtain m where m: "unat a = m * 4096" using assms(1) by (metis dvdE mult.commute)
  obtain n where n: "unat b = n * 4096" using assms(2) by (metis dvdE mult.commute)
  have "m \<le> unat w div 4096" "unat w div 4096 < n"
    using w(2,3) unfolding m n by (simp_all add: less_eq_div_iff_mult_less_eq div_less_iff_less_mult)
  then have "m \<le> unat va div 4096" "unat va div 4096 < n" unfolding w(1) .
  then have "unat a \<le> unat va" "unat va < unat b"
    unfolding m n by (simp_all add: less_eq_div_iff_mult_less_eq div_less_iff_less_mult)
  then show "a \<le> va \<and> va < b" by (simp add: word_le_nat_alt word_less_nat_alt)
qed (auto simp: range_slots_def)

lemma clearwrite_user: "(e AND NOT (ucast PAGE_RW)) AND ucast PAGE_USER = e AND (ucast PAGE_USER :: u64)"
proof -
  have "NOT (ucast PAGE_RW) AND ucast PAGE_USER = (ucast PAGE_USER :: u64)" by (simp add: PAGE_RW_def PAGE_USER_def)
  then show ?thesis by (simp add: and.assoc)
qed

lemma shared_mmu:
  assumes i: "pinv P nox H L s" and sh: "shared P H L src dest R s s'" and P: "src \<in> P" "pgd \<in> P" "va < KERNEL_BASE_ADDR"
  shows "mmu s' pgd va = (if vslot va \<in> R \<and> mmu s src va \<noteq> None \<and> (pgd = src \<or> pgd = dest)
    then map_option (\<lambda>(f, w, u). (f, False, u)) (mmu s src va) else mmu s pgd va)"
proof -
  note sd = sh [unfolded shared_def] and ok = pinvD(4) [OF i]
  obtain L' where ok': "tables_ok P s'" using sd pinvD(4) by blast
  have p: "pte s' pgd (vslot va) = (if vslot va \<in> R \<and> pte_present (pte s src (vslot va)) \<and> (pgd = src \<or> pgd = dest)
         then pte s src (vslot va) AND NOT (ucast PAGE_RW) else pte s pgd (vslot va))"
    using sd P(2) vslot_slots [OF P(3)] by blast
  show ?thesis
    using clearwrite_bits [of "pte s src (vslot va)"] clearwrite_user [of "pte s src (vslot va)"]
    unfolding mmu_slot [OF ok P(1,3)] mmu_slot [OF ok P(2,3)] mmu_slot [OF ok' P(2,3)] p Let_def
    by (auto split: if_splits)
qed

text \<open>
  C22. The page loop of \<^verbatim>\<open>copy_task\<close> on a page-aligned area of user addresses above the first page,
  where the child has no page yet, always ends. At most 5000 address spaces exist, so that
  no reference count overflows. On success parent and child translate every page of the
  area to the frame the parent had there, with write access withdrawn in both, and every
  other translation of every address space is the old one. It fails only for want of
  memory, and then too the parent keeps every page it had. No mapped frame changes its
  contents and the reference counts stay exact.
\<close>

theorem fork_shares_pages:
  assumes "pinv P nox H L s" "card P \<le> 5000" "src \<in> P" "dest \<in> P" "src \<noteq> dest"
    "start \<noteq> 0" "fin \<le> KERNEL_BASE_ADDR" "4096 dvd unat start" "4096 dvd unat fin"
    "\<forall>va. start \<le> va \<and> va < fin \<longrightarrow> mmu s dest va = None"
  shows "\<exists>r s' L'. copy_pages src dest start fin s = Some (r, s') \<and> pinv P nox H L' s' \<and>
    (\<forall>f. maps s P f \<noteq> {} \<longrightarrow> pmem s' f = pmem s f) \<and>
    (\<forall>va<KERNEL_BASE_ADDR. map_option fst (mmu s' src va) = map_option fst (mmu s src va)) \<and>
    (\<forall>pgd\<in>P - {src, dest}. \<forall>va<KERNEL_BASE_ADDR. mmu s' pgd va = mmu s pgd va) \<and>
    (r = 0 \<and> (\<forall>pgd\<in>{src, dest}. \<forall>va<KERNEL_BASE_ADDR. mmu s' pgd va =
       (if start \<le> va \<and> va < fin then map_option (\<lambda>(f, w, u). (f, False, u)) (mmu s src va) else mmu s pgd va)) \<or>
     r = - errno_val ENOMEM \<and> nfree s * 2048 < unat fin - unat start)"
proof -
  note i = assms(1) and P = assms(3,4) and al = range_slots_iff [OF assms(8,9)]
  have "\<not> pte_present (pte s dest (vslot va))" if "vslot va \<in> range_slots start fin" for va
    using mmu_slot [OF pinvD(4) [OF i] P(2), of va] that assms(7,10) al [of va] order.strict_trans2 [of va fin]
    by (auto simp: Let_def split: if_splits)
  then have nd: "\<forall>w\<in>range_slots start fin. \<not> pte_present (pte s dest w)" unfolding range_slots_def by blast
  obtain r s' R where c: "copy_pages src dest start fin s = Some (r, s')" "R \<subseteq> range_slots start fin"
    "shared P H L src dest R s s'"
    "r = 0 \<and> R = range_slots start fin \<or> r = - errno_val ENOMEM \<and> nfree s * 2048 < unat fin - unat start"
    using copy_pages_spec [OF assms(1-9) nd] by blast
  note m = shared_mmu [OF i c(3) P(1)]
  obtain L' where i': "pinv P nox H L' s'" using c(3) by (auto simp: shared_def)
  have mem: "pmem s' f = pmem s f" if "maps s P f \<noteq> {}" for f
    using pinvD(5) [OF i that] c(3) by (auto simp: shared_def upage_def)
  have "map_option fst (mmu s' src va) = map_option fst (mmu s src va)" if "va < KERNEL_BASE_ADDR" for va
    using m [OF P(1) that] by (cases "mmu s src va") auto
  moreover have "mmu s' pgd va = mmu s pgd va" if "pgd \<in> P - {src, dest}" "va < KERNEL_BASE_ADDR" for pgd va
    using m [of pgd va] that by simp
  moreover have "mmu s' pgd va = (if start \<le> va \<and> va < fin then map_option (\<lambda>(f, w, u). (f, False, u)) (mmu s src va) else mmu s pgd va)"
    if "R = range_slots start fin" "pgd \<in> {src, dest}" "va < KERNEL_BASE_ADDR" for pgd va
  proof -
    have "pgd \<in> P" using that(2) P by blast
    then show ?thesis using m [OF _ that(3), of pgd] that(1,2) al [of va] assms(10) by (cases "mmu s src va") auto
  qed
  ultimately show ?thesis using c(1,4) i' mem by (intro exI conjI) blast+
qed

theorem fork_shares_pages_witness:
  "\<exists>s L src dest p s'. pinv {dest, src} nox (fa_heads UNIV) L s \<and> mmu s src 0x1000 = Some (p, False, True) \<and>
     copy_pages src dest 0x1000 0x2000 s = Some (0, s') \<and> mmu s' src 0x1000 = Some (p, False, True) \<and>
     mmu s' dest 0x1000 = Some (p, False, True) \<and> mmu s' dest 0x2000 = None"
proof -
  obtain s L src p where s: "pinv {src} nox (fa_heads UNIV) L s" "mmu s src 0x1000 = Some (p, False, True)" "3 \<le> nfree s"
    using shared_page by blast
  obtain dest s1 L1 where f1: "same_off UNIV L L1" "fresh {src} nox (fa_heads UNIV) L1 s s1 dest"
    using alloc_fresh [OF s(1)] s(3) by force
  then have "nfree s1 = nfree s - 1" by (simp add: fresh_def)
  then have s1: "same_off UNIV L L1" "fresh {src} nox (fa_heads UNIV) L1 s s1 dest" "2 \<le> nfree s1" using f1 s(3) by simp_all
  note fd = s1(2) [unfolded fresh_def]
  have low: "(0x1000::u32) < KERNEL_BASE_ADDR" "(0x2000::u32) \<le> KERNEL_BASE_ADDR" "(0x2000::u32) < KERNEL_BASE_ADDR"
    by (simp_all add: KERNEL_BASE_ADDR_def)
  have ne: "dest \<notin> {src}" using fd tableI [of src "{src}" TPgd s src] by auto
  have z: "\<forall>i<3. pmem s1 dest i = 0" using fd by simp
  have i1: "pinv {dest, src} nox (fa_heads UNIV) L1 s1" using new_aspace(1) [of "{src}" nox "fa_heads UNIV" L1 s1 dest] fd ne by auto
  have "\<not> pte_present 0" by (simp add: pte_present_def)
  then have d0: "mmu s1 dest va = None" if "va < KERNEL_BASE_ADDR" for va
    using mmu_slot [OF pinvD(4) [OF i1] _ that, of dest] empty_pgd(2) [OF z vslot_slots [OF that]] by (simp add: Let_def)
  have d1: "\<forall>va. (0x1000::u32) \<le> va \<and> va < 0x2000 \<longrightarrow> mmu s1 dest va = None"
    using d0 order.strict_trans2 [OF _ low(2)] by blast
  have "pinv {src} nox (fa_heads UNIV) L1 s1" using fd by simp
  then have m1: "mmu s1 src 0x1000 = Some (p, False, True)"
    using mmu_same [OF pinvD(4) [OF s(1)] pinvD(4) singletonI low(1)] s(2)
      fresh_keep(1) [OF s(1) s1(1,2) singletonI vslot_slots [OF low(1)]] by metis
  obtain s' where c: "copy_pages src dest 0x1000 0x2000 s1 = Some (0, s')"
    "\<forall>pgd\<in>{src, dest}. \<forall>va<KERNEL_BASE_ADDR. mmu s' pgd va =
       (if 0x1000 \<le> va \<and> va < 0x2000 then map_option (\<lambda>(f, w, u). (f, False, u)) (mmu s1 src va) else mmu s1 pgd va)"
    using fork_shares_pages [OF i1 _ _ _ _ _ low(2) _ _ d1] s1(3) ne by (auto simp: card_insert_if)
  then have "mmu s' src 0x1000 = Some (p, False, True)" "mmu s' dest 0x1000 = Some (p, False, True)" "mmu s' dest 0x2000 = None"
    using m1 d0 low by simp_all
  then show ?thesis using i1 m1 c(1) by blast
qed

end
