(* ===== verification/Aspace.thy ===== *)
theory Aspace
  imports Vma_Props Fork_Pages
begin

text \<open>
  The life of an address space: \<^verbatim>\<open>task_set_vm\<close>, \<^verbatim>\<open>copy_task\<close> (\<^verbatim>\<open>kernel/syscall/fork.c\<close>), \<^verbatim>\<open>region_alloc\<close>
  (\<^verbatim>\<open>kernel/task.c\<close>), the page fault handler (\<^verbatim>\<open>kernel/trap/page_fault.c\<close>), the check of user
  pointers (\<^verbatim>\<open>kernel/trap/syscall.c\<close>) and \<^verbatim>\<open>exit_mm\<close> (\<^verbatim>\<open>kernel/syscall/exit.c\<close>). \<open>kpgd\<close> is the frame of
  the kernel page directory. A fault that ends in \<^verbatim>\<open>exit(curtask); schedule()\<close> has the result
  \<open>Killed\<close>.
\<close>

section \<open>Set up\<close>

definition copy_kpgd :: "nat \<Rightarrow> nat \<Rightarrow> mmst \<Rightarrow> mmst" where
  "copy_kpgd kpgd pgd s = s\<lparr>pmem := (pmem s)(pgd := pmem s kpgd)\<rparr>"

text \<open>The common half of both \<^verbatim>\<open>task_set_vm\<close>: a page directory for the new descriptor \<open>mm\<close>.\<close>

definition set_pgd :: "nat \<Rightarrow> nat \<Rightarrow> nat \<Rightarrow> vmst \<Rightarrow> (int \<times> vmst) option" where
  "set_pgd cpu kpgd mm st = do {
     (page, s1) \<leftarrow> page_alloc GFP_ZERO (sl_mm (vm_sl st));
     let st1 = upd_pages s1 st;
     case page of
       None \<Rightarrow> do { sl \<leftarrow> kfree cpu mm (vm_sl st1); Some (- errno_val ENOMEM, st1\<lparr>vm_sl := sl\<rparr>) }
     | Some pgd \<Rightarrow> Some (0, upd_pages (copy_kpgd kpgd pgd s1) (upd_mms mm (\<lambda>m. m\<lparr>mm_pgd := Some pgd\<rparr>) st1)) }"

definition task_set_vm :: "nat \<Rightarrow> nat \<Rightarrow> vmst \<Rightarrow> (int \<times> nat \<times> vmst) option" where
  "task_set_vm cpu kpgd st = do {
     (mm, st1) \<leftarrow> alloc_mm cpu st;
     if mm = 0 then Some (- errno_val ENOMEM, 0, st1)
     else do { (r, st2) \<leftarrow> set_pgd cpu kpgd mm st1; Some (r, mm, st2) } }"

definition fork_set_vm :: "nat \<Rightarrow> nat \<Rightarrow> nat \<Rightarrow> vmst \<Rightarrow> (int \<times> nat \<times> vmst) option" where
  "fork_set_vm cpu kpgd cur st = do {
     (mm, st1) \<leftarrow> alloc_mm cpu st;
     if mm = 0 then Some (- errno_val ENOMEM, 0, st1)
     else do {
       let c = mms st1 cur;
       (r, st2) \<leftarrow> set_pgd cpu kpgd mm (upd_mms mm (\<lambda>m. m\<lparr>start_brk := start_brk c, end_brk := end_brk c,
          start_code := start_code c, end_code := end_code c, start_stack := start_stack c\<rparr>) st1);
       Some (r, mm, st2) } }"

partial_function (option) region_loop :: "nat \<Rightarrow> u32 \<Rightarrow> u32 \<Rightarrow> u32 \<Rightarrow> mmst \<Rightarrow> (int \<times> mmst) option" where
  "region_loop pgd down up perm s =
     (if down < up then do {
        (page, s1) \<leftarrow> page_alloc GFP_ZERO s;
        case page of
          None \<Rightarrow> Some (- errno_val ENOMEM, s1)
        | Some p \<Rightarrow> do {
            (r, s2) \<leftarrow> page_insert pgd p down perm s1;
            if r < 0 then Some (r, s2) else region_loop pgd (down + PAGE_SIZE) up perm s2 } }
      else Some (0, s))"

definition region_alloc :: "nat \<Rightarrow> u32 \<Rightarrow> u32 \<Rightarrow> u32 \<Rightarrow> mmst \<Rightarrow> (int \<times> mmst) option" where
  "region_alloc pgd va len perm s = do {
     kassert (va \<noteq> 0);
     kassert (len > 0);
     region_loop pgd (ROUNDDOWN va PAGE_SIZE) (ROUNDUP (va + len) PAGE_SIZE) perm s }"

section \<open>Fork\<close>

partial_function (option) copy_areas :: "nat \<Rightarrow> nat \<Rightarrow> nat \<Rightarrow> nat \<Rightarrow> vmst \<Rightarrow> (int \<times> vmst) option" where
  "copy_areas cpu src dest vma st =
     (if vma = 0 then Some (0, st)
      else do {
        let start = vm_start (vmas st vma);
        let fin = vm_end (vmas st vma);
        (foo, st1) \<leftarrow> create_vma cpu dest start (fin - start) (vm_flags (vmas st vma)) st;
        if foo = 0 then Some (- errno_val ENOMEM, st1)
        else do {
          sp \<leftarrow> mm_pgd (mms st1 src);
          dp \<leftarrow> mm_pgd (mms st1 dest);
          (r, s) \<leftarrow> copy_pages sp dp start fin (sl_mm (vm_sl st1));
          let st2 = upd_pages s st1;
          if r < 0 then Some (r, st2) else copy_areas cpu src dest (vm_next (vmas st2 vma)) st2 } })"

definition copy_task :: "nat \<Rightarrow> nat \<Rightarrow> nat \<Rightarrow> vmst \<Rightarrow> (int \<times> vmst) option" where
  "copy_task cpu src dest st = do {
     let vma = mmap (mms st src);
     st1 \<leftarrow> mm_lock src st;
     (r, st2) \<leftarrow> copy_areas cpu src dest vma st1;
     Some (r, mm_unlock src st2) }"

section \<open>Page faults\<close>

definition fault_page :: "nat \<Rightarrow> u32 \<Rightarrow> mmst \<Rightarrow> (fault_end \<times> mmst) option" where
  "fault_page pgd address s = do {
     (new, s1) \<leftarrow> page_alloc GFP_ZERO s;
     case new of
       None \<Rightarrow> Some (Killed, s1)
     | Some n \<Rightarrow> do {
         (r, s2) \<leftarrow> page_insert pgd n address (PAGE_PRESENT OR PAGE_RW OR PAGE_USER) s1;
         kassert (\<not> r < 0);
         Some (Handled, s2) } }"

definition handle_pte_fault :: "nat \<Rightarrow> nat \<Rightarrow> u32 \<Rightarrow> loc \<Rightarrow> u32 \<Rightarrow> vmst \<Rightarrow> (fault_end \<times> vmst) option" where
  "handle_pte_fault mm vma address l err st = do {
     kassert (vma \<noteq> 0);
     kassert (mm \<noteq> 0);
     pgd \<leftarrow> mm_pgd (mms st mm);
     let s = sl_mm (vm_sl st);
     (r, s') \<leftarrow>
       (if pte_present (entry s l) then
          if err AND 2 \<noteq> 0 then
            if \<not> pte_write (entry s l) then do_wp_fault pgd address l s else None
          else None
        else if vm_start (vmas st vma) = USER_STACKBOTT then fault_page pgd address s
        else if vm_start (vmas st vma) = start_brk (mms st mm) then fault_page pgd address s
        else None);
     Some (r, upd_pages s' st) }"

definition page_fault_handler :: "nat \<Rightarrow> nat \<Rightarrow> u32 \<Rightarrow> u32 \<Rightarrow> vmst \<Rightarrow> (fault_end \<times> vmst) option" where
  "page_fault_handler mm task_pgd va err st = do {
     vma \<leftarrow> find_vma mm va st;
     if vma = 0 \<or> vm_start (vmas st vma) > va then Some (Killed, st)
     else do {
       (pte, s1) \<leftarrow> page_walk task_pgd va True (sl_mm (vm_sl st));
       let st1 = upd_pages s1 st;
       case pte of
         None \<Rightarrow> Some (Killed, st1)
       | Some l \<Rightarrow> handle_pte_fault mm vma va l err st1 } }"

section \<open>User pointers\<close>

partial_function (option) check_pages :: "nat \<Rightarrow> u32 \<Rightarrow> u32 \<Rightarrow> u32 \<Rightarrow> mmst \<Rightarrow> (int \<times> mmst) option" where
  "check_pages pgd bottom lim perm s =
     (if bottom < lim then
        if bottom \<ge> KERNEL_BASE_ADDR then Some (- errno_val EFAULT, s)
        else do {
          (pte, s1) \<leftarrow> page_walk pgd bottom False s;
          case pte of
            None \<Rightarrow> Some (- errno_val EFAULT, s1)
          | Some l \<Rightarrow>
              if entry s1 l AND ucast perm \<noteq> ucast perm then Some (- errno_val EFAULT, s1)
              else check_pages pgd (bottom + PAGE_SIZE) lim perm s1 }
      else Some (0, s))"

definition user_mem_check :: "nat \<Rightarrow> u32 \<Rightarrow> u32 \<Rightarrow> u32 \<Rightarrow> mmst \<Rightarrow> (int \<times> mmst) option" where
  "user_mem_check pgd va len perm s =
     check_pages pgd (ROUNDDOWN va PAGE_SIZE) (ROUNDUP (va + len) PAGE_SIZE) (perm OR PAGE_PRESENT) s"

text \<open>\<open>Killed\<close> stands for the \<^verbatim>\<open>exit(task)\<close> of a failed check.\<close>

definition user_mem_assert :: "nat \<Rightarrow> u32 \<Rightarrow> u32 \<Rightarrow> u32 \<Rightarrow> mmst \<Rightarrow> (fault_end \<times> int \<times> mmst) option" where
  "user_mem_assert pgd va len perm s = do {
     (r, s1) \<leftarrow> user_mem_check pgd va len (perm OR PAGE_USER) s;
     Some (if r < 0 then (Killed, - errno_val EFAULT, s1) else (Handled, 0, s1)) }"

section \<open>Exit\<close>

partial_function (option) delete_vmas :: "nat \<Rightarrow> nat \<Rightarrow> nat \<Rightarrow> vmst \<Rightarrow> vmst option" where
  "delete_vmas cpu mm vma st =
     (if vma = 0 then Some st
      else do { st1 \<leftarrow> delete_vma cpu vma st; delete_vmas cpu mm (mmap (mms st1 mm)) st1 })"

definition delete_all_vma :: "nat \<Rightarrow> nat \<Rightarrow> vmst \<Rightarrow> vmst option" where
  "delete_all_vma cpu mm st =
     (if mm = 0 then Some st
      else if mmap (mms st mm) = 0 then Some st
      else do {
        st1 \<leftarrow> delete_vmas cpu mm (mmap (mms st mm)) st;
        Some (upd_mms mm (\<lambda>m. m\<lparr>mmap := 0\<rparr>) st1) })"

fun exit_pmds :: "nat \<Rightarrow> nat \<Rightarrow> mmst \<Rightarrow> mmst option" where
  "exit_pmds tmp 0 s = Some s"
| "exit_pmds tmp (Suc n) s = do {
     s1 \<leftarrow> exit_pmds tmp n s;
     let pmd = table_at tmp n;
     if \<not> pmd_present (entry s1 pmd) \<or> pmd_none (entry s1 pmd) then Some s1
     else do {
       v \<leftarrow> pmd_page_vaddr (entry s1 pmd);
       p \<leftarrow> virt2page s1 v;
       s2 \<leftarrow> page_decref p s1;
       pmd_set pmd 0 0 s2 } }"

fun exit_pgds :: "nat \<Rightarrow> nat \<Rightarrow> mmst \<Rightarrow> mmst option" where
  "exit_pgds mpgd 0 s = Some s"
| "exit_pgds mpgd (Suc n) s = do {
     s1 \<leftarrow> exit_pgds mpgd n s;
     let pgd = (mpgd, n);
     if \<not> pgd_present (entry s1 pgd) \<or> pgd_none (entry s1 pgd) then Some s1
     else do {
       tmp \<leftarrow> pgd_page_vaddr (entry s1 pgd);
       s2 \<leftarrow> exit_pmds tmp PTRS_PER_PMD s1;
       v \<leftarrow> pgd_page_vaddr (entry s2 pgd);
       p \<leftarrow> virt2page s2 v;
       s3 \<leftarrow> page_decref p s2;
       pgd_set pgd 0 0 s3 } }"

definition exit_mm :: "nat \<Rightarrow> nat \<Rightarrow> vmst \<Rightarrow> vmst option" where
  "exit_mm cpu mm st =
     (if mm = 0 then None
      else case mm_pgd (mms st mm) of
        None \<Rightarrow> Some st
      | Some pgd \<Rightarrow>
          let (zero, v) = atomic_dec_and_test (mm_count (mms st mm));
              st1 = upd_mms mm (\<lambda>m. m\<lparr>mm_count := v\<rparr>) st
          in if \<not> zero then Some st1
             else do {
               st2 \<leftarrow> delete_all_vma cpu mm st1;
               s3 \<leftarrow> exit_pgds pgd (pgd_index KERNEL_BASE_ADDR) (sl_mm (vm_sl st2));
               s4 \<leftarrow> page_free pgd s3;
               sl \<leftarrow> kfree cpu mm (vm_sl (upd_pages s4 st2));
               Some ((upd_pages s4 st2)\<lparr>vm_sl := sl\<rparr>) })"

section \<open>A fault on a page without translation\<close>

lemma fault_page_spec:
  assumes i: "pinv P nox H L s" and P: "pgd \<in> P" "va < KERNEL_BASE_ADDR" "va \<noteq> 0" and t: "tab s pgd (vtab va) = Some t"
  shows "\<exists>r s' L'. fault_page pgd va s = Some (r, s') \<and> pinv P nox H L' s' \<and> (\<forall>f. maps s P f \<noteq> {} \<longrightarrow> pmem s' f = pmem s f) \<and>
    (r = Killed \<and> s' = s \<and> nfree s = 0 \<or>
     r = Handled \<and> (\<exists>n. n < 2 ^ 52 \<and> maps s P n = {} \<and> pmem s' n = (\<lambda>_. 0) \<and>
       (\<forall>pgd'\<in>P. \<forall>w\<in>slots. pte s' pgd' w = (if pgd' = pgd \<and> w = vslot va then mk_entry n urw else pte s pgd' w))))"
  using alloc_fresh [OF i]
proof (elim disjE exE conjE)
  assume "pages_alloc GFP_ZERO 0 s = Some (None, s)" "free_frames s ZNormal = {}"
  then show ?thesis using i by (intro exI [of _ Killed] exI [of _ s] exI [of _ L]) (simp add: fault_page_def page_alloc_def)
next
  fix n s1 L1
  assume a: "pages_alloc GFP_ZERO 0 s = Some (Some n, s1)" "same_off UNIV L L1" "fresh P nox H L1 s s1 n"
  note fk = fresh_keep [OF i a(2,3)] and fd = a(3) [unfolded fresh_def]
  have i1: "pinv P nox H L1 s1" and u1: "upage P nox H L1 s1 n" and m1: "maps s1 P n = {}" "maps s P n = {}"
    using fd fresh_upage [OF a(3)] by simp_all
  have c1: "card (maps s1 P n) + nox n + 1 < 2 ^ 32" using m1 by simp
  have n: "n < 2 ^ 52" using normal_frame [OF i1, of n] fd by blast
  have "\<And>f. is_table P s f \<Longrightarrow> pmem s1 f = pmem s f" using fd by auto
  then have "tab s1 pgd (vtab va) = Some t" using same_tables(1) [of P s s1 pgd "vtab va"] P t user_index [OF P(2)] by auto
  then obtain s2 L2 where s2: "page_insert pgd n va urw s1 = Some (0, s2)" "inserted P nox H L1 L2 pgd (vslot va) n (mk_entry n urw) s1 s2"
    using page_insert_spec [OF i1 u1 c1 P urw(1,2)] by auto
  note ins = s2(2) [unfolded inserted_def]
  have "pmem s2 n = (\<lambda>_. 0)" using ins u1 fd by (simp add: upage_def)
  moreover have "pmem s2 f = pmem s f" if "maps s P f \<noteq> {}" for f
  proof -
    have "upage P nox H L1 s1 f" "pmem s1 f = pmem s f" using fk(2) [OF pinvD(5) [OF i that]] by simp_all
    then show ?thesis using ins by (simp add: upage_def)
  qed
  moreover have "\<forall>pgd'\<in>P. \<forall>w\<in>slots. pte s2 pgd' w = (if pgd' = pgd \<and> w = vslot va then mk_entry n urw else pte s pgd' w)"
    using ins fk(1) by simp
  moreover have "fault_page pgd va s = Some (Handled, s2)" using a(1) s2(1) by (simp add: fault_page_def page_alloc_def)
  ultimately show ?thesis using ins n m1 by blast
qed

lemma mapped_once:
  assumes "maps s P n = {}" "n < 2 ^ 52" "pgd \<in> P" "v \<in> slots"
    and "\<forall>pgd'\<in>P. \<forall>w\<in>slots. pte s' pgd' w = (if pgd' = pgd \<and> w = v then mk_entry n urw else pte s pgd' w)"
  shows "maps s' P n = {(pgd, v)}"
proof -
  have pn: "pte_present (mk_entry n urw)" "ef (mk_entry n urw) = n"
    using mk_entry_present [OF assms(2) urw(1,2)] mk_entry(1) [OF assms(2) urw(1)] by auto
  have none: "\<not> (pte_present (pte s pgd' w) \<and> ef (pte s pgd' w) = n)" if "pgd' \<in> P" "w \<in> slots" for pgd' w
    using assms(1) that unfolding maps_def by blast
  have "(pgd', w) \<in> maps s' P n \<longleftrightarrow> pgd' = pgd \<and> w = v" for pgd' w
  proof (cases "pgd' \<in> P \<and> w \<in> slots")
    case True
    then show ?thesis using assms(5) none [of pgd' w] pn by (auto simp: maps_def split: if_split_asm)
  qed (use assms(3,4) in \<open>auto simp: maps_def\<close>)
  then show ?thesis by auto
qed

lemma find_vma_covering:
  assumes T: "vm_tree st mm T" and a: "a \<in> set_tree T" "vstart st a \<le> unat va" "unat va < vend st a"
  shows "find_vma mm va st = Some a" "a \<noteq> 0"
proof -
  have al: "area_list st (inorder T)" and d: "distinct (inorder T)" and z: "0 \<notin> set_tree T" using T rbt_nonzero by (auto simp: vm_tree_def)
  show "a \<noteq> 0" using a(1) z by metis
  obtain v where v: "first_above st va (inorder T) = Some v"
    using first_above_None [of st va "inorder T"] a by (cases "first_above st va (inorder T)") auto
  have vv: "v \<in> set_tree T" "unat va < vend st v" using first_above_in [OF v] by auto
  have "vstart st v \<le> vstart st a" using first_above_Some [OF v al, of a] a by simp
  moreover have "v = a \<or> vend st v \<le> vstart st a \<or> vend st a \<le> vstart st v"
  proof -
    obtain i j where ij: "i < length (inorder T)" "j < length (inorder T)" "inorder T ! i = v" "inorder T ! j = a"
      using vv(1) a(1) by (metis in_set_conv_nth set_inorder)
    then show ?thesis using al sorted_wrt_nth_less [of "\<lambda>a b. vend st a \<le> vstart st b" "inorder T"]
      by (metis area_list_def linorder_neqE_nat)
  qed
  moreover have "vstart st a < vend st a" using al a(1) by (auto simp: area_list_def area_ok_def)
  ultimately have "v = a" using vv(2) a by linarith
  then show "find_vma mm va st = Some a" using find_vma_spec [OF T] v by simp
qed

lemma find_vma_outside:
  assumes T: "vm_tree st mm T" and o: "\<forall>a\<in>set_tree T. \<not> (vstart st a \<le> unat va \<and> unat va < vend st a)"
  shows "\<exists>v. find_vma mm va st = Some v \<and> (v = 0 \<or> vm_start (vmas st v) > va)"
proof (cases "first_above st va (inorder T)")
  case (Some v)
  then have "v \<in> set_tree T" "unat va < vend st v" using first_above_in [OF Some] by auto
  then show ?thesis using find_vma_spec [OF T] Some o by (auto simp: word_less_nat_alt not_le)
qed (use find_vma_spec [OF T] in simp)

lemma urw_mmu:
  assumes "tables_ok P s" "pgd \<in> P" "va < KERNEL_BASE_ADDR" "n < 2 ^ 52" "pte s pgd (vslot va) = mk_entry n urw"
  shows "mmu s pgd va = Some (n, True, True)"
  using mmu_slot [OF assms(1-3)] assms(5) mk_entry_present [OF assms(4) urw(1,2)] mk_entry(1) [OF assms(4) urw(1)] mk_entry_flags [OF urw(1)] urw(3,4)
  by (simp add: Let_def)

section \<open>Properties\<close>

text \<open>
  C31. Demand paging. A fault at an address that no area covers kills the task and changes
  nothing. A fault on a missing page of the stack or the heap always returns: the page
  gets a frame of its own, zeroed and writable for the user, or the task is killed, and
  that only if at most two frames are free. In both cases every other page of every
  address space keeps its translation and every mapped frame its contents.
\<close>

theorem page_fault_correct:
  assumes "pinv P nox H L (sl_mm (vm_sl st))" "pgd \<in> P" "va < KERNEL_BASE_ADDR" "va \<noteq> 0" "vm_tree st mm T" "mm \<noteq> 0"
    "mm_pgd (mms st mm) = Some pgd" "mmu (sl_mm (vm_sl st)) pgd va = None"
  shows "((\<forall>a\<in>set_tree T. \<not> (vstart st a \<le> unat va \<and> unat va < vend st a)) \<longrightarrow> page_fault_handler mm pgd va err st = Some (Killed, st)) \<and>
    (\<forall>a\<in>set_tree T. vstart st a \<le> unat va \<and> unat va < vend st a \<and> vm_start (vmas st a) \<in> {USER_STACKBOTT, start_brk (mms st mm)} \<longrightarrow>
      (\<exists>r s'. page_fault_handler mm pgd va err st = Some (r, upd_pages s' st) \<and> (\<exists>L'. pinv P nox H L' s') \<and>
        (\<forall>pgd'\<in>P. \<forall>va'<KERNEL_BASE_ADDR. pgd' \<noteq> pgd \<or> unat va' div 4096 \<noteq> unat va div 4096 \<longrightarrow>
           mmu s' pgd' va' = mmu (sl_mm (vm_sl st)) pgd' va') \<and>
        (\<forall>f. maps (sl_mm (vm_sl st)) P f \<noteq> {} \<longrightarrow> pmem s' f = pmem (sl_mm (vm_sl st)) f) \<and>
        (r = Killed \<and> nfree (sl_mm (vm_sl st)) \<le> 2 \<and> mmu s' pgd va = None \<or>
         r = Handled \<and> (\<exists>n. mmu s' pgd va = Some (n, True, True) \<and> pmem s' n = (\<lambda>_. 0) \<and> maps s' P n = {(pgd, vslot va)}))))"
proof (intro conjI impI ballI)
  assume "\<forall>a\<in>set_tree T. \<not> (vstart st a \<le> unat va \<and> unat va < vend st a)"
  from find_vma_outside [OF assms(5) this] show "page_fault_handler mm pgd va err st = Some (Killed, st)"
    by (auto simp: page_fault_handler_def)
next
  fix a assume a: "a \<in> set_tree T" and c: "vstart st a \<le> unat va \<and> unat va < vend st a \<and> vm_start (vmas st a) \<in> {USER_STACKBOTT, start_brk (mms st mm)}"
  let ?s = "sl_mm (vm_sl st)" let ?v = "vslot va"
  note i = assms(1) and P = assms(2-4)
  have f: "find_vma mm va st = Some a" "a \<noteq> 0" "\<not> vm_start (vmas st a) > va"
    using find_vma_covering [OF assms(5) a] c by (auto simp: word_less_nat_alt)
  have np: "\<not> pte_present (pte ?s pgd ?v)" using mmu_slot [OF pinvD(4) [OF i] P(1,2)] assms(8) by (simp add: Let_def split: if_split_asm)
  have v: "?v \<in> slots" using P(2) by simp
  obtain r0 s1 L1 where w: "page_walk pgd va True ?s = Some (r0, s1)" "pinv P nox H L1 s1" "walked P ?s s1" "nfree ?s \<le> nfree s1 + 2"
    "r0 = None \<and> nfree ?s \<le> 1 \<or> (\<exists>t. r0 = Some (t, pte_index va) \<and> tab s1 pgd (vtab va) = Some t)"
    using page_walk_create [OF i P] by blast
  have p1: "pte s1 pgd' x = pte ?s pgd' x" if "pgd' \<in> P" "x \<in> slots" for pgd' x using w(3) that by (simp add: walked_def)
  have m1: "pmem s1 g = pmem ?s g" if "maps ?s P g \<noteq> {}" for g
    using w(3) pinvD(5) [OF i that] by (simp add: walked_def upage_def)
  have same: "mmu s' pgd' va' = mmu ?s pgd' va'"
    if "pinv P nox H L' s'" "pgd' \<in> P" "va' < KERNEL_BASE_ADDR" "pte s' pgd' (vslot va') = pte ?s pgd' (vslot va')" for s' L' pgd' va'
    using mmu_slot [OF pinvD(4) [OF i] that(2,3)] mmu_slot [OF pinvD(4) [OF that(1)] that(2,3)] that(4) by simp
  have sl: "unat va' div 4096 = unat va div 4096 \<longleftrightarrow> vslot va' = ?v" for va'
    using vslot_eq [of va' va] by (simp add: PAGE_SHIFT_def)
  show "\<exists>r s'. page_fault_handler mm pgd va err st = Some (r, upd_pages s' st) \<and> (\<exists>L'. pinv P nox H L' s') \<and>
        (\<forall>pgd'\<in>P. \<forall>va'<KERNEL_BASE_ADDR. pgd' \<noteq> pgd \<or> unat va' div 4096 \<noteq> unat va div 4096 \<longrightarrow> mmu s' pgd' va' = mmu ?s pgd' va') \<and>
        (\<forall>f. maps ?s P f \<noteq> {} \<longrightarrow> pmem s' f = pmem ?s f) \<and>
        (r = Killed \<and> nfree ?s \<le> 2 \<and> mmu s' pgd va = None \<or>
         r = Handled \<and> (\<exists>n. mmu s' pgd va = Some (n, True, True) \<and> pmem s' n = (\<lambda>_. 0) \<and> maps s' P n = {(pgd, ?v)}))"
  proof (cases r0)
    case None
    then have "page_fault_handler mm pgd va err st = Some (Killed, upd_pages s1 st)" using f w(1) by (simp add: page_fault_handler_def)
    moreover have "mmu s1 pgd' va' = mmu ?s pgd' va'" if "pgd' \<in> P" "va' < KERNEL_BASE_ADDR" for pgd' va'
      using same [OF w(2) that] p1 that by simp
    ultimately show ?thesis using w None m1 assms(8) P by (intro exI [of _ Killed] exI [of _ s1]) auto
  next
    case (Some l)
    then obtain t where t: "r0 = Some (t, pte_index va)" "tab s1 pgd (vtab va) = Some t" using w(5) by auto
    obtain r s' L' where g: "fault_page pgd va s1 = Some (r, s')" "pinv P nox H L' s'" "\<forall>f. maps s1 P f \<noteq> {} \<longrightarrow> pmem s' f = pmem s1 f"
      "r = Killed \<and> s' = s1 \<and> nfree s1 = 0 \<or> r = Handled \<and> (\<exists>n. n < 2 ^ 52 \<and> maps s1 P n = {} \<and> pmem s' n = (\<lambda>_. 0) \<and>
       (\<forall>pgd'\<in>P. \<forall>w\<in>slots. pte s' pgd' w = (if pgd' = pgd \<and> w = ?v then mk_entry n urw else pte s1 pgd' w)))"
      using fault_page_spec [OF w(2) P t(2)] by blast
    have "\<not> pte_present (entry s1 (t, pte_index va))" using pte_at [OF t(2)] p1 [OF P(1) v] np by simp
    then have run: "page_fault_handler mm pgd va err st = Some (r, upd_pages s' st)"
      using f w(1) t(1) g(1) c assms(6,7) by (auto simp: page_fault_handler_def handle_pte_fault_def upd_pages_def Let_def)
    have mem: "\<forall>f. maps ?s P f \<noteq> {} \<longrightarrow> pmem s' f = pmem ?s f" using g(3) m1 walked_maps [OF w(3)] by simp
    from g(4) show ?thesis
    proof (elim disjE conjE exE)
      assume k: "r = Killed" "s' = s1" "nfree s1 = 0"
      then have "mmu s' pgd' va' = mmu ?s pgd' va'" if "pgd' \<in> P" "va' < KERNEL_BASE_ADDR" for pgd' va'
        using same [OF g(2) that] p1 that by simp
      then show ?thesis using run k g(2) mem w(4) assms(8) P by (intro exI [of _ r] exI [of _ s']) auto
    next
      fix n assume n: "r = Handled" "n < 2 ^ 52" "maps s1 P n = {}" "pmem s' n = (\<lambda>_. 0)"
        "\<forall>pgd'\<in>P. \<forall>w\<in>slots. pte s' pgd' w = (if pgd' = pgd \<and> w = ?v then mk_entry n urw else pte s1 pgd' w)"
      have "mmu s' pgd' va' = mmu ?s pgd' va'" if "pgd' \<in> P" "va' < KERNEL_BASE_ADDR" "pgd' \<noteq> pgd \<or> vslot va' \<noteq> ?v" for pgd' va'
        using same [OF g(2) that(1,2)] p1 [OF that(1), of "vslot va'"] n(5) [rule_format, of pgd' "vslot va'"] vslot_slots [OF that(2)] that by (auto split: if_splits)
      moreover have "mmu s' pgd va = Some (n, True, True)" using urw_mmu [OF pinvD(4) [OF g(2)] P(1,2) n(2)] n(5) P(1) v by simp
      moreover have "maps s' P n = {(pgd, ?v)}" by (rule mapped_once [OF n(3,2) P(1) v n(5)])
      ultimately show ?thesis unfolding sl using run n(1,4) g(2) mem by (intro exI [of _ r] exI [of _ s']) auto
    qed
  qed
qed

text \<open>An address space with the page directory \<open>pgd\<close> and a heap of one page at \<open>0x1000\<close>.\<close>

definition heap_vm :: "mmst \<Rightarrow> nat \<Rightarrow> vmst" where
  "heap_vm s pgd = (blank_vm (boot_slab s))\<lparr>vm_rbs := \<lparr>rbn = (\<lambda>_. \<lparr>rb_parent = 0, rb_right = 0, rb_left = 0\<rparr>), rb_root = (\<lambda>_. 10)\<rparr>,
     mms := (\<lambda>_. blank_mm\<lparr>start_brk := 0x1000, end_brk := 0x2000, mm_pgd := Some pgd\<rparr>)\<rparr>"

lemma heap_vm:
  "vm_tree (heap_vm s pgd) 7 (Node Leaf 10 Leaf)" "mm_pgd (mms (heap_vm s pgd) 7) = Some pgd" "sl_mm (vm_sl (heap_vm s pgd)) = s"
  "vm_start (vmas (heap_vm s pgd) 10) = 0x1000" "vm_end (vmas (heap_vm s pgd) 10) = 0x2000" "start_brk (mms (heap_vm s pgd) 7) = 0x1000"
  by (simp_all add: heap_vm_def blank_vm_def boot_slab_def vm_tree_def area_list_def area_ok_def area_def blank_mm_def KERNEL_BASE_ADDR_def)

theorem page_fault_correct_witness:
  "\<exists>s L pgd s' n. pinv {pgd} nox (fa_heads UNIV) L s \<and> page_fault_handler 7 pgd 0x1234 2 (heap_vm s pgd) = Some (Handled, upd_pages s' (heap_vm s pgd)) \<and>
     mmu s' pgd 0x1234 = Some (n, True, True) \<and> pmem s' n = (\<lambda>_. 0) \<and>
     page_fault_handler 7 pgd 0x5000 2 (heap_vm s pgd) = Some (Killed, heap_vm s pgd)"
proof -
  obtain s L pgd where s: "pinv {pgd} nox (fa_heads UNIV) L s" "nfree s = 3" "\<forall>v\<in>slots. pte s pgd v = 0"
    using small_aspace [of 3] by force
  have low: "(0x1234::u32) < KERNEL_BASE_ADDR" "(0x5000::u32) < KERNEL_BASE_ADDR" by (simp_all add: KERNEL_BASE_ADDR_def)
  have none: "mmu s pgd va = None" if "va < KERNEL_BASE_ADDR" for va
    using mmu_slot [OF pinvD(4) [OF s(1)] singletonI that] s(3) that by (simp add: Let_def pte_present_def)
  note f = page_fault_correct [of "{pgd}" "fa_heads UNIV" L "heap_vm s pgd" pgd _ 7 "Node Leaf 10 Leaf", unfolded heap_vm(3), OF s(1) singletonI]
  have "page_fault_handler 7 pgd 0x5000 2 (heap_vm s pgd) = Some (Killed, heap_vm s pgd)"
    using f [OF low(2) _ heap_vm(1) _ heap_vm(2) none [OF low(2)]] by (simp add: heap_vm)
  moreover obtain s' n where "page_fault_handler 7 pgd 0x1234 2 (heap_vm s pgd) = Some (Handled, upd_pages s' (heap_vm s pgd))"
    "mmu s' pgd 0x1234 = Some (n, True, True)" "pmem s' n = (\<lambda>_. 0)"
    using f [OF low(1) _ heap_vm(1) _ heap_vm(2) none [OF low(1)], of 2] s(2) by (auto simp: heap_vm)
  ultimately show ?thesis using s(1) by blast
qed

section \<open>Checking a user buffer\<close>

lemma and_or_eq: "e AND (a OR b) = a OR b \<longleftrightarrow> e AND a = a \<and> e AND b = (b::u64)"
  by (auto simp: bit_eq_iff bit_simps)

lemma and_exp: "e AND 1 = (1::u64) \<longleftrightarrow> bit e 0" "e AND 2 = (2::u64) \<longleftrightarrow> bit e 1" "e AND 4 = (4::u64) \<longleftrightarrow> bit e 2"
proof -
  have "e AND 2 ^ n = 2 ^ n \<longleftrightarrow> bit e n" if "n < 64" for n
  proof
    assume "e AND 2 ^ n = 2 ^ n"
    then have "bit (e AND 2 ^ n) n = bit (2 ^ n :: u64) n" by simp
    then show "bit e n" using that by (simp add: bit_simps)
  next
    assume "bit e n"
    then show "e AND 2 ^ n = 2 ^ n" by (intro bit_word_eqI) (auto simp: bit_and_iff bit_exp_iff)
  qed
  from this [of 0] this [of 1] this [of 2] show "e AND 1 = (1::u64) \<longleftrightarrow> bit e 0" "e AND 2 = (2::u64) \<longleftrightarrow> bit e 1" "e AND 4 = (4::u64) \<longleftrightarrow> bit e 2"
    by simp_all
qed

text \<open>\<open>may s pgd w u b\<close>: byte \<open>b\<close> has a translation, writable if \<open>w\<close>, for the user if \<open>u\<close>.\<close>

definition may :: "mmst \<Rightarrow> nat \<Rightarrow> bool \<Rightarrow> bool \<Rightarrow> u32 \<Rightarrow> bool" where
  "may s pgd w u b \<longleftrightarrow> b < KERNEL_BASE_ADDR \<and>
     (case mmu s pgd b of None \<Rightarrow> False | Some (f, w', u') \<Rightarrow> (w \<longrightarrow> w') \<and> (u \<longrightarrow> u'))"

abbreviation perm_of :: "bool \<Rightarrow> bool \<Rightarrow> u32" where
  "perm_of w u \<equiv> (if w then PAGE_RW else 0) OR (if u then PAGE_USER else 0)"

lemma perm_test: "e AND ucast (perm_of w u OR PAGE_PRESENT) = ucast (perm_of w u OR PAGE_PRESENT) \<longleftrightarrow>
    pte_present e \<and> (w \<longrightarrow> pte_write e) \<and> (u \<longrightarrow> e AND ucast PAGE_USER \<noteq> 0)"
proof -
  have "ucast (perm_of w u OR PAGE_PRESENT) = ((if w then 2 else 0) OR (if u then 4 else 0)) OR (1::u64)"
    by (simp add: PAGE_RW_def PAGE_USER_def PAGE_PRESENT_def)
  then show ?thesis by (simp only: and_or_eq flag_bits) (auto simp: and_exp)
qed

lemma all_less_Suc: "(\<forall>j<Suc k. Q j) \<longleftrightarrow> Q 0 \<and> (\<forall>j<k. Q (Suc j))"
  by (auto simp: less_Suc_eq_0_disj)

lemma check_pages_spec:
  assumes i: "pinv P X H L s" and P: "pgd \<in> P" and b: "0 < unat b" "unat b + k * 4096 < 2 ^ 32" "lim = b + of_nat (k * 4096)"
  shows "\<exists>r. check_pages pgd b lim (perm_of w u OR PAGE_PRESENT) s = Some (r, s) \<and> r \<in> {0, - errno_val EFAULT} \<and>
    (r = 0 \<longleftrightarrow> (\<forall>j<k. may s pgd w u (b + of_nat (j * 4096))))"
  using b
proof (induction k arbitrary: b)
  case 0
  then show ?case by (subst check_pages.simps) simp
next
  case (Suc k)
  have nu: "unat (of_nat m :: u32) = m" if "m < 2 ^ 32" for m using that by (simp add: unat_of_nat)
  have ul: "unat lim = unat b + Suc k * 4096"
    unfolding Suc.prems(3) using Suc.prems(2) nu [of "Suc k * 4096"] by (subst unat_add_lem [THEN iffD1]) simp_all
  then have lt: "b < lim" by (simp add: word_less_nat_alt)
  have ub: "unat (b + PAGE_SIZE) = unat b + 4096" using Suc.prems(2) by (subst unat_add_lem [THEN iffD1]) (simp_all add: PAGE_SIZE_val)
  have b0: "b \<noteq> 0" using Suc.prems(1) by auto
  have all: "(\<forall>j<Suc k. may s pgd w u (b + of_nat (j * 4096))) \<longleftrightarrow> may s pgd w u b \<and> (\<forall>j<k. may s pgd w u (b + PAGE_SIZE + of_nat (j * 4096)))"
    unfolding all_less_Suc by (simp add: PAGE_SIZE_val algebra_simps)
  show ?case
  proof (cases "b < KERNEL_BASE_ADDR")
    case False
    then show ?thesis using lt unfolding all by (subst check_pages.simps) (auto simp: may_def)
  next
    case True
    note wf = page_walk_find [OF i P True b0] and ms = mmu_slot [OF pinvD(4) [OF i] P True]
    show ?thesis
    proof (cases "tab s pgd (vtab b)")
      case None
      then have "\<not> may s pgd w u b" using ms present_tab [of s pgd b] by (auto simp: may_def Let_def split: if_splits)
      then show ?thesis using lt True wf None unfolding all by (subst check_pages.simps) auto
    next
      case (Some t)
      have m: "may s pgd w u b \<longleftrightarrow> entry s (t, pte_index b) AND ucast (perm_of w u OR PAGE_PRESENT) = ucast (perm_of w u OR PAGE_PRESENT)"
        unfolding perm_test pte_at [OF Some] using True ms by (auto simp: may_def Let_def)
      obtain r where r: "check_pages pgd (b + PAGE_SIZE) lim (perm_of w u OR PAGE_PRESENT) s = Some (r, s)" "r \<in> {0, - errno_val EFAULT}"
        "r = 0 \<longleftrightarrow> (\<forall>j<k. may s pgd w u (b + PAGE_SIZE + of_nat (j * 4096)))"
        using Suc.IH [of "b + PAGE_SIZE"] ub Suc.prems by (auto simp: PAGE_SIZE_val algebra_simps)
      show ?thesis
      proof (cases "may s pgd w u b")
        case True
        then show ?thesis using lt \<open>b < KERNEL_BASE_ADDR\<close> wf Some r m unfolding all by (subst check_pages.simps) auto
      next
        case False
        then show ?thesis using lt \<open>b < KERNEL_BASE_ADDR\<close> wf Some m unfolding all by (subst check_pages.simps) auto
      qed
    qed
  qed
qed

lemma may_page:
  assumes i: "pinv P X H L s" and P: "pgd \<in> P" and e: "unat a div 4096 = unat b div 4096"
  shows "may s pgd w u a = may s pgd w u b"
proof -
  have kb: "x < KERNEL_BASE_ADDR \<longleftrightarrow> unat x div 4096 < 786432" for x :: u32
    by (simp add: word_less_nat_alt KERNEL_BASE_ADDR_def div_less_iff_less_mult)
  have "vslot a = vslot b" using vslot_eq [of a b] e by (simp add: PAGE_SHIFT_def)
  then have "mmu s pgd a = mmu s pgd b" if "a < KERNEL_BASE_ADDR"
    using mmu_slot [OF pinvD(4) [OF i] P that] mmu_slot [OF pinvD(4) [OF i] P, of b] that e by (simp add: kb)
  then show ?thesis using e by (auto simp: may_def kb)
qed

lemma page_cover:
  fixes a n :: nat
  assumes "0 < n"
  defines "k \<equiv> (a + n + 4095) div 4096 - a div 4096"
  shows "(\<forall>j<k. Q (a div 4096 + j)) \<longleftrightarrow> (\<forall>b. a \<le> b \<and> b < a + n \<longrightarrow> Q (b div 4096))"
proof
  assume q: "\<forall>j<k. Q (a div 4096 + j)"
  show "\<forall>b. a \<le> b \<and> b < a + n \<longrightarrow> Q (b div 4096)"
  proof (intro allI impI)
    fix b assume b: "a \<le> b \<and> b < a + n"
    have "a div 4096 \<le> b div 4096" using b by (simp add: div_le_mono)
    moreover have "(b + 4096) div 4096 \<le> (a + n + 4095) div 4096" using b by (intro div_le_mono) simp
    moreover have "(b + 4096) div 4096 = Suc (b div 4096)" by simp
    ultimately have "b div 4096 - a div 4096 < k" unfolding k_def by linarith
    then show "Q (b div 4096)" using q \<open>a div 4096 \<le> b div 4096\<close> by (metis le_add_diff_inverse)
  qed
next
  assume q: "\<forall>b. a \<le> b \<and> b < a + n \<longrightarrow> Q (b div 4096)"
  show "\<forall>j<k. Q (a div 4096 + j)"
  proof (intro allI impI)
    fix j assume j: "j < k"
    let ?b = "max a ((a div 4096 + j) * 4096)"
    have "a div 4096 + Suc j \<le> (a + n + 4095) div 4096" using j by (simp add: k_def)
    then have "(a div 4096 + Suc j) * 4096 \<le> a + n + 4095" by (simp only: less_eq_div_iff_mult_less_eq zero_less_numeral)
    then have "a \<le> ?b \<and> ?b < a + n" using assms(1) by simp
    moreover have "?b div 4096 = a div 4096 + j"
    proof (cases j)
      case 0
      then have "(a div 4096 + j) * 4096 \<le> a" by simp
      then show ?thesis using 0 by (simp add: max_def)
    next
      case (Suc i)
      have "a < (a div 4096 + j) * 4096" using Suc dividend_less_times_div [of 4096 a] by simp
      then show ?thesis by (simp add: max_def)
    qed
    ultimately show "Q (a div 4096 + j)" using q by metis
  qed
qed

text \<open>
  C32. \<^verbatim>\<open>user_mem_check\<close> decides exactly what it is for, on the buffers it can handle: at least
  one byte, starting above the first page of memory (in the first page the walk can run
  into the assertion of \<^verbatim>\<open>pte_offset\<close>) and ending at or below the start of the last page (beyond,
  the rounded end wraps to 0). For such a buffer it returns 0 or \<^verbatim>\<open>-EFAULT\<close>, and 0 exactly if
  every byte of the buffer is a user address with a translation that has the permissions
  asked for. It changes nothing.
\<close>

theorem user_mem_check_correct:
  assumes "pinv P X H L s" "pgd \<in> P" "4096 \<le> unat va" "0 < len" "unat va + unat len + 4095 < 2 ^ 32"
  shows "\<exists>r. user_mem_check pgd va len (perm_of w u) s = Some (r, s) \<and> r \<in> {0, - errno_val EFAULT} \<and>
    (r = 0 \<longleftrightarrow> (\<forall>b. va \<le> b \<and> unat b < unat va + unat len \<longrightarrow> may s pgd w u b))"
proof -
  let ?a = "unat va" let ?n = "unat len" let ?k = "(?a + ?n + 4095) div 4096 - ?a div 4096"
  let ?b = "ROUNDDOWN va PAGE_SIZE"
  have n: "0 < ?n" using assms(4) by (simp add: word_less_nat_alt)
  have sum: "unat (va + len) = ?a + ?n" using assms(5) by (subst unat_add_lem [THEN iffD1]) simp_all
  have ub: "unat ?b = ?a div 4096 * 4096" by (simp add: unat_ROUNDDOWN PAGE_SIZE_val minus_mod_eq_div_mult)
  have ut: "unat (ROUNDUP (va + len) PAGE_SIZE) = (?a + ?n + 4095) div 4096 * 4096"
    using assms(5) sum by (subst unat_ROUNDUP) (simp_all add: PAGE_SIZE_val)
  have le: "?a div 4096 \<le> (?a + ?n + 4095) div 4096" by (intro div_le_mono) simp
  have fin: "unat ?b + ?k * 4096 = (?a + ?n + 4095) div 4096 * 4096" unfolding ub using le by (simp add: diff_mult_distrib)
  have d: "(?a + ?n + 4095) div 4096 * 4096 \<le> ?a + ?n + 4095" by simp
  have lt: "unat ?b + ?k * 4096 < 2 ^ 32" using fin d assms(5) by linarith
  have nu: "unat (?b + of_nat m) = unat ?b + m" if "unat ?b + m < 2 ^ 32" for m
    using that by (subst unat_add_lem [THEN iffD1]) (simp_all add: unat_of_nat)
  have lim: "ROUNDUP (va + len) PAGE_SIZE = ?b + of_nat (?k * 4096)"
    by (rule word_eq_iff_unsigned [where ?'a = nat, THEN iffD2]) (simp only: nu [OF lt] ut fin)
  have "1 * 4096 \<le> ?a div 4096 * 4096" using assms(3) by (intro mult_le_mono1) (simp add: less_eq_div_iff_mult_less_eq)
  then have b0: "0 < unat ?b" by (simp only: ub)
  obtain r where r: "user_mem_check pgd va len (perm_of w u) s = Some (r, s)" "r \<in> {0, - errno_val EFAULT}"
    "r = 0 \<longleftrightarrow> (\<forall>j<?k. may s pgd w u (?b + of_nat (j * 4096)))"
    using check_pages_spec [OF assms(1,2) b0 lt lim, of w u] unfolding user_mem_check_def by blast
  have nu0: "unat (of_nat m :: u32) = m" if "m < 2 ^ 32" for m using that by (simp add: unat_of_nat)
  define Q where "Q = (\<lambda>i. may s pgd w u (of_nat (i * 4096)))"
  have pg: "may s pgd w u b = Q (unat b div 4096)" for b
  proof -
    have "unat b div 4096 * 4096 < 2 ^ 32" using unat_lt2p(1) [of b] by (meson div_times_less_eq_dividend le_less_trans)
    then have "unat (of_nat (unat b div 4096 * 4096) :: u32) = unat b div 4096 * 4096" by (rule nu0)
    then show ?thesis unfolding Q_def by (intro may_page [OF assms(1,2)]) simp
  qed
  have "may s pgd w u (?b + of_nat (j * 4096)) = Q (?a div 4096 + j)" if "j < ?k" for j
  proof -
    have "unat ?b + j * 4096 < 2 ^ 32" using lt that by (meson add_le_mono le_less_trans less_imp_le mult_le_mono1 order_refl)
    then show ?thesis unfolding pg using nu [of "j * 4096"] ub by simp
  qed
  then have "r = 0 \<longleftrightarrow> (\<forall>j<?k. Q (?a div 4096 + j))" using r(3) by auto
  also have "\<dots> \<longleftrightarrow> (\<forall>b. ?a \<le> b \<and> b < ?a + ?n \<longrightarrow> Q (b div 4096))" by (rule page_cover [OF n])
  also have "\<dots> \<longleftrightarrow> (\<forall>b. va \<le> b \<and> unat b < ?a + ?n \<longrightarrow> may s pgd w u b)"
  proof
    assume q: "\<forall>b. va \<le> b \<and> unat b < ?a + ?n \<longrightarrow> may s pgd w u b"
    show "\<forall>b. ?a \<le> b \<and> b < ?a + ?n \<longrightarrow> Q (b div 4096)"
    proof (intro allI impI)
      fix b assume b: "?a \<le> b \<and> b < ?a + ?n"
      then have "unat (of_nat b :: u32) = b" using assms(5) by (simp add: unat_of_nat)
      then show "Q (b div 4096)" using q [rule_format, of "of_nat b"] b pg [of "of_nat b"] by (simp add: word_le_nat_alt)
    qed
  qed (auto simp: pg word_le_nat_alt)
  finally show ?thesis using r(1,2) by blast
qed

theorem user_mem_check_correct_witness:
  "\<exists>s L pgd. pinv {pgd} nox (fa_heads UNIV) L s \<and> user_mem_check pgd 0x1800 0x1000 (perm_of True True) s = Some (- errno_val EFAULT, s)"
proof -
  obtain s L pgd where s: "pinv {pgd} nox (fa_heads UNIV) L s" "\<forall>v\<in>slots. pte s pgd v = 0"
    using small_aspace [of 3] by force
  have low: "(0x1800::u32) < KERNEL_BASE_ADDR" by (simp add: KERNEL_BASE_ADDR_def)
  have "mmu s pgd 0x1800 = None"
    using mmu_slot [OF pinvD(4) [OF s(1)] singletonI low] s(2) low by (simp add: Let_def pte_present_def)
  then have no: "\<not> may s pgd True True 0x1800" by (simp add: may_def)
  obtain r where r: "user_mem_check pgd 0x1800 0x1000 (perm_of True True) s = Some (r, s)" "r \<in> {0, - errno_val EFAULT}"
    "r = 0 \<longleftrightarrow> (\<forall>b. (0x1800::u32) \<le> b \<and> unat b < unat (0x1800::u32) + unat (0x1000::u32) \<longrightarrow> may s pgd True True b)"
    using user_mem_check_correct [OF s(1) singletonI, of "0x1800" "0x1000" True True] by auto
  have "r \<noteq> 0" using r(3) no by auto
  then show ?thesis using r(1,2) s(1) by auto
qed

text \<open>
  C33. The check is void for a buffer that ends exactly at the end of the address space:
  the end wraps to 0, no page is looked at, and the answer is 0. So a task can pass any
  range of the kernel, from any address to the top, as its own.
\<close>

theorem user_mem_check_wraps:
  "user_mem_check pgd va (- va) perm s = Some (0, s)"
  unfolding user_mem_check_def by (subst check_pages.simps) (simp add: ROUNDUP_def ROUNDDOWN_def PAGE_SIZE_val)

end
