(* ===== verification/Pidmap.thy ===== *)
theory Pidmap
  imports Kprelude
begin

text \<open>
  The process-id allocator \<^verbatim>\<open>kernel/pidmap.c\<close>: a bitmap of one page, addressed as 1024
  words of 32 bits, the number of free ids and the last id handed out. The lemmas state
  exactly when an id is handed out and which one, and that the free counter counts.
\<close>

section \<open>The bitmap\<close>

definition BITS_PER_PAGE :: nat where "BITS_PER_PAGE = 32768"

type_synonym pidpage = "nat \<Rightarrow> u32"

record pidst =
  nr_free :: u32
  pid_page :: pidpage
  last_pid :: int
  pidlock :: spinlock

definition pidmap_init :: pidst where
  "pidmap_init = \<lparr>nr_free = 0x8000, pid_page = (\<lambda>_. 0), last_pid = - 1, pidlock = 0\<rparr>"

definition pid_mask :: "nat \<Rightarrow> u32" where
  "pid_mask offset = push_bit (offset AND 31) 1"

definition test_and_set_bit :: "nat \<Rightarrow> pidpage \<Rightarrow> bool \<times> pidpage" where
  "test_and_set_bit offset pg =
     (let mask = pid_mask offset;
          w = drop_bit 5 offset;
          old = pg w
      in (old AND mask \<noteq> 0, pg(w := old OR mask)))"

definition clear_bit :: "nat \<Rightarrow> pidpage \<Rightarrow> pidpage" where
  "clear_bit offset pg =
     (let mask = pid_mask offset; w = drop_bit 5 offset; old = pg w in pg(w := old AND NOT mask))"

function find_next_zero_bit :: "pidpage \<Rightarrow> nat \<Rightarrow> nat \<Rightarrow> nat" where
  "find_next_zero_bit pg sz offset =
     (if offset < sz then
        if NOT (pg (drop_bit 5 offset)) AND pid_mask offset \<noteq> 0 then offset
        else find_next_zero_bit pg sz (Suc offset)
      else offset)"
  by pat_completeness auto
termination
  by (relation "measure (\<lambda>(pg, sz, offset). sz - offset)") auto

declare find_next_zero_bit.simps [simp del]

definition pid_offset :: "int \<Rightarrow> nat" where
  "pid_offset pid = nat (pid AND (int BITS_PER_PAGE - 1))"

definition alloc_pidmap :: "pidst \<Rightarrow> (int \<times> pidst) option" where
  "alloc_pidmap s =
     (let pid = last_pid s + 1;
          offset = pid_offset pid
      in do {
        lk \<leftarrow> spin_lock (pidlock s);
        let s1 = s\<lparr>pidlock := lk\<rparr>
        in if nr_free s1 = 0 then Some (- 1, s1\<lparr>pidlock := spin_unlock lk\<rparr>)
           else
             let off = find_next_zero_bit (pid_page s1) BITS_PER_PAGE offset in
             if BITS_PER_PAGE \<noteq> off then
               let (old, pg) = test_and_set_bit off (pid_page s1);
                   s2 = s1\<lparr>pid_page := pg\<rparr>
               in if \<not> old then
                    Some (int off, s2\<lparr>nr_free := nr_free s2 - 1, last_pid := int off, pidlock := spin_unlock lk\<rparr>)
                  else Some (- 1, s2\<lparr>pidlock := spin_unlock lk\<rparr>)
             else Some (- 1, s1\<lparr>pidlock := spin_unlock lk\<rparr>) })"

definition free_pidmap :: "int \<Rightarrow> pidst \<Rightarrow> pidst option" where
  "free_pidmap pid s =
     (let offset = pid_offset pid in do {
        lk \<leftarrow> spin_lock (pidlock s);
        let s1 = s\<lparr>pidlock := lk, nr_free := nr_free s + 1\<rparr>;
            s2 = s1\<lparr>pid_page := clear_bit offset (pid_page s1)\<rparr>
        in Some (s2\<lparr>pidlock := spin_unlock lk\<rparr>) })"

section \<open>The set of ids in use\<close>

definition pid_used :: "pidst \<Rightarrow> nat \<Rightarrow> bool" where
  "pid_used s p \<longleftrightarrow> bit (pid_page s (p div 32)) (p mod 32)"

definition used_pids :: "pidst \<Rightarrow> nat set" where
  "used_pids s = {p. p < BITS_PER_PAGE \<and> pid_used s p}"

definition pid_inv :: "pidst \<Rightarrow> bool" where
  "pid_inv s \<longleftrightarrow> pidlock s = 0 \<and> - 1 \<le> last_pid s \<and> last_pid s < int BITS_PER_PAGE \<and>
     nr_free s = of_nat (BITS_PER_PAGE - card (used_pids s))"

text \<open>The offset the next search starts from.\<close>

definition pid_start :: "pidst \<Rightarrow> nat" where
  "pid_start s = nat ((last_pid s + 1) mod int BITS_PER_PAGE)"

section \<open>Lemmas\<close>

lemma pid_word: "drop_bit 5 (p::nat) = p div 32" "(p::nat) AND 31 = p mod 32"
  using and_mask_mod [of p 5] by (simp_all add: drop_bit_eq_div)

lemma pid_offset_mod: "0 \<le> pid \<Longrightarrow> pid_offset pid = nat (pid mod int BITS_PER_PAGE)"
  using and_mask_mod_int [of pid 15] by (simp add: pid_offset_def BITS_PER_PAGE_def)

lemma pid_lt [simp]: "p mod 32 < LENGTH(32)" for p :: nat
  by simp

lemma zero_bit_iff: "NOT (pid_page s (drop_bit 5 p)) AND pid_mask p \<noteq> 0 \<longleftrightarrow> \<not> pid_used s p"
  using word_bit_test(2) [OF pid_lt] by (simp add: pid_used_def pid_mask_def pid_word)

lemma find_next_zero_bit_correct:
  assumes "offset \<le> sz"
  shows "find_next_zero_bit (pid_page s) sz offset =
     (if \<exists>p. offset \<le> p \<and> p < sz \<and> \<not> pid_used s p then LEAST p. offset \<le> p \<and> p < sz \<and> \<not> pid_used s p else sz)"
  using assms
proof (induction "pid_page s" sz offset rule: find_next_zero_bit.induct)
  case (1 sz offset)
  show ?case
  proof (cases "offset < sz \<and> pid_used s offset")
    case True
    then have eq: "(offset \<le> p \<and> p < sz \<and> \<not> pid_used s p) = (Suc offset \<le> p \<and> p < sz \<and> \<not> pid_used s p)" for p
      by (metis Suc_leD Suc_leI le_neq_implies_less)
    show ?thesis
      using 1 True by (subst find_next_zero_bit.simps) (simp only: zero_bit_iff eq, simp)
  next
    case False
    show ?thesis
    proof (cases "offset < sz")
      case True
      then have "(LEAST p. offset \<le> p \<and> p < sz \<and> \<not> pid_used s p) = offset"
        using False by (intro Least_equality) auto
      moreover have "\<not> pid_used s offset" using False True by simp
      ultimately show ?thesis
        using True by (subst find_next_zero_bit.simps) (simp only: zero_bit_iff, auto)
    next
      case False
      then show ?thesis using "1.prems" by (subst find_next_zero_bit.simps) auto
    qed
  qed
qed

lemma test_and_set_bit_used:
  assumes "test_and_set_bit p (pid_page s) = (old, pg)"
  shows "old \<longleftrightarrow> pid_used s p" and "pid_used (s\<lparr>pid_page := pg\<rparr>) q \<longleftrightarrow> pid_used s q \<or> q = p"
proof -
  have pq: "q = p \<longleftrightarrow> q div 32 = p div 32 \<and> q mod 32 = p mod 32" by (metis div_mult_mod_eq)
  show "old \<longleftrightarrow> pid_used s p"
    using assms word_bit_test(1) [OF pid_lt, of "pid_page s (p div 32)" p]
    by (auto simp: test_and_set_bit_def Let_def pid_used_def pid_mask_def pid_word)
  show "pid_used (s\<lparr>pid_page := pg\<rparr>) q \<longleftrightarrow> pid_used s q \<or> q = p"
    using assms word_bit_test(3) [OF pid_lt, of "pid_page s (p div 32)" p "q mod 32"] pq
    by (cases "q div 32 = p div 32") (auto simp: test_and_set_bit_def Let_def pid_used_def pid_mask_def pid_word)
qed

lemma clear_bit_used:
  "pid_used (s\<lparr>pid_page := clear_bit p (pid_page s)\<rparr>) q \<longleftrightarrow> pid_used s q \<and> q \<noteq> p"
proof -
  have pq: "q = p \<longleftrightarrow> q div 32 = p div 32 \<and> q mod 32 = p mod 32" by (metis div_mult_mod_eq)
  show ?thesis
    using word_bit_test(4) [OF pid_lt, of "pid_page s (p div 32)" p "q mod 32"] pq
    by (cases "q div 32 = p div 32") (auto simp: clear_bit_def Let_def pid_used_def pid_mask_def pid_word)
qed

lemma finite_used [simp]: "finite (used_pids s)"
  by (simp add: used_pids_def)

lemma card_used_le: "card (used_pids s) \<le> BITS_PER_PAGE"
  using card_mono [of "{..<BITS_PER_PAGE}" "used_pids s"] by (auto simp: used_pids_def)

lemma pid_used_cong: "pid_page s = pid_page t \<Longrightarrow> pid_used s = pid_used t"
  by (auto simp: pid_used_def fun_eq_iff)

lemma nr_free_unat: "pid_inv s \<Longrightarrow> unat (nr_free s) = BITS_PER_PAGE - card (used_pids s)"
  by (simp add: pid_inv_def unat_of_nat BITS_PER_PAGE_def)

lemma nr_free_zero: "pid_inv s \<Longrightarrow> nr_free s = 0 \<longleftrightarrow> used_pids s = {..<BITS_PER_PAGE}"
proof -
  assume i: "pid_inv s"
  have sub: "used_pids s \<subseteq> {..<BITS_PER_PAGE}" by (auto simp: used_pids_def)
  have "nr_free s = 0 \<longleftrightarrow> unat (nr_free s) = 0" by (simp add: unat_eq_0)
  also have "\<dots> \<longleftrightarrow> card (used_pids s) = card {..<BITS_PER_PAGE}"
    unfolding nr_free_unat [OF i] using card_used_le [of s] by auto
  also have "\<dots> \<longleftrightarrow> used_pids s = {..<BITS_PER_PAGE}"
    using card_subset_eq [OF finite_lessThan sub] by metis
  finally show ?thesis .
qed

lemma pid_start_lt: "pid_start s < BITS_PER_PAGE"
  by (simp add: pid_start_def BITS_PER_PAGE_def nat_less_iff)

text \<open>The three outcomes of \<^verbatim>\<open>alloc_pidmap\<close> as one equation.\<close>

lemma alloc_pidmap_eq:
  assumes i: "pid_inv s"
  shows "alloc_pidmap s =
     (if \<exists>p\<ge>pid_start s. p < BITS_PER_PAGE \<and> \<not> pid_used s p then
        let p = (LEAST p. pid_start s \<le> p \<and> p < BITS_PER_PAGE \<and> \<not> pid_used s p)
        in Some (int p, s\<lparr>nr_free := nr_free s - 1, last_pid := int p,
                          pid_page := snd (test_and_set_bit p (pid_page s))\<rparr>)
      else Some (- 1, s))"
proof -
  have lk: "pidlock s = 0" and off: "pid_offset (last_pid s + 1) = pid_start s"
    using i pid_offset_mod [of "last_pid s + 1"] by (auto simp: pid_inv_def pid_start_def)
  note f = find_next_zero_bit_correct [OF less_imp_le [OF pid_start_lt], of s]
  show ?thesis
  proof (cases "\<exists>p\<ge>pid_start s. p < BITS_PER_PAGE \<and> \<not> pid_used s p")
    case True
    let ?p = "LEAST p. pid_start s \<le> p \<and> p < BITS_PER_PAGE \<and> \<not> pid_used s p"
    have p: "pid_start s \<le> ?p" "?p < BITS_PER_PAGE" "\<not> pid_used s ?p"
      using LeastI_ex [of "\<lambda>p. pid_start s \<le> p \<and> p < BITS_PER_PAGE \<and> \<not> pid_used s p"] True by auto
    have nz: "nr_free s \<noteq> 0" using nr_free_zero [OF i] p by (auto simp: used_pids_def)
    obtain old pg where t: "test_and_set_bit ?p (pid_page s) = (old, pg)" by fastforce
    then have "\<not> old" using test_and_set_bit_used(1) p(3) by blast
    then show ?thesis
      using True nz lk off f p(2) t by (simp add: alloc_pidmap_def Let_def) 
  next
    case False
    then show ?thesis using lk off f by (auto simp: alloc_pidmap_def Let_def)
  qed
qed

lemma used_pids_set: 
  assumes "p < BITS_PER_PAGE" "\<not> pid_used s p" "pid_page t = snd (test_and_set_bit p (pid_page s))"
  shows "used_pids t = insert p (used_pids s)" "card (used_pids t) = Suc (card (used_pids s))"
proof -
  obtain old pg where t: "test_and_set_bit p (pid_page s) = (old, pg)" by fastforce
  have "pid_used t = pid_used (s\<lparr>pid_page := pg\<rparr>)" using assms(3) t by (intro pid_used_cong) simp
  then show u: "used_pids t = insert p (used_pids s)"
    using test_and_set_bit_used(2) [OF t] assms(1) by (auto simp: used_pids_def)
  show "card (used_pids t) = Suc (card (used_pids s))" unfolding u using assms(2) by (simp add: used_pids_def)
qed

lemma alloc_pidmap_inv:
  assumes i: "pid_inv s" and a: "alloc_pidmap s = Some (r, t)"
  shows "pid_inv t"
proof (cases "\<exists>p\<ge>pid_start s. p < BITS_PER_PAGE \<and> \<not> pid_used s p")
  case True
  let ?p = "LEAST p. pid_start s \<le> p \<and> p < BITS_PER_PAGE \<and> \<not> pid_used s p"
  have p: "?p < BITS_PER_PAGE" "\<not> pid_used s ?p"
    using LeastI_ex [of "\<lambda>p. pid_start s \<le> p \<and> p < BITS_PER_PAGE \<and> \<not> pid_used s p"] True by auto
  have t: "t = s\<lparr>nr_free := nr_free s - 1, last_pid := int ?p, pid_page := snd (test_and_set_bit ?p (pid_page s))\<rparr>"
    using a True unfolding alloc_pidmap_eq [OF i] Let_def by (auto simp only: if_True option.inject prod.inject)
  have c: "card (used_pids t) = Suc (card (used_pids s))" by (rule used_pids_set(2) [OF p]) (simp add: t)
  have "Suc (card (used_pids s)) \<le> BITS_PER_PAGE" using c card_used_le [of t] by simp
  then have "(of_nat (BITS_PER_PAGE - Suc (card (used_pids s))) :: u32) = of_nat (BITS_PER_PAGE - card (used_pids s)) - 1"
    by (simp add: of_nat_diff)
  then show ?thesis using i c p(1) by (simp add: pid_inv_def t)
next
  case False
  then have "t = s" using a unfolding alloc_pidmap_eq [OF i] by (simp only: if_False option.inject prod.inject)
  then show ?thesis using i by simp
qed

lemma free_pidmap_eq:
  assumes "pid_inv s" "p < BITS_PER_PAGE"
  shows "free_pidmap (int p) s = Some (s\<lparr>nr_free := nr_free s + 1, pid_page := clear_bit p (pid_page s)\<rparr>)"
  using assms pid_offset_mod [of "int p"] by (simp add: free_pidmap_def pid_inv_def)

lemma free_pidmap_inv:
  assumes i: "pid_inv s" and p: "p \<in> used_pids s"
  shows "\<exists>t. free_pidmap (int p) s = Some t \<and> pid_inv t \<and> used_pids t = used_pids s - {p}"
proof -
  have pl: "p < BITS_PER_PAGE" using p by (simp add: used_pids_def)
  let ?t = "s\<lparr>nr_free := nr_free s + 1, pid_page := clear_bit p (pid_page s)\<rparr>"
  have "pid_used ?t = pid_used (s\<lparr>pid_page := clear_bit p (pid_page s)\<rparr>)" by (intro pid_used_cong) simp
  then have u: "used_pids ?t = used_pids s - {p}" by (auto simp: used_pids_def clear_bit_used)
  have "0 < card (used_pids s)" using p by (auto simp: card_gt_0_iff)
  then have "BITS_PER_PAGE - card (used_pids ?t) = Suc (BITS_PER_PAGE - card (used_pids s))"
    using p card_used_le [of s] unfolding u by (simp add: Suc_diff_le)
  then have "pid_inv ?t" using i by (simp add: pid_inv_def)
  then show ?thesis using u free_pidmap_eq [OF i pl] by blast
qed

lemma pid_inv_init: "pid_inv pidmap_init" "used_pids pidmap_init = {}"
  by (auto simp: pid_inv_def pidmap_init_def used_pids_def pid_used_def BITS_PER_PAGE_def)

section \<open>Properties\<close>

text \<open>
  C5. \<^verbatim>\<open>alloc_pidmap\<close> always returns. It hands out the smallest id that is not in use among
  the ids from the one after \<^verbatim>\<open>last_pid\<close> up to the end of the bitmap; then exactly this id
  becomes used and the free counter still counts the unused ids. It answers -1 exactly
  when all those ids are in use, and then it changes nothing.
\<close>

theorem alloc_pidmap_exact:
  assumes "pid_inv s"
  shows "(\<exists>p t. alloc_pidmap s = Some (int p, t) \<and> pid_start s \<le> p \<and> p < BITS_PER_PAGE \<and> p \<notin> used_pids s \<and>
       (\<forall>q. pid_start s \<le> q \<and> q < p \<longrightarrow> q \<in> used_pids s) \<and>
       pid_inv t \<and> used_pids t = insert p (used_pids s) \<and> last_pid t = int p) \<or>
     alloc_pidmap s = Some (- 1, s) \<and> (\<forall>q. pid_start s \<le> q \<and> q < BITS_PER_PAGE \<longrightarrow> q \<in> used_pids s)"
proof (cases "\<exists>p\<ge>pid_start s. p < BITS_PER_PAGE \<and> \<not> pid_used s p")
  case True
  let ?P = "\<lambda>p. pid_start s \<le> p \<and> p < BITS_PER_PAGE \<and> \<not> pid_used s p"
  define p where "p = Least ?P"
  let ?t = "s\<lparr>nr_free := nr_free s - 1, last_pid := int p, pid_page := snd (test_and_set_bit p (pid_page s))\<rparr>"
  have p: "?P p" unfolding p_def by (rule LeastI_ex) (use True in blast)
  have least: "q \<in> used_pids s" if "pid_start s \<le> q" "q < p" for q
    using not_less_Least [of q ?P] that p by (auto simp: p_def used_pids_def)
  have a: "alloc_pidmap s = Some (int p, ?t)"
    using True unfolding alloc_pidmap_eq [OF assms] Let_def p_def by (simp only: if_True)
  have "used_pids ?t = insert p (used_pids s)" by (rule used_pids_set(1)) (use p in auto)
  then show ?thesis
    using a p least alloc_pidmap_inv [OF assms a]
    by (intro disjI1 exI [of _ p] exI [of _ ?t]) (auto simp: used_pids_def)
next
  case False
  then show ?thesis using alloc_pidmap_eq [OF assms] by (auto simp: used_pids_def)
qed

theorem alloc_pidmap_exact_witness:
  "pid_inv pidmap_init \<and> (\<exists>t. alloc_pidmap pidmap_init = Some (0, t) \<and> used_pids t = {0})"
proof -
  have st: "pid_start pidmap_init = 0" by (simp add: pid_start_def pidmap_init_def)
  from alloc_pidmap_exact [OF pid_inv_init(1)] show ?thesis
    unfolding pid_inv_init(2) st
  proof (elim disjE exE conjE)
    fix p t
    assume "alloc_pidmap pidmap_init = Some (int p, t)" "used_pids t = {p}" "\<forall>q. 0 \<le> q \<and> q < p \<longrightarrow> q \<in> {}"
    then show ?thesis using pid_inv_init(1) by (cases p) auto
  qed (auto simp: BITS_PER_PAGE_def dest: spec [of _ 0])
qed

text \<open>
  C6. The search does not wrap around: there are well-formed states in which an id is free
  and the free counter says so, and \<^verbatim>\<open>alloc_pidmap\<close> nevertheless answers -1, because every
  id after \<^verbatim>\<open>last_pid\<close> is in use. Here all ids but id 0 are.
\<close>

theorem alloc_pidmap_no_wrap:
  "\<exists>s. pid_inv s \<and> nr_free s = 1 \<and> 0 \<notin> used_pids s \<and> alloc_pidmap s = Some (- 1, s)"
proof -
  let ?s = "\<lparr>nr_free = 1, pid_page = (\<lambda>w. if w = 0 then - 2 else - 1), last_pid = 5, pidlock = 0\<rparr> :: pidst"
  have two: "bit (- 2 :: u32) n \<longleftrightarrow> n < 32 \<and> n \<noteq> 0" for n
    using bit_minus_2_iff [where 'a = u32, of n] by auto
  have u: "pid_used ?s p \<longleftrightarrow> p \<noteq> 0" for p
    using two [of "p mod 32"] by (cases "p div 32 = 0") (auto simp: pid_used_def)
  have us: "used_pids ?s = {1..<BITS_PER_PAGE}" by (auto simp: used_pids_def u)
  have i: "pid_inv ?s" by (simp add: pid_inv_def us BITS_PER_PAGE_def)
  have "pid_start ?s = 6" by (simp add: pid_start_def BITS_PER_PAGE_def)
  then have "alloc_pidmap ?s = Some (- 1, ?s)" using alloc_pidmap_eq [OF i] by (simp add: u)
  then show ?thesis using i us by (intro exI [of _ ?s]) simp
qed

text \<open>
  C7. Freeing an id in use releases exactly that id and keeps the free counter exact;
  allocating and freeing again leaves the set of used ids as it was.
\<close>

theorem free_pidmap_round_trip:
  assumes "pid_inv s" "alloc_pidmap s = Some (pid, t)" "pid \<noteq> - 1"
  shows "\<exists>u. free_pidmap pid t = Some u \<and> pid_inv u \<and> used_pids u = used_pids s"
proof -
  have i: "pid_inv t" by (rule alloc_pidmap_inv [OF assms(1,2)])
  let ?P = "\<lambda>p. pid_start s \<le> p \<and> p < BITS_PER_PAGE \<and> \<not> pid_used s p"
  have ex: "\<exists>p. ?P p" and a: "pid = int (Least ?P)"
    and t: "t = s\<lparr>nr_free := nr_free s - 1, last_pid := int (Least ?P),
                  pid_page := snd (test_and_set_bit (Least ?P) (pid_page s))\<rparr>"
    using assms(2,3) unfolding alloc_pidmap_eq [OF assms(1)] Let_def by (auto split: if_splits)
  have p: "?P (Least ?P)" by (rule LeastI_ex [OF ex])
  have u: "used_pids t = insert (Least ?P) (used_pids s)" by (rule used_pids_set(1)) (use p t in auto)
  then obtain v where "free_pidmap pid t = Some v" "pid_inv v" "used_pids v = used_pids t - {Least ?P}"
    using free_pidmap_inv [OF i] unfolding a by blast
  then show ?thesis using u p by (auto simp: used_pids_def)
qed

theorem free_pidmap_round_trip_witness:
  "\<exists>t u. alloc_pidmap pidmap_init = Some (0, t) \<and> free_pidmap 0 t = Some u \<and> used_pids u = {}"
proof -
  have "\<exists>t. alloc_pidmap pidmap_init = Some (0, t)"
  proof -
    have "(LEAST p. p < BITS_PER_PAGE \<and> \<not> pid_used pidmap_init p) = 0"
      by (rule Least_equality) (auto simp: BITS_PER_PAGE_def pid_used_def pidmap_init_def)
    moreover have "pid_start pidmap_init = 0" by (simp add: pid_start_def pidmap_init_def)
    moreover have "\<exists>p. p < BITS_PER_PAGE \<and> \<not> pid_used pidmap_init p"
      by (rule exI [of _ 0]) (auto simp: BITS_PER_PAGE_def pid_used_def pidmap_init_def)
    ultimately show ?thesis by (simp add: alloc_pidmap_eq [OF pid_inv_init(1)] Let_def)
  qed
  then obtain t where t: "alloc_pidmap pidmap_init = Some (0, t)" by blast
  show ?thesis using free_pidmap_round_trip [OF pid_inv_init(1) t] t unfolding pid_inv_init(2) by auto
qed

end
