(* ===== verification/Sched.thy ===== *)
theory Sched
  imports Klist Pidmap
begin

text \<open>
  Tasks and the scheduler: \<^verbatim>\<open>kernel/sched.c\<close>, the task table and \<^verbatim>\<open>pid2task\<close> of
  \<^verbatim>\<open>kernel/task.c\<close>, \<^verbatim>\<open>wait\<close> of \<^verbatim>\<open>kernel/syscall/wait.c\<close>, the task part of
  \<^verbatim>\<open>kernel/syscall/exit.c\<close> and the timer path of \<^verbatim>\<open>kernel/trap/trap.c\<close>, on one processor.
  A \<^verbatim>\<open>struct task_struct *\<close> is a number, \<open>None\<close> is \<^verbatim>\<open>NULL\<close>. \<^verbatim>\<open>task_run\<close> leaves the kernel,
  so a function that ends in \<^verbatim>\<open>schedule()\<close> yields the state in which the chosen task runs.
  The scheduler is shown to refine a round-robin queue of tasks with time slices.
\<close>

section \<open>Data\<close>

datatype task_status = TASK_RUNNING | TASK_INTERRUPTIBLE | TASK_UNINTERRUPTIBLE | TASK_DYING

record task_struct =
  t_pid :: int
  t_ppid :: int
  t_status :: task_status
  t_timeslice :: int
  t_flags :: u32
  t_pwait :: int

datatype rnode = RqHead nat | TaskNode nat

record schedst =
  s_lists :: "rnode lheap"
  s_task :: "nat \<Rightarrow> task_struct"
  s_pidmap :: "nat \<Rightarrow> nat option"
  s_cur :: "nat option"
  s_cpu :: nat
  s_pids :: pidst

definition NEED_RESCHED :: u32 where "NEED_RESCHED = 1"

definition PID_MAX_DEFAULT :: int where "PID_MAX_DEFAULT = 0x8000"

definition upd_task :: "nat \<Rightarrow> (task_struct \<Rightarrow> task_struct) \<Rightarrow> schedst \<Rightarrow> schedst" where
  "upd_task t f s = s\<lparr>s_task := (s_task s)(t := f (s_task s t))\<rparr>"

section \<open>\<^verbatim>\<open>sched.c\<close>\<close>

definition schedule_init :: "schedst \<Rightarrow> schedst" where
  "schedule_init s = s\<lparr>s_lists := INIT_LIST_HEAD (RqHead (s_cpu s)) (s_lists s)\<rparr>"

definition schedule_add_task :: "nat \<Rightarrow> schedst \<Rightarrow> schedst" where
  "schedule_add_task t s = s\<lparr>s_lists := list_add_tail (TaskNode t) (RqHead (s_cpu s)) (s_lists s)\<rparr>"

definition schedule_delete_task :: "nat \<Rightarrow> schedst \<Rightarrow> schedst" where
  "schedule_delete_task t s = s\<lparr>s_lists := list_del (TaskNode t) (s_lists s)\<rparr>"

definition schedule_tick :: "schedst \<Rightarrow> schedst option" where
  "schedule_tick s =
     (case s_cur s of
        None \<Rightarrow> None
      | Some c \<Rightarrow>
          let s1 = upd_task c (\<lambda>t. t\<lparr>t_timeslice := t_timeslice t - 1\<rparr>) s in
          if t_timeslice (s_task s1 c) \<le> 0 then
            let s2 = upd_task c (\<lambda>t. t\<lparr>t_flags := t_flags t OR NEED_RESCHED\<rparr>) s1;
                s3 = upd_task c (\<lambda>t. t\<lparr>t_timeslice := 3\<rparr>) s2
            in Some (schedule_add_task c (schedule_delete_task c s3))
          else Some s1)"

definition get_next :: "schedst \<Rightarrow> (nat \<times> schedst) option" where
  "get_next s =
     (let s1 = (case s_cur s of
                  None \<Rightarrow> s
                | Some c \<Rightarrow>
                    if t_flags (s_task s c) AND NEED_RESCHED \<noteq> 0
                    then upd_task c (\<lambda>t. t\<lparr>t_flags := t_flags t AND NOT NEED_RESCHED\<rparr>) s else s)
      in do {
        kassert (\<not> list_empty (RqHead (s_cpu s1)) (s_lists s1));
        case nxt (s_lists s1) (RqHead (s_cpu s1)) of TaskNode t \<Rightarrow> Some (t, s1) | _ \<Rightarrow> None })"

definition task_run :: "nat \<Rightarrow> schedst \<Rightarrow> schedst" where
  "task_run t s = s\<lparr>s_cur := Some t\<rparr>"

definition schedule :: "schedst \<Rightarrow> schedst option" where
  "schedule s =
     (let resume = (case s_cur s of
                      None \<Rightarrow> False
                    | Some c \<Rightarrow> t_status (s_task s c) = TASK_RUNNING \<and>
                               t_flags (s_task s c) AND NEED_RESCHED = 0)
      in if resume then Some (task_run (the (s_cur s)) s)
         else do { (t, s1) \<leftarrow> get_next s; Some (task_run t s1) })"

text \<open>The timer interrupt: \<^verbatim>\<open>trap\<close>, \<^verbatim>\<open>timer_handler\<close>, then \<^verbatim>\<open>schedule\<close>.\<close>

definition timer_trap :: "schedst \<Rightarrow> schedst option" where
  "timer_trap s = do { kassert (s_cur s \<noteq> None); s1 \<leftarrow> schedule_tick s; schedule s1 }"

fun timer_traps :: "nat \<Rightarrow> schedst \<Rightarrow> schedst option" where
  "timer_traps 0 s = Some s"
| "timer_traps (Suc n) s = do { s1 \<leftarrow> timer_trap s; timer_traps n s1 }"

section \<open>Task table, \<^verbatim>\<open>wait\<close> and \<^verbatim>\<open>exit\<close>\<close>

text \<open>The result of \<^verbatim>\<open>pid2task\<close>: its return value and what it stores through \<^verbatim>\<open>taskstore\<close>.\<close>

definition pid2task :: "int \<Rightarrow> bool \<Rightarrow> schedst \<Rightarrow> (int \<times> nat option option) option" where
  "pid2task pid checkperm s = do {
     kassert (0 \<le> pid);
     kassert (pid < PID_MAX_DEFAULT);
     if pid = 0 then Some (0, Some (s_cur s))
     else
       case s_pidmap s (nat pid) of
         None \<Rightarrow> Some (- errno_val EBADP, None)
       | Some t \<Rightarrow>
           if t_pid (s_task s t) \<noteq> pid then Some (- errno_val EBADP, None)
           else if \<not> checkperm \<or> s_cur s = Some t then Some (0, Some (Some t))
           else
             case s_cur s of
               None \<Rightarrow> None
             | Some c \<Rightarrow>
                 if t_ppid (s_task s t) \<noteq> t_pid (s_task s c) then Some (- errno_val EBADP, Some None)
                 else Some (0, Some (Some t)) }"

datatype outcome = Returns int | Switched

text \<open>The table has \<open>0x8000\<close> entries: the guard of \<^verbatim>\<open>wait\<close> lets index \<open>0x8000\<close> through.\<close>

definition wait :: "int \<Rightarrow> schedst \<Rightarrow> (outcome \<times> schedst) option" where
  "wait pid s =
     (if PID_MAX_DEFAULT < pid \<or> pid < 0 then Some (Returns (- errno_val EINVAL), s)
      else do {
        kassert (pid < PID_MAX_DEFAULT);
        case s_pidmap s (nat pid) of
          None \<Rightarrow> Some (Returns (- errno_val EBADP), s)
        | Some t \<Rightarrow>
            case s_cur s of
              None \<Rightarrow> None
            | Some c \<Rightarrow>
                if t_ppid (s_task s t) \<noteq> t_pid (s_task s c) then Some (Returns (- errno_val EBADP), s)
                else
                  let s1 = upd_task t (\<lambda>k. k\<lparr>t_pwait := 1\<rparr>) s;
                      s2 = upd_task c (\<lambda>k. k\<lparr>t_status := TASK_INTERRUPTIBLE\<rparr>) s1;
                      s3 = schedule_delete_task c s2
                  in do { s4 \<leftarrow> schedule s3; Some (Switched, s4) } })"

definition exit_notify :: "nat \<Rightarrow> schedst \<Rightarrow> schedst option" where
  "exit_notify t s =
     (if t_pwait (s_task s t) \<noteq> 0 then do {
        kassert (0 \<le> t_ppid (s_task s t) \<and> t_ppid (s_task s t) < PID_MAX_DEFAULT);
        p \<leftarrow> s_pidmap s (nat (t_ppid (s_task s t)));
        Some (schedule_add_task p (upd_task p (\<lambda>k. k\<lparr>t_status := TASK_RUNNING\<rparr>) s)) }
      else Some s)"

definition exit_task :: "nat \<Rightarrow> schedst \<Rightarrow> schedst option" where
  "exit_task t s =
     (if 0 \<le> t_pid (s_task s t) then do {
        kassert (t_pid (s_task s t) < PID_MAX_DEFAULT);
        ps \<leftarrow> free_pidmap (t_pid (s_task s t)) (s_pids s);
        Some (s\<lparr>s_pidmap := (s_pidmap s)(nat (t_pid (s_task s t)) := None), s_pids := ps\<rparr>) }
      else Some s)"

section \<open>The round-robin specification\<close>

text \<open>
  A queue of tasks with the ticks left to each; the first one runs. A tick takes one from
  it, and when none is left the task goes to the end with a new slice of three.
\<close>

fun rr_tick :: "(nat \<times> nat) list \<Rightarrow> (nat \<times> nat) list" where
  "rr_tick [] = []"
| "rr_tick ((t, n) # q) = (if n \<le> 1 then q @ [(t, 3)] else (t, n - 1) # q)"

definition task_ok :: "schedst \<Rightarrow> nat \<Rightarrow> bool" where
  "task_ok s t \<longleftrightarrow> t_status (s_task s t) = TASK_RUNNING \<and> t_flags (s_task s t) AND NEED_RESCHED = 0 \<and>
     1 \<le> t_timeslice (s_task s t) \<and> t_timeslice (s_task s t) \<le> 3"

definition runq :: "rnode set \<Rightarrow> (rnode \<Rightarrow> rnode list) \<Rightarrow> schedst \<Rightarrow> nat list \<Rightarrow> bool" where
  "runq H L s ts \<longleftrightarrow> family clist (s_lists s) H L \<and> RqHead (s_cpu s) \<in> H \<and> (\<forall>t. TaskNode t \<notin> H) \<and>
     L (RqHead (s_cpu s)) = map TaskNode ts"

definition sched_abs :: "schedst \<Rightarrow> nat list \<Rightarrow> (nat \<times> nat) list" where
  "sched_abs s ts = map (\<lambda>t. (t, nat (t_timeslice (s_task s t)))) ts"

definition sched_inv :: "rnode set \<Rightarrow> (rnode \<Rightarrow> rnode list) \<Rightarrow> schedst \<Rightarrow> nat list \<Rightarrow> bool" where
  "sched_inv H L s ts \<longleftrightarrow> runq H L s ts \<and> ts \<noteq> [] \<and> s_cur s = Some (hd ts) \<and> (\<forall>t\<in>set ts. task_ok s t)"

text \<open>Two tasks on the queue of processor 0; task 1 runs and has one tick left.\<close>

definition two_tasks :: schedst where
  "two_tasks = \<lparr>
     s_lists = \<lparr>nxt = (\<lambda>n. n)(RqHead 0 := TaskNode 1, TaskNode 1 := TaskNode 2, TaskNode 2 := RqHead 0),
                prv = (\<lambda>n. n)(RqHead 0 := TaskNode 2, TaskNode 1 := RqHead 0, TaskNode 2 := TaskNode 1)\<rparr>,
     s_task = (\<lambda>t. \<lparr>t_pid = int t, t_ppid = int t - 1, t_status = TASK_RUNNING,
                    t_timeslice = (if t = 1 then 1 else 3), t_flags = 0, t_pwait = 0\<rparr>),
     s_pidmap = (\<lambda>p. if p = 1 \<or> p = 2 then Some p else None), s_cur = Some 1, s_cpu = 0, s_pids = pidmap_init\<rparr>"

section \<open>Refinement\<close>

lemma runq_distinct: "runq H L s ts \<Longrightarrow> distinct ts"
  using kl.fam_distinct [of "s_lists s" H L "RqHead (s_cpu s)"] by (auto simp: runq_def distinct_map)

lemma runq_next:
  assumes "runq H L s (t # ts)"
  shows "\<not> list_empty (RqHead (s_cpu s)) (s_lists s)" "nxt (s_lists s) (RqHead (s_cpu s)) = TaskNode t"
  using assms kl.fam_emp [of "s_lists s" H L "RqHead (s_cpu s)"]
    kl.fam_first [of "s_lists s" H L "RqHead (s_cpu s)" "TaskNode t" "map TaskNode ts"]
  by (auto simp: runq_def)

lemma runq_upd_task [simp]: "runq H L (upd_task t f s) ts = runq H L s ts"
  by (simp add: runq_def upd_task_def)

lemma runq_requeue:
  assumes "runq H L s (t # ts)"
  shows "\<exists>L'. runq H L' (schedule_add_task t (schedule_delete_task t s)) (ts @ [t])"
proof -
  let ?p = "RqHead (s_cpu s)"
  have "family clist (list_add_tail (TaskNode t) ?p (list_del (TaskNode t) (s_lists s))) H
          (L(?p := remove1 (TaskNode t) (L ?p) @ [TaskNode t]))"
    using assms by (intro kl.fam_move_tail) (auto simp: runq_def)
  then show ?thesis
    using assms by (intro exI) (auto simp: runq_def schedule_add_task_def schedule_delete_task_def)
qed

lemma runq_delete:
  assumes "runq H L s ts" "t \<in> set ts"
  shows "\<exists>L'. runq H L' (schedule_delete_task t s) (remove1 t ts) \<and>
     (\<forall>q\<in>H. set (L' q) \<subseteq> set (L q) - {TaskNode t})"
proof -
  let ?p = "RqHead (s_cpu s)"
  let ?L = "L(?p := remove1 (TaskNode t) (L ?p))"
  have "family clist (list_del (TaskNode t) (s_lists s)) H (L(?p := remove1 (TaskNode t) (L ?p)))"
    using assms by (intro kl.fam_del) (auto simp: runq_def)
  moreover have "remove1 (TaskNode t) (map TaskNode ts) = map TaskNode (remove1 t ts)"
    by (induction ts) auto
  moreover have sub: "\<forall>q\<in>H. set (?L q) \<subseteq> set (L q) - {TaskNode t}"
  proof
    fix q assume q: "q \<in> H"
    have fam: "family clist (s_lists s) H L" and p: "?p \<in> H" "TaskNode t \<in> set (L ?p)"
      using assms by (auto simp: runq_def)
    show "set (?L q) \<subseteq> set (L q) - {TaskNode t}"
    proof (cases "q = ?p")
      case True
      then show ?thesis using kl.fam_distinct [OF fam p(1)] by simp
    next
      case False
      then have "TaskNode t \<notin> set (L q)" using kl.fam_unique [OF fam p(1) q p(2)] by auto
      then show ?thesis using False by simp
    qed
  qed
  ultimately have "runq H ?L (schedule_delete_task t s) (remove1 t ts)"
    using assms(1) by (simp add: runq_def schedule_delete_task_def)
  then show ?thesis using sub by blast
qed

lemma runq_add:
  assumes "runq H L s ts" "\<forall>q\<in>H. TaskNode t \<notin> set (L q)"
  shows "\<exists>L'. runq H L' (schedule_add_task t s) (ts @ [t])"
proof -
  let ?p = "RqHead (s_cpu s)"
  have "family clist (list_add_tail (TaskNode t) ?p (s_lists s)) H (L(?p := L ?p @ [TaskNode t]))"
    using assms by (intro kl.fam_add_tail) (auto simp: runq_def)
  then show ?thesis using assms by (auto simp: runq_def schedule_add_task_def)
qed

text \<open>One timer interrupt is one step of the round-robin queue.\<close>

lemma timer_trap_step:
  assumes i: "sched_inv H L s (t # ts)"
  shows "\<exists>s' L' ts'. timer_trap s = Some s' \<and> sched_inv H L' s' ts' \<and>
     sched_abs s' ts' = rr_tick (sched_abs s (t # ts))"
proof -
  have cur: "s_cur s = Some t" and rq: "runq H L s (t # ts)" and ok: "\<forall>u\<in>set (t # ts). task_ok s u"
    using i by (auto simp: sched_inv_def)
  have nt: "t \<notin> set ts" using runq_distinct [OF rq] by simp
  show ?thesis
  proof (cases "t_timeslice (s_task s t) \<le> 1")
    case False
    let ?s = "upd_task t (\<lambda>k. k\<lparr>t_timeslice := t_timeslice k - 1\<rparr>) s"
    have "timer_trap s = Some (task_run t ?s)"
      using False cur ok
      by (simp add: timer_trap_def schedule_tick_def schedule_def upd_task_def task_ok_def task_run_def)
    moreover have "sched_inv H L (task_run t ?s) (t # ts)"
      using False ok rq by (auto simp: sched_inv_def runq_def task_run_def upd_task_def task_ok_def)
    moreover have "sched_abs (task_run t ?s) (t # ts) = rr_tick (sched_abs s (t # ts))"
      using False nt by (auto simp: sched_abs_def task_run_def upd_task_def nat_diff_distrib')
    ultimately show ?thesis by blast
  next
    case True
    let ?f = "\<lambda>k. k\<lparr>t_flags := t_flags k OR NEED_RESCHED, t_timeslice := 3\<rparr>"
    let ?u = "schedule_add_task t (schedule_delete_task t (upd_task t ?f s))"
    let ?n = "hd (ts @ [t])"
    let ?v = "upd_task t (\<lambda>k. k\<lparr>t_flags := t_flags k AND NOT NEED_RESCHED\<rparr>) ?u"
    have tick: "schedule_tick s = Some ?u"
      using True cur by (simp add: schedule_tick_def upd_task_def)
    obtain L' where rq': "runq H L' ?u (ts @ [t])"
      using runq_requeue [of H L "upd_task t ?f s" t ts] rq by auto
    have fl: "(f OR NEED_RESCHED) AND NEED_RESCHED \<noteq> 0" for f
      by (simp add: NEED_RESCHED_def)
    have uu: "s_cur ?u = Some t" "s_cpu ?u = s_cpu s" "t_flags (s_task ?u t) AND NEED_RESCHED \<noteq> 0"
      using cur fl by (simp_all add: schedule_add_task_def schedule_delete_task_def upd_task_def)
    have "get_next ?u = Some (?n, ?v)"
    proof (cases ts)
      case Nil
      then show ?thesis using runq_next [of H L' ?v t "[]"] rq' uu by (simp add: get_next_def)
    next
      case (Cons a as)
      then show ?thesis using runq_next [of H L' ?v a "as @ [t]"] rq' uu by (simp add: get_next_def)
    qed
    then have "timer_trap s = Some (task_run ?n ?v)"
      using tick cur uu by (simp add: timer_trap_def schedule_def)
    moreover have "sched_inv H L' (task_run ?n ?v) (ts @ [t])"
    proof -
      have "runq H L' (task_run ?n ?v) (ts @ [t])" using rq' by (simp add: runq_def task_run_def upd_task_def)
      moreover have "((f OR NEED_RESCHED) AND NOT NEED_RESCHED) AND NEED_RESCHED = 0" for f
        by (simp add: and.assoc)
      ultimately show ?thesis using ok
        by (auto simp: sched_inv_def task_run_def upd_task_def task_ok_def schedule_add_task_def
            schedule_delete_task_def)
    qed
    moreover have "sched_abs (task_run ?n ?v) (ts @ [t]) = rr_tick (sched_abs s (t # ts))"
      using True nt ok
      by (auto simp: sched_abs_def task_run_def upd_task_def schedule_add_task_def schedule_delete_task_def)
    ultimately show ?thesis by blast
  qed
qed

lemma timer_traps_refine:
  "sched_inv H L s ts \<Longrightarrow> \<exists>s' L' ts'. timer_traps n s = Some s' \<and> sched_inv H L' s' ts' \<and>
     sched_abs s' ts' = (rr_tick ^^ n) (sched_abs s ts)"
proof (induction n arbitrary: s L ts)
  case (Suc n)
  obtain t us where ts: "ts = t # us" using Suc.prems by (cases ts) (auto simp: sched_inv_def)
  from timer_trap_step [OF Suc.prems [unfolded ts]] obtain s1 L1 ts1 where
    s1: "timer_trap s = Some s1" "sched_inv H L1 s1 ts1" "sched_abs s1 ts1 = rr_tick (sched_abs s ts)"
    unfolding ts by blast
  from Suc.IH [OF s1(2)] show ?case using s1 by (auto simp: funpow_swap1)
qed auto

lemma rr_turn: "1 \<le> n \<Longrightarrow> (rr_tick ^^ n) ((t, n) # q) = q @ [(t, 3)]"
proof (induction n)
  case (Suc n)
  then show ?case by (cases "n = 0") (auto simp: funpow_swap1)
qed simp

lemma rr_rotate:
  "\<forall>x\<in>set us. 1 \<le> snd x \<Longrightarrow>
   (rr_tick ^^ sum_list (map snd us)) (us @ vs) = vs @ map (\<lambda>x. (fst x, 3)) us"
proof (induction us arbitrary: vs)
  case (Cons u us)
  obtain t n where u: "u = (t, n)" by fastforce
  have "(rr_tick ^^ (sum_list (map snd us) + n)) ((t, n) # us @ vs) =
        (rr_tick ^^ sum_list (map snd us)) ((us @ vs) @ [(t, 3)])"
    using Cons.prems u rr_turn [of n t "us @ vs"] by (simp add: funpow_add)
  also have "\<dots> = vs @ [(t, 3)] @ map (\<lambda>x. (fst x, 3)) us"
    using Cons.IH [of "vs @ [(t, 3)]"] Cons.prems by simp
  finally show ?case using u by (simp add: add.commute)
qed simp

lemma runq_fresh:
  assumes "\<forall>q\<in>H. set (L' q) \<subseteq> set (L q) - {TaskNode t}"
  shows "\<forall>q\<in>H. TaskNode t \<notin> set (L' q)"
  using assms by blast

section \<open>Properties\<close>

text \<open>
  C8. The timer path implements round robin: on a well-formed run queue any number of timer
  interrupts never halts the machine, keeps the queue well formed with the running task
  at its head, and moves it exactly as that number of steps of the round-robin
  specification, time slices included.
\<close>

theorem timer_refines_round_robin:
  assumes "sched_inv H L s ts"
  shows "\<exists>s' L' ts'. timer_traps n s = Some s' \<and> sched_inv H L' s' ts' \<and>
     sched_abs s' ts' = (rr_tick ^^ n) (sched_abs s ts)"
  using timer_traps_refine [OF assms] .

lemma two_tasks_inv: "sched_inv {RqHead 0} (\<lambda>_. [TaskNode 1, TaskNode 2]) two_tasks [1, 2]"
  by (auto simp: sched_inv_def runq_def family_def clist_def task_ok_def two_tasks_def NEED_RESCHED_def)

theorem timer_refines_round_robin_witness:
  "\<exists>s' L' ts'. timer_traps 1 two_tasks = Some s' \<and> sched_inv {RqHead 0} L' s' ts' \<and>
     sched_abs s' ts' = [(2, 3), (1, 3)]"
proof -
  have "(rr_tick ^^ 1) (sched_abs two_tasks [1, 2]) = [(2, 3), (1, 3)]"
    by (simp add: sched_abs_def two_tasks_def)
  then show ?thesis using timer_refines_round_robin [OF two_tasks_inv, of 1] by metis
qed

text \<open>
  C9. No runnable task waits for ever: the task behind the tasks \<open>us\<close> in the queue runs after
  exactly as many timer interrupts as those tasks have ticks left, which is at most three
  for each of them.
\<close>

theorem runnable_task_runs:
  assumes i: "sched_inv H L s (us @ t # vs)"
    and n: "n = sum_list (map (\<lambda>u. nat (t_timeslice (s_task s u))) us)"
  shows "(\<exists>s'. timer_traps n s = Some s' \<and> s_cur s' = Some t) \<and> n \<le> 3 * length us"
proof
  have ok: "\<forall>u\<in>set us. 1 \<le> nat (t_timeslice (s_task s u)) \<and> nat (t_timeslice (s_task s u)) \<le> 3"
  proof
    fix u assume "u \<in> set us"
    then have "task_ok s u" using i by (simp add: sched_inv_def)
    then show "1 \<le> nat (t_timeslice (s_task s u)) \<and> nat (t_timeslice (s_task s u)) \<le> 3"
      by (auto simp: task_ok_def)
  qed
  obtain s' L' ts' where s': "timer_traps n s = Some s'" "sched_inv H L' s' ts'"
    "sched_abs s' ts' = (rr_tick ^^ n) (sched_abs s (us @ t # vs))"
    using timer_traps_refine [OF i] by blast
  have "sched_abs s' ts' = sched_abs s (t # vs) @ map (\<lambda>x. (fst x, 3)) (sched_abs s us)"
    using rr_rotate [of "sched_abs s us" "sched_abs s (t # vs)"] ok s'(3) unfolding n
    by (simp add: sched_abs_def comp_def)
  then have "map fst (sched_abs s' ts') = t # map fst (sched_abs s vs @ sched_abs s us)"
    by (simp add: sched_abs_def comp_def)
  then have "hd ts' = t" by (cases ts') (auto simp: sched_abs_def)
  then show "\<exists>s'. timer_traps n s = Some s' \<and> s_cur s' = Some t"
    using s'(1,2) by (auto simp: sched_inv_def)
  show "n \<le> 3 * length us" unfolding n using ok by (induction us) auto
qed

theorem runnable_task_runs_witness:
  "\<exists>s'. timer_traps 1 two_tasks = Some s' \<and> s_cur s' = Some 2"
  using runnable_task_runs [of "{RqHead 0}" "\<lambda>_. [TaskNode 1, TaskNode 2]" two_tasks "[1]" 2 "[]" 1] two_tasks_inv
  by (simp add: two_tasks_def)

text \<open>
  C10. The wait protocol: when the running task waits for a child that is on the run queue, it
  leaves the queue, becomes interruptible and the next task runs; when that child then
  exits, the waiting parent is runnable again and stands once at the end of the queue.
\<close>

theorem wait_then_exit_wakes:
  assumes i: "sched_inv H L s (c # ts)" and t: "t \<in> set ts" and pid: "0 \<le> pid" "pid < PID_MAX_DEFAULT"
    and pm: "s_pidmap s (nat pid) = Some t" "t_ppid (s_task s t) = t_pid (s_task s c)"
    and cp: "0 \<le> t_pid (s_task s c)" "t_pid (s_task s c) < PID_MAX_DEFAULT"
      "s_pidmap s (nat (t_pid (s_task s c))) = Some c"
  shows "\<exists>s1 L1. wait pid s = Some (Switched, s1) \<and> sched_inv H L1 s1 ts \<and>
     t_status (s_task s1 c) = TASK_INTERRUPTIBLE \<and>
     (\<exists>s2 L2. exit_notify t (schedule_delete_task t s1) = Some s2 \<and> runq H L2 s2 (remove1 t ts @ [c]) \<and>
        t_status (s_task s2 c) = TASK_RUNNING)"
proof -
  have cur: "s_cur s = Some c" and rq: "runq H L s (c # ts)" and ok: "\<forall>u\<in>set (c # ts). task_ok s u"
    using i by (auto simp: sched_inv_def)
  have nc: "c \<notin> set ts" using runq_distinct [OF rq] by simp
  then have tc: "t \<noteq> c" using t by auto
  let ?u = "upd_task c (\<lambda>k. k\<lparr>t_status := TASK_INTERRUPTIBLE\<rparr>) (upd_task t (\<lambda>k. k\<lparr>t_pwait := 1\<rparr>) s)"
  let ?d = "schedule_delete_task c ?u"
  obtain L1 where L1: "runq H L1 ?d ts" "\<forall>q\<in>H. set (L1 q) \<subseteq> set (L q) - {TaskNode c}"
    using runq_delete [of H L ?u "c # ts" c] rq by auto
  obtain n us where ts: "ts = n # us" using t by (cases ts) auto
  have ds: "s_cur ?d = Some c" "t_status (s_task ?d c) = TASK_INTERRUPTIBLE"
    "t_flags (s_task ?d c) AND NEED_RESCHED = 0"
    using cur ok tc by (auto simp: schedule_delete_task_def upd_task_def task_ok_def)
  have "get_next ?d = Some (n, ?d)"
    using runq_next [OF L1(1) [unfolded ts]] ds by (simp add: get_next_def)
  then have w: "wait pid s = Some (Switched, task_run n ?d)"
    using pid pm cur ds by (simp add: wait_def schedule_def Let_def)
  let ?s1 = "task_run n ?d"
  have rq1: "runq H L1 ?s1 ts" using L1(1) by (simp add: runq_def task_run_def)
  have i1: "sched_inv H L1 ?s1 ts" using rq1 ok nc
    by (auto simp: sched_inv_def ts task_run_def task_ok_def schedule_delete_task_def upd_task_def)
  obtain L2 where L2: "runq H L2 (schedule_delete_task t ?s1) (remove1 t ts)" "\<forall>q\<in>H. set (L2 q) \<subseteq> set (L1 q) - {TaskNode t}"
    using runq_delete [OF rq1 t] by blast
  let ?v = "upd_task c (\<lambda>k. k\<lparr>t_status := TASK_RUNNING\<rparr>) (schedule_delete_task t ?s1)"
  have "\<forall>q\<in>H. TaskNode c \<notin> set (L2 q)" using L2(2) L1(2) by blast
  then obtain L3 where "runq H L3 (schedule_add_task c ?v) (remove1 t ts @ [c])"
    using runq_add [of H L2 ?v "remove1 t ts" c] L2(1) by auto
  moreover have "exit_notify t (schedule_delete_task t ?s1) = Some (schedule_add_task c ?v)"
    using tc pm cp by (simp add: exit_notify_def task_run_def schedule_delete_task_def upd_task_def)
  moreover have "t_status (s_task (schedule_add_task c ?v) c) = TASK_RUNNING"
    by (simp add: schedule_add_task_def upd_task_def)
  moreover have "t_status (s_task ?s1 c) = TASK_INTERRUPTIBLE" using ds(2) by (simp add: task_run_def)
  ultimately show ?thesis using w i1 by blast
qed

theorem wait_then_exit_wakes_witness:
  "\<exists>s1 L1. wait 2 two_tasks = Some (Switched, s1) \<and> sched_inv {RqHead 0} L1 s1 [2] \<and>
     (\<exists>s2 L2. exit_notify 2 (schedule_delete_task 2 s1) = Some s2 \<and> runq {RqHead 0} L2 s2 [1])"
  using wait_then_exit_wakes [OF two_tasks_inv, of 2 2]
  by (auto simp: two_tasks_def PID_MAX_DEFAULT_def)

end
