(* ===== verification/Strings.thy ===== *)
theory Strings
  imports Kprelude
begin

text \<open>
  The string library \<^verbatim>\<open>lib/string.c\<close>, shared by the kernel and the user programs. Memory is
  a function from addresses to bytes, an address is a natural number below the end of the
  address space. Loops that run until a zero byte may not end; they are partial functions,
  and \<open>None\<close> is running for ever. \<open>cstr mem s xs\<close> says that a C string with the bytes \<open>xs\<close>
  starts at \<open>s\<close>. The block operations are modelled with the string instructions the code
  uses, four bytes at a time when the addresses are aligned, forwards or backwards.
\<close>

type_synonym mem = "nat \<Rightarrow> u8"

section \<open>String functions\<close>

partial_function (option) strlen :: "mem \<Rightarrow> nat \<Rightarrow> nat option" where
  "strlen mem s = (if mem s = 0 then Some 0 else do { n \<leftarrow> strlen mem (s + 1); Some (n + 1) })"

fun strnlen :: "mem \<Rightarrow> nat \<Rightarrow> nat \<Rightarrow> nat" where
  "strnlen mem s 0 = 0"
| "strnlen mem s (Suc sz) = (if mem s \<noteq> 0 then Suc (strnlen mem (s + 1) sz) else 0)"

partial_function (option) strcpy_loop :: "nat \<Rightarrow> nat \<Rightarrow> mem \<Rightarrow> mem option" where
  "strcpy_loop dst src mem =
     (let c = mem src; mem1 = mem(dst := c)
      in if c \<noteq> 0 then strcpy_loop (dst + 1) (src + 1) mem1 else Some mem1)"

definition strcpy :: "nat \<Rightarrow> nat \<Rightarrow> mem \<Rightarrow> (nat \<times> mem) option" where
  "strcpy dst src mem = map_option (Pair dst) (strcpy_loop dst src mem)"

definition strcat :: "nat \<Rightarrow> nat \<Rightarrow> mem \<Rightarrow> (nat \<times> mem) option" where
  "strcat dst src mem = do {
     len \<leftarrow> strlen mem dst;
     (r, mem1) \<leftarrow> strcpy (dst + len) src mem;
     Some (dst, mem1) }"

fun strncpy_loop :: "nat \<Rightarrow> nat \<Rightarrow> nat \<Rightarrow> mem \<Rightarrow> mem" where
  "strncpy_loop dst src 0 mem = mem"
| "strncpy_loop dst src (Suc n) mem =
     (let mem1 = mem(dst := mem src)
      in strncpy_loop (dst + 1) (if mem1 src \<noteq> 0 then src + 1 else src) n mem1)"

definition strncpy :: "nat \<Rightarrow> nat \<Rightarrow> nat \<Rightarrow> mem \<Rightarrow> nat \<times> mem" where
  "strncpy dst src sz mem = (dst, strncpy_loop dst src sz mem)"

fun strlcpy_loop :: "nat \<Rightarrow> nat \<Rightarrow> nat \<Rightarrow> mem \<Rightarrow> nat \<times> mem" where
  "strlcpy_loop dst src 0 mem = (dst, mem)"
| "strlcpy_loop dst src (Suc n) mem =
     (if mem src \<noteq> 0 then strlcpy_loop (dst + 1) (src + 1) n (mem(dst := mem src)) else (dst, mem))"

definition strlcpy :: "nat \<Rightarrow> nat \<Rightarrow> nat \<Rightarrow> mem \<Rightarrow> nat \<times> mem" where
  "strlcpy dst src sz mem =
     (if 0 < sz then let (d, mem1) = strlcpy_loop dst src (sz - 1) mem in (d - dst, mem1(d := 0))
      else (0, mem))"

partial_function (option) strcmp :: "mem \<Rightarrow> nat \<Rightarrow> nat \<Rightarrow> int option" where
  "strcmp mem p q =
     (if mem p \<noteq> 0 \<and> mem p = mem q then strcmp mem (p + 1) (q + 1)
      else Some (uint (mem p) - uint (mem q)))"

fun strncmp :: "mem \<Rightarrow> nat \<Rightarrow> nat \<Rightarrow> nat \<Rightarrow> int" where
  "strncmp mem p q 0 = 0"
| "strncmp mem p q (Suc n) =
     (if mem p \<noteq> 0 \<and> mem p = mem q then strncmp mem (p + 1) (q + 1) n
      else uint (mem p) - uint (mem q))"

partial_function (option) strchr :: "mem \<Rightarrow> nat \<Rightarrow> u8 \<Rightarrow> nat option option" where
  "strchr mem s c =
     (if mem s \<noteq> 0 then if mem s = c then Some (Some s) else strchr mem (s + 1) c else Some None)"

partial_function (option) strfind :: "mem \<Rightarrow> nat \<Rightarrow> u8 \<Rightarrow> nat option" where
  "strfind mem s c =
     (if mem s \<noteq> 0 then if mem s = c then Some s else strfind mem (s + 1) c else Some s)"

section \<open>Block operations\<close>

text \<open>\<^verbatim>\<open>rep stosb\<close>, \<^verbatim>\<open>rep stosl\<close>, \<^verbatim>\<open>rep movsb\<close> and \<^verbatim>\<open>rep movsl\<close>, with the direction flag.\<close>

fun stosb :: "nat \<Rightarrow> nat \<Rightarrow> u8 \<Rightarrow> mem \<Rightarrow> mem" where
  "stosb d 0 c mem = mem"
| "stosb d (Suc n) c mem = stosb (d + 1) n c (mem(d := c))"

fun stosl :: "nat \<Rightarrow> nat \<Rightarrow> u32 \<Rightarrow> mem \<Rightarrow> mem" where
  "stosl d 0 c mem = mem"
| "stosl d (Suc n) c mem =
     stosl (d + 4) n c (mem(d := ucast c, d + 1 := ucast (drop_bit 8 c),
                            d + 2 := ucast (drop_bit 16 c), d + 3 := ucast (drop_bit 24 c)))"

definition memset :: "nat \<Rightarrow> u32 \<Rightarrow> nat \<Rightarrow> mem \<Rightarrow> nat \<times> mem" where
  "memset v c n mem =
     (if n = 0 then (v, mem)
      else if v mod 4 = 0 \<and> n mod 4 = 0 then
        let c1 = c AND 0xFF;
            c2 = push_bit 24 c1 OR push_bit 16 c1 OR push_bit 8 c1 OR c1
        in (v, stosl v (n div 4) c2 mem)
      else (v, stosb v n (ucast c) mem))"

fun movsb_up :: "nat \<Rightarrow> nat \<Rightarrow> nat \<Rightarrow> mem \<Rightarrow> mem" where
  "movsb_up d s 0 mem = mem"
| "movsb_up d s (Suc n) mem = movsb_up (d + 1) (s + 1) n (mem(d := mem s))"

fun movsb_down :: "nat \<Rightarrow> nat \<Rightarrow> nat \<Rightarrow> mem \<Rightarrow> mem" where
  "movsb_down d s 0 mem = mem"
| "movsb_down d s (Suc n) mem = movsb_down (d - 1) (s - 1) n (mem(d := mem s))"

definition move4 :: "nat \<Rightarrow> nat \<Rightarrow> mem \<Rightarrow> mem" where
  "move4 d s mem = mem(d := mem s, d + 1 := mem (s + 1), d + 2 := mem (s + 2), d + 3 := mem (s + 3))"

fun movsl_up :: "nat \<Rightarrow> nat \<Rightarrow> nat \<Rightarrow> mem \<Rightarrow> mem" where
  "movsl_up d s 0 mem = mem"
| "movsl_up d s (Suc n) mem = movsl_up (d + 4) (s + 4) n (move4 d s mem)"

fun movsl_down :: "nat \<Rightarrow> nat \<Rightarrow> nat \<Rightarrow> mem \<Rightarrow> mem" where
  "movsl_down d s 0 mem = mem"
| "movsl_down d s (Suc n) mem = movsl_down (d - 4) (s - 4) n (move4 d s mem)"

definition memmove :: "nat \<Rightarrow> nat \<Rightarrow> nat \<Rightarrow> mem \<Rightarrow> nat \<times> mem" where
  "memmove dst src n mem =
     (dst,
      if src < dst \<and> dst < src + n then
        let s = src + n; d = dst + n in
        if s mod 4 = 0 \<and> d mod 4 = 0 \<and> n mod 4 = 0 then movsl_down (d - 4) (s - 4) (n div 4) mem
        else movsb_down (d - 1) (s - 1) n mem
      else if src mod 4 = 0 \<and> dst mod 4 = 0 \<and> n mod 4 = 0 then movsl_up dst src (n div 4) mem
      else movsb_up dst src n mem)"

definition memcpy :: "nat \<Rightarrow> nat \<Rightarrow> nat \<Rightarrow> mem \<Rightarrow> nat \<times> mem" where
  "memcpy dst src n mem = memmove dst src n mem"

fun memcmp :: "mem \<Rightarrow> nat \<Rightarrow> nat \<Rightarrow> nat \<Rightarrow> int" where
  "memcmp mem v1 v2 0 = 0"
| "memcmp mem v1 v2 (Suc n) =
     (if mem v1 \<noteq> mem v2 then uint (mem v1) - uint (mem v2) else memcmp mem (v1 + 1) (v2 + 1) n)"

fun memfind :: "mem \<Rightarrow> nat \<Rightarrow> u8 \<Rightarrow> nat \<Rightarrow> nat" where
  "memfind mem s c 0 = s"
| "memfind mem s c (Suc n) = (if mem s = c then s else memfind mem (s + 1) c n)"

section \<open>Number parsing\<close>

text \<open>\<^verbatim>\<open>strtol\<close>: white space, sign, base prefix, digits; the value wraps at 32 bits.\<close>

partial_function (option) skip_blank :: "mem \<Rightarrow> nat \<Rightarrow> nat option" where
  "skip_blank mem s = (if mem s = 32 \<or> mem s = 9 then skip_blank mem (s + 1) else Some s)"

definition strtol_dig :: "u8 \<Rightarrow> int option" where
  "strtol_dig c =
     (if 48 \<le> c \<and> c \<le> 57 then Some (uint c - 48)
      else if 97 \<le> c \<and> c \<le> 122 then Some (uint c - 97 + 10)
      else if 65 \<le> c \<and> c \<le> 90 then Some (uint c - 65 + 10)
      else None)"

partial_function (option) strtol_digits :: "mem \<Rightarrow> int \<Rightarrow> nat \<Rightarrow> u32 \<Rightarrow> (u32 \<times> nat) option" where
  "strtol_digits mem base s val =
     (case strtol_dig (mem s) of
        None \<Rightarrow> Some (val, s)
      | Some dig \<Rightarrow>
          if base \<le> dig then Some (val, s)
          else strtol_digits mem base (s + 1) (val * of_int base + of_int dig))"

definition strtol :: "mem \<Rightarrow> nat \<Rightarrow> int \<Rightarrow> (int \<times> nat) option" where
  "strtol mem s base = do {
     s1 \<leftarrow> skip_blank mem s;
     let (s2, neg) = (if mem s1 = 43 then (s1 + 1, False) else if mem s1 = 45 then (s1 + 1, True) else (s1, False));
         (s3, base1) = (if (base = 0 \<or> base = 16) \<and> mem s2 = 48 \<and> mem (s2 + 1) = 120 then (s2 + 2, 16)
                        else if base = 0 \<and> mem s2 = 48 then (s2 + 1, 8)
                        else if base = 0 then (s2, 10) else (s2, base))
     in do {
       (val, e) \<leftarrow> strtol_digits mem base1 s3 0;
       Some (sint (if neg then - val else val), e) } }"

section \<open>Strings in memory\<close>

fun cstr :: "mem \<Rightarrow> nat \<Rightarrow> u8 list \<Rightarrow> bool" where
  "cstr mem s [] \<longleftrightarrow> mem s = 0"
| "cstr mem s (x # xs) \<longleftrightarrow> mem s = x \<and> x \<noteq> 0 \<and> cstr mem (s + 1) xs"

text \<open>The bytes \<open>[s, s + n)\<close> of \<open>mem\<close>.\<close>

definition bytes :: "mem \<Rightarrow> nat \<Rightarrow> nat \<Rightarrow> u8 list" where
  "bytes mem s n = map (\<lambda>i. mem (s + i)) [0..<n]"

text \<open>The copy every block move is meant to perform.\<close>

definition block_copy :: "nat \<Rightarrow> nat \<Rightarrow> nat \<Rightarrow> mem \<Rightarrow> mem" where
  "block_copy d s n mem = (\<lambda>a. if d \<le> a \<and> a < d + n then mem (s + (a - d)) else mem a)"

section \<open>Lemmas\<close>

lemma cstr_nth: "cstr mem s xs \<longleftrightarrow> (\<forall>i<length xs. mem (s + i) = xs ! i \<and> xs ! i \<noteq> 0) \<and> mem (s + length xs) = 0"
proof (induction xs arbitrary: s)
  case (Cons x xs)
  show ?case unfolding cstr.simps Cons.IH by (auto simp: less_Suc_eq_0_disj)
qed simp

lemma cstr_cong:
  assumes "cstr mem s xs" "\<forall>a. s \<le> a \<and> a \<le> s + length xs \<longrightarrow> mem' a = mem a"
  shows "cstr mem' s xs"
  using assms by (auto simp: cstr_nth)

lemma cstr_unique: "cstr mem s xs \<Longrightarrow> cstr mem s ys \<Longrightarrow> xs = ys"
proof (induction xs arbitrary: s ys)
  case Nil
  then show ?case by (cases ys) auto
next
  case (Cons x xs)
  then show ?case by (cases ys) auto
qed

lemma strlen_cstr: "cstr mem s xs \<Longrightarrow> strlen mem s = Some (length xs)"
proof (induction xs arbitrary: s)
  case Nil
  then show ?case by (subst strlen.simps) simp
next
  case (Cons x xs)
  then show ?case by (subst strlen.simps) simp
qed

lemma strnlen_cstr: "cstr mem s xs \<Longrightarrow> strnlen mem s n = min n (length xs)"
proof (induction n arbitrary: s xs)
  case (Suc n)
  then show ?case by (cases xs) auto
qed simp

lemma strcpy_loop_cstr:
  assumes "cstr mem s xs" "d + length xs < s \<or> s + length xs < d"
  shows "\<exists>mem'. strcpy_loop d s mem = Some mem' \<and> cstr mem' d xs \<and>
     (\<forall>a. a < d \<or> d + length xs < a \<longrightarrow> mem' a = mem a)"
  using assms
proof (induction xs arbitrary: s d mem)
  case Nil
  then show ?case by (subst strcpy_loop.simps) auto
next
  case (Cons x xs)
  let ?m = "mem(d := x)"
  have c: "cstr ?m (s + 1) xs" by (rule cstr_cong [of mem]) (use Cons.prems in auto)
  have "d + 1 + length xs < s + 1 \<or> s + 1 + length xs < d + 1" using Cons.prems by auto
  from Cons.IH [OF c this] obtain mem' where m: "strcpy_loop (d + 1) (s + 1) ?m = Some mem'"
    "cstr mem' (d + 1) xs" "\<forall>a. a < d + 1 \<or> d + 1 + length xs < a \<longrightarrow> mem' a = ?m a" by blast
  then show ?case using Cons.prems by (subst strcpy_loop.simps) auto
qed

lemma bytes_Suc: "bytes mem s (Suc n) = mem s # bytes mem (s + 1) n"
  by (simp only: bytes_def map_upt_Suc) simp

lemma strlcpy_loop_cstr:
  assumes "cstr mem s xs" "d + n < s \<or> s + length xs < d"
  shows "\<exists>mem'. strlcpy_loop d s n mem = (d + min n (length xs), mem') \<and>
     bytes mem' d (min n (length xs)) = take n xs \<and>
     (\<forall>a. a < d \<or> d + min n (length xs) \<le> a \<longrightarrow> mem' a = mem a)"
  using assms
proof (induction n arbitrary: s d mem xs)
  case 0
  then show ?case by (simp add: bytes_def)
next
  case (Suc n)
  show ?case
  proof (cases xs)
    case Nil
    then show ?thesis using Suc.prems by (simp add: bytes_def)
  next
    case (Cons x ys)
    let ?m = "mem(d := x)"
    have c: "cstr ?m (s + 1) ys" by (rule cstr_cong [of mem]) (use Suc.prems Cons in auto)
    have "d + 1 + n < s + 1 \<or> s + 1 + length ys < d + 1" using Suc.prems Cons by auto
    from Suc.IH [OF c this] obtain mem' where
      m: "strlcpy_loop (d + 1) (s + 1) n ?m = (d + 1 + min n (length ys), mem')"
      "bytes mem' (d + 1) (min n (length ys)) = take n ys"
      "\<forall>a. a < d + 1 \<or> d + 1 + min n (length ys) \<le> a \<longrightarrow> mem' a = ?m a" by blast
    then show ?thesis using m Suc.prems Cons by (auto simp: bytes_Suc)
  qed
qed

subsection \<open>Block moves\<close>

lemma stosb_eq: "stosb d n c mem = (\<lambda>a. if d \<le> a \<and> a < d + n then c else mem a)"
  by (induction n arbitrary: d mem) (auto simp: fun_eq_iff)

lemma low_byte: "(c::u32) AND 0xFF = ucast (ucast c :: u8)"
proof -
  have m: "mask 8 = (0xFF::u32)" by (simp add: mask_eq_exp_minus_1)
  have "c AND mask 8 = ucast (ucast c :: u8)" by (rule bit_word_eqI) (auto simp: bit_simps)
  then show ?thesis by (simp only: m)
qed

lemma replicate_byte:
  fixes b :: u8
  defines "w \<equiv> push_bit 24 (ucast b) OR push_bit 16 (ucast b) OR push_bit 8 (ucast b) OR (ucast b :: u32)"
  shows "ucast w = b" "ucast (drop_bit 8 w) = b" "ucast (drop_bit 16 w) = b" "ucast (drop_bit 24 w) = b"
  unfolding w_def by (rule bit_word_eqI, auto simp: bit_simps dest: bit_imp_le_length)+

lemma stosl_eq:
  assumes "ucast w = b" "ucast (drop_bit 8 w) = b" "ucast (drop_bit 16 w) = b" "ucast (drop_bit 24 w) = b"
  shows "stosl d n w mem = (\<lambda>a. if d \<le> a \<and> a < d + 4 * n then b else mem a)"
proof (induction n arbitrary: d mem)
  case (Suc n)
  have "a = d \<or> a = d + 1 \<or> a = d + 2 \<or> a = d + 3" if "d \<le> a" "a < d + 4" for a using that by arith
  then show ?case unfolding stosl.simps Suc assms by (auto simp: fun_eq_iff)
qed (auto simp: fun_eq_iff)

lemma memset_eq: "memset v c n mem = (v, \<lambda>a. if v \<le> a \<and> a < v + n then ucast c else mem a)"
proof (cases "v mod 4 = 0 \<and> n mod 4 = 0 \<and> n \<noteq> 0")
  case True
  then have "4 * (n div 4) = n" by auto
  then show ?thesis
    using True stosl_eq [OF replicate_byte [of "ucast c"], of v "n div 4" mem]
    by (simp add: memset_def Let_def low_byte)
next
  case False
  then show ?thesis by (auto simp: memset_def stosb_eq fun_eq_iff)
qed

text \<open>Copying two adjacent pieces one after the other, in either order.\<close>

lemma block_copy_up:
  assumes "\<forall>i<n. \<not> (d \<le> s + m + i \<and> s + m + i < d + m)"
  shows "block_copy (d + m) (s + m) n (block_copy d s m mem) = block_copy d s (m + n) mem"
proof
  fix a
  show "block_copy (d + m) (s + m) n (block_copy d s m mem) a = block_copy d s (m + n) mem a"
  proof (cases "d + m \<le> a \<and> a < d + m + n")
    case True
    then have "s + m + (a - (d + m)) = s + (a - d)" "a - (d + m) < n" by auto
    then show ?thesis using True assms [rule_format, of "a - (d + m)"] by (auto simp: block_copy_def)
  next
    case False
    then show ?thesis by (auto simp: block_copy_def)
  qed
qed

lemma block_copy_down:
  assumes "s \<le> d"
  shows "block_copy d s m (block_copy (d + m) (s + m) n mem) = block_copy d s (m + n) mem"
proof
  fix a
  show "block_copy d s m (block_copy (d + m) (s + m) n mem) a = block_copy d s (m + n) mem a"
    using assms by (auto simp: block_copy_def add.assoc)
qed

lemma block_copy_0 [simp]: "block_copy d s 0 mem = mem"
  by (auto simp: block_copy_def fun_eq_iff)

lemma block_copy_1: "mem(d := mem s) = block_copy d s 1 mem"
  by (auto simp: block_copy_def)

lemma move4_eq: "move4 d s mem = block_copy d s 4 mem"
proof
  fix a
  have "a = d \<or> a = d + 1 \<or> a = d + 2 \<or> a = d + 3" if "d \<le> a" "a < d + 4" using that by arith
  then show "move4 d s mem a = block_copy d s 4 mem a" by (auto simp: move4_def block_copy_def)
qed

lemma movsb_up_eq: "\<not> (s < d \<and> d < s + n) \<Longrightarrow> movsb_up d s n mem = block_copy d s n mem"
proof (induction n arbitrary: d s mem)
  case (Suc n)
  have "movsb_up (d + 1) (s + 1) n (block_copy d s 1 mem) = block_copy (d + 1) (s + 1) n (block_copy d s 1 mem)"
    using Suc.prems by (intro Suc.IH) auto
  also have "\<dots> = block_copy d s (1 + n) mem" using Suc.prems by (intro block_copy_up) auto
  finally show ?case by (simp add: block_copy_1)
qed simp

lemma movsl_up_eq: "\<not> (s < d \<and> d < s + 4 * n) \<Longrightarrow> movsl_up d s n mem = block_copy d s (4 * n) mem"
proof (induction n arbitrary: d s mem)
  case (Suc n)
  have "movsl_up (d + 4) (s + 4) n (block_copy d s 4 mem) = block_copy (d + 4) (s + 4) (4 * n) (block_copy d s 4 mem)"
    using Suc.prems by (intro Suc.IH) auto
  also have "\<dots> = block_copy d s (4 + 4 * n) mem" using Suc.prems by (intro block_copy_up) auto
  finally show ?case by (simp add: move4_eq)
qed simp

lemma movsb_down_eq: "s \<le> d \<Longrightarrow> movsb_down (d + n - 1) (s + n - 1) n mem = block_copy d s n mem"
proof (induction n arbitrary: mem)
  case (Suc n)
  have "movsb_down (d + n - 1) (s + n - 1) n (block_copy (d + n) (s + n) 1 mem) =
        block_copy d s n (block_copy (d + n) (s + n) 1 mem)"
    by (rule Suc.IH [OF Suc.prems])
  also have "\<dots> = block_copy d s (n + 1) mem" by (rule block_copy_down [OF Suc.prems])
  finally show ?case by (simp add: block_copy_1)
qed simp

lemma movsl_down_eq:
  "s \<le> d \<Longrightarrow> movsl_down (d + 4 * n - 4) (s + 4 * n - 4) n mem = block_copy d s (4 * n) mem"
proof (induction n arbitrary: mem)
  case (Suc n)
  have "movsl_down (d + 4 * n - 4) (s + 4 * n - 4) n (block_copy (d + 4 * n) (s + 4 * n) 4 mem) =
        block_copy d s (4 * n) (block_copy (d + 4 * n) (s + 4 * n) 4 mem)"
    by (rule Suc.IH [OF Suc.prems])
  also have "\<dots> = block_copy d s (4 * n + 4) mem" by (rule block_copy_down [OF Suc.prems])
  finally show ?case by (simp add: move4_eq add.commute)
qed simp

lemma memmove_eq: "memmove dst src n mem = (dst, block_copy dst src n mem)"
proof (cases "src < dst \<and> dst < src + n")
  case True
  then have "src \<le> dst" by simp
  note down = movsb_down_eq [OF this, of n mem] movsl_down_eq [OF this, of "n div 4" mem]
  show ?thesis using True down by (auto simp: memmove_def Let_def)
next
  case False
  note up = movsb_up_eq [OF False, of mem] movsl_up_eq [of src dst "n div 4" mem]
  show ?thesis using False up by (auto simp: memmove_def)
qed

subsection \<open>Comparison\<close>

lemma uint_diff_sign:
  fixes x y :: u8
  shows "uint x - uint y < 0 \<longleftrightarrow> x < y" "uint x - uint y = 0 \<longleftrightarrow> x = y"
  by (simp_all add: word_less_def word_uint_eq_iff)

lemma strcmp_cstr:
  assumes "cstr mem p xs" "cstr mem q ys"
  shows "\<exists>r. strcmp mem p q = Some r \<and> (r = 0 \<longleftrightarrow> xs = ys) \<and> (r < 0 \<longleftrightarrow> ord_class.lexordp xs ys)"
  using assms
proof (induction xs arbitrary: p q ys)
  case Nil
  then show ?case using uint_diff_sign [of 0 "mem q"]
    by (subst strcmp.simps, cases ys) (auto simp: word_gt_0)
next
  case (Cons x xs)
  show ?case
  proof (cases ys)
    case Nil
    then show ?thesis using Cons.prems uint_diff_sign [of x 0]
      by (subst strcmp.simps) (auto simp: word_gt_0 not_less)
  next
    case (Cons y zs)
    show ?thesis
    proof (cases "x = y")
      case True
      then show ?thesis
        using Cons.prems Cons.IH [of "p + 1" "q + 1" zs] \<open>ys = y # zs\<close> by (subst strcmp.simps) auto
    next
      case False
      then show ?thesis using Cons.prems \<open>ys = y # zs\<close> uint_diff_sign [of x y]
        by (subst strcmp.simps) auto
    qed
  qed
qed

text \<open>\<^verbatim>\<open>strncmp\<close> only compares the first \<open>n\<close> bytes.\<close>

lemma strncmp_cstr:
  "\<lbrakk>cstr mem p xs; cstr mem q ys\<rbrakk> \<Longrightarrow> strncmp mem p q n = 0 \<longleftrightarrow> take n xs = take n ys"
proof (induction n arbitrary: p q xs ys)
  case (Suc n)
  then show ?case using uint_diff_sign(2) [of "mem p" "mem q"] by (cases xs; cases ys) auto
qed simp

lemma memcmp_bytes: "memcmp mem p q n = 0 \<longleftrightarrow> bytes mem p n = bytes mem q n"
proof (induction n arbitrary: p q)
  case (Suc n)
  then show ?case using uint_diff_sign [of "mem p" "mem q"] by (auto simp: bytes_Suc)
qed (simp add: bytes_def)

section \<open>Properties\<close>

text \<open>
  C11. The block operations do what their names say for every alignment and every overlap of
  source and destination: \<^verbatim>\<open>memmove\<close> leaves in the destination the bytes the source held
  before the call, \<^verbatim>\<open>memset\<close> fills exactly the given range with the low byte of its
  argument, and both leave every other byte alone.
\<close>

theorem block_operations_correct:
  "memmove dst src n mem = (dst, \<lambda>a. if dst \<le> a \<and> a < dst + n then mem (src + (a - dst)) else mem a) \<and>
   memset v c k mem = (v, \<lambda>a. if v \<le> a \<and> a < v + k then ucast c else mem a)"
  by (simp add: memmove_eq block_copy_def memset_eq)

text \<open>
  C12. \<^verbatim>\<open>strcat\<close> on two strings that do not overlap returns, leaves the concatenation at the
  destination and touches nothing behind its terminating zero byte.
\<close>

theorem strcat_correct:
  assumes "cstr mem d xs" "cstr mem s ys" "d + length xs + length ys < s \<or> s + length ys < d"
  shows "\<exists>mem'. strcat d s mem = Some (d, mem') \<and> cstr mem' d (xs @ ys) \<and>
     (\<forall>a. a < d \<or> d + length xs + length ys < a \<longrightarrow> mem' a = mem a)"
proof -
  have "d + length xs + length ys < s \<or> s + length ys < d + length xs" using assms(3) by auto
  from strcpy_loop_cstr [OF assms(2) this] obtain mem' where
    m: "strcpy_loop (d + length xs) s mem = Some mem'" "cstr mem' (d + length xs) ys"
    "\<forall>a. a < d + length xs \<or> d + length xs + length ys < a \<longrightarrow> mem' a = mem a" by blast
  have "cstr mem' d (xs @ ys)"
    unfolding cstr_nth
  proof (intro conjI allI impI)
    fix i assume i: "i < length (xs @ ys)"
    show "mem' (d + i) = (xs @ ys) ! i" "(xs @ ys) ! i \<noteq> 0"
    proof (atomize (full), cases "i < length xs")
      case True
      then show "mem' (d + i) = (xs @ ys) ! i \<and> (xs @ ys) ! i \<noteq> 0"
        using m(3) assms(1) by (auto simp: cstr_nth nth_append)
    next
      case False
      then have "d + i = d + length xs + (i - length xs)" "i - length xs < length ys" using i by auto
      then show "mem' (d + i) = (xs @ ys) ! i \<and> (xs @ ys) ! i \<noteq> 0"
        using m(2) False by (auto simp: cstr_nth nth_append)
    qed
  qed (use m(2) in \<open>auto simp: cstr_nth add.assoc\<close>)
  moreover have "strcat d s mem = Some (d, mem')"
    using strlen_cstr [OF assms(1)] m(1) by (simp add: strcat_def strcpy_def)
  ultimately show ?thesis using m(3) by auto
qed

theorem strcat_correct_witness:
  "\<exists>mem'. strcat 0 10 ((\<lambda>_. 0)(0 := 97, 10 := 98, 11 := 99)) = Some (0, mem') \<and> cstr mem' 0 [97, 98, 99]"
  using strcat_correct [of "(\<lambda>_. 0)(0 := 97, 10 := 98, 11 := 99)" 0 "[97]" 10 "[98, 99]"] by auto

text \<open>
  C13. For a source string that does not overlap the destination of \<open>sz > 0\<close> bytes, \<^verbatim>\<open>strlcpy\<close>
  never writes outside the \<open>sz\<close> bytes of its destination, always terminates
  the copy with a zero byte, copies the longest prefix that fits, and returns its length.
\<close>

theorem strlcpy_correct:
  assumes "cstr mem s xs" "0 < sz" "d + sz \<le> s \<or> s + length xs < d"
  shows "\<exists>mem'. strlcpy d s sz mem = (min (sz - 1) (length xs), mem') \<and> cstr mem' d (take (sz - 1) xs) \<and>
     (\<forall>a. a < d \<or> d + sz \<le> a \<longrightarrow> mem' a = mem a)"
proof -
  let ?k = "min (sz - 1) (length xs)"
  have "d + (sz - 1) < s \<or> s + length xs < d" using assms by auto
  from strlcpy_loop_cstr [OF assms(1) this] obtain mem' where
    m: "strlcpy_loop d s (sz - 1) mem = (d + ?k, mem')" "bytes mem' d ?k = take (sz - 1) xs"
    "\<forall>a. a < d \<or> d + ?k \<le> a \<longrightarrow> mem' a = mem a" by blast
  let ?m = "mem'(d + ?k := 0)"
  have nth: "mem' (d + i) = xs ! i" if "i < ?k" for i
    using arg_cong [OF m(2), of "\<lambda>l. l ! i"] that by (simp add: bytes_def)
  have "cstr ?m d (take (sz - 1) xs)"
    using assms(1) nth by (auto simp: cstr_nth min.commute)
  moreover have "strlcpy d s sz mem = (?k, ?m)" using m(1) assms(2) by (simp add: strlcpy_def)
  moreover have "\<forall>a. a < d \<or> d + sz \<le> a \<longrightarrow> ?m a = mem a" using m(3) assms(2) by auto
  ultimately show ?thesis by blast
qed

theorem strlcpy_correct_witness:
  "\<exists>mem'. strlcpy 0 10 2 ((\<lambda>_. 0)(10 := 98, 11 := 99)) = (1, mem') \<and> cstr mem' 0 [98]"
  using strlcpy_correct [of "(\<lambda>_. 0)(10 := 98, 11 := 99)" 10 "[98, 99]" 2 0] by auto

text \<open>
  C14. \<^verbatim>\<open>strcmp\<close> on two strings returns; it answers zero exactly for equal strings and a
  negative number exactly if the first string is before the second in the
  lexicographic order of their unsigned bytes.
\<close>

theorem strcmp_correct:
  assumes "cstr mem p xs" "cstr mem q ys"
  shows "\<exists>r. strcmp mem p q = Some r \<and> (r = 0 \<longleftrightarrow> xs = ys) \<and> (r < 0 \<longleftrightarrow> ord_class.lexordp xs ys)"
  using strcmp_cstr [OF assms] .

theorem strcmp_correct_witness:
  "\<exists>r. strcmp ((\<lambda>_. 0)(0 := 97, 10 := 200)) 0 10 = Some r \<and> r < 0"
  using strcmp_correct [of "(\<lambda>_. 0)(0 := 97, 10 := 200)" 0 "[97]" 10 "[200]"] by auto

end
