(* ===== verification/Printfmt.thy ===== *)
theory Printfmt
  imports Strings
begin

text \<open>
  Formatted output: \<^verbatim>\<open>lib/printfmt.c\<close> with its two kinds of sinks, the bounded buffer of
  \<^verbatim>\<open>snprintf\<close> and the 256-byte buffer of the user \<^verbatim>\<open>printf\<close> (\<^verbatim>\<open>lib/printf.c\<close>), and the
  kernel's \<^verbatim>\<open>printk\<close>. A sink only collects characters, so the formatter is the list of bytes it passes to
  \<^verbatim>\<open>putch\<close>. The format is the byte list before its terminating zero, the variable arguments are
  the 32-bit words on the stack, and \<open>str\<close> gives the C string at a pointer value (0 is
  \<^verbatim>\<open>NULL\<close>). Taking an argument that was not passed is \<open>None\<close>.
\<close>

type_synonym va_list = "u32 list"

section \<open>Numbers\<close>

definition digit_char :: "nat \<Rightarrow> u8" where
  "digit_char d = (if d < 10 then of_nat (48 + d) else of_nat (87 + d))"

function printnum :: "nat \<Rightarrow> nat \<Rightarrow> int \<Rightarrow> u8 \<Rightarrow> u8 list" where
  "printnum num base width padc =
     (if 2 \<le> base then
        (if base \<le> num then printnum (num div base) base (width - 1) padc
         else replicate (nat (width - 1)) padc) @ [digit_char (num mod base)]
      else [])"
  by pat_completeness auto
termination
  by (relation "measure (\<lambda>(num, base, width, padc). num)") auto

declare printnum.simps [simp del]

definition va_int :: "va_list \<Rightarrow> (u32 \<times> va_list) option" where
  "va_int ap = (case ap of [] \<Rightarrow> None | w # ws \<Rightarrow> Some (w, ws))"

definition va_longlong :: "va_list \<Rightarrow> (u64 \<times> va_list) option" where
  "va_longlong ap =
     (case ap of lo # hi # ws \<Rightarrow> Some (push_bit 32 (ucast hi) OR ucast lo, ws) | _ \<Rightarrow> None)"

definition getuint :: "va_list \<Rightarrow> nat \<Rightarrow> (u64 \<times> va_list) option" where
  "getuint ap lflag =
     (if 2 \<le> lflag then va_longlong ap else do { (w, ws) \<leftarrow> va_int ap; Some (ucast w, ws) })"

definition getint :: "va_list \<Rightarrow> nat \<Rightarrow> (u64 \<times> va_list) option" where
  "getint ap lflag =
     (if 2 \<le> lflag then va_longlong ap else do { (w, ws) \<leftarrow> va_int ap; Some (scast w, ws) })"

text \<open>The signed conversion: a minus sign, then the magnitude.\<close>

definition print_signed :: "u64 \<Rightarrow> int \<Rightarrow> u8 \<Rightarrow> u8 list" where
  "print_signed num width padc =
     (if sint num < 0 then 45 # printnum (unat (- num)) 10 width padc
      else printnum (unat num) 10 width padc)"

section \<open>Strings and error names\<close>

definition lit :: "string \<Rightarrow> u8 list" where
  "lit cs = map of_char cs"

definition MAXERROR :: int where "MAXERROR = 40"

definition error_string :: "int \<Rightarrow> u8 list option" where
  "error_string err =
     (if err = errno_val ENOTHING then Some (lit ''unspecified error'')
      else if err = errno_val EBADP then Some (lit ''bad environment'')
      else if err = errno_val EINVAL then Some (lit ''invalid parameter'')
      else if err = errno_val ENOMEM then Some (lit ''out of memory'')
      else if err = errno_val EFAULT then Some (lit ''segmentation fault'')
      else if err = errno_val ENOSPC then Some (lit ''no free space on disk'')
      else if err = errno_val EMFILE then Some (lit ''too many files are open'')
      else if err = errno_val ENOENT then Some (lit ''file or block not found'')
      else if err = errno_val EEXIST then Some (lit ''file already exists'')
      else if err = errno_val ENOEXEC then Some (lit ''file is not a valid executable'')
      else if err = errno_val EPERM then Some (lit ''operation not supported'')
      else None)"

text \<open>The characters of \<^verbatim>\<open>%s\<close>: those a non-negative precision lets through.\<close>

fun put_string :: "bool \<Rightarrow> int \<Rightarrow> u8 list \<Rightarrow> u8 list" where
  "put_string alt precision [] = []"
| "put_string alt precision (ch # p) =
     (if precision < 0 \<or> 0 \<le> precision - 1 then
        (if alt \<and> (ch < 32 \<or> 126 < ch) then 63 else ch) #
        put_string alt (if precision < 0 then precision else precision - 1) p
      else [])"

text \<open>\<^verbatim>\<open>strnlen(p, precision)\<close>: a negative precision is a size above every string length.\<close>

definition str_bound :: "int \<Rightarrow> u8 list \<Rightarrow> int" where
  "str_bound precision p = (if precision < 0 then int (length p) else min precision (int (length p)))"

definition print_string :: "u8 list \<Rightarrow> int \<Rightarrow> int \<Rightarrow> bool \<Rightarrow> u8 \<Rightarrow> u8 list" where
  "print_string p width precision alt padc =
     (let width1 = (if 0 < width \<and> padc \<noteq> 45 then width - str_bound precision p else width);
          pad = (if 0 < width \<and> padc \<noteq> 45 then replicate (nat width1) padc else []);
          width2 = (if 0 < width \<and> padc \<noteq> 45 then min width1 0 else width1);
          body = put_string alt precision p;
          width3 = width2 - int (length body)
      in pad @ body @ replicate (nat width3) 32)"

section \<open>The formatter\<close>

record fmtst =
  f_padc :: u8
  f_width :: int
  f_precision :: int
  f_lflag :: nat
  f_alt :: bool

definition fmt_init :: fmtst where
  "fmt_init = \<lparr>f_padc = 32, f_width = - 1, f_precision = - 1, f_lflag = 0, f_alt = False\<rparr>"

text \<open>The digits of a width or precision: the value and the rest of the format.\<close>

fun fmt_digits :: "int \<Rightarrow> u8 list \<Rightarrow> int \<times> u8 list" where
  "fmt_digits acc [] = (acc, [])"
| "fmt_digits acc (ch # fs) =
     (if ch < 48 \<or> 57 < ch then (acc, ch # fs) else fmt_digits (acc * 10 + (uint ch - 48)) fs)"

definition process_precision :: "fmtst \<Rightarrow> fmtst" where
  "process_precision st =
     (if f_width st < 0 then st\<lparr>f_width := f_precision st, f_precision := - 1\<rparr> else st)"

lemma fmt_digits_length: "length (snd (fmt_digits acc fs)) \<le> length fs"
  by (induction acc fs rule: fmt_digits.induct) auto

text \<open>
  The switch after a percent sign; \<open>start\<close> is the format right behind that sign, where an
  unknown conversion resumes. The nested calls for \<^verbatim>\<open>%e\<close>, with the formats
  \<^verbatim>\<open>"error %d"\<close> and \<^verbatim>\<open>"%s"\<close>, are written out.
\<close>

function fmt_switch :: "(u32 \<Rightarrow> u8 list) \<Rightarrow> u8 list \<Rightarrow> fmtst \<Rightarrow> u8 list \<Rightarrow> va_list \<Rightarrow>
    (u8 list \<times> u8 list \<times> va_list) option" where
  "fmt_switch str start st [] ap = Some ([37], start, ap)"
| "fmt_switch str start st (ch # fs) ap =
     (if ch = 45 then fmt_switch str start (st\<lparr>f_padc := 45\<rparr>) fs ap
      else if ch = 48 then fmt_switch str start (st\<lparr>f_padc := 48\<rparr>) fs ap
      else if 49 \<le> ch \<and> ch \<le> 57 then
        let (v, gs) = fmt_digits (uint ch - 48) fs
        in fmt_switch str start (process_precision (st\<lparr>f_precision := v\<rparr>)) gs ap
      else if ch = 42 then do {
        (w, ws) \<leftarrow> va_int ap;
        fmt_switch str start (process_precision (st\<lparr>f_precision := sint w\<rparr>)) fs ws }
      else if ch = 46 then
        fmt_switch str start (if f_width st < 0 then st\<lparr>f_width := 0\<rparr> else st) fs ap
      else if ch = 35 then fmt_switch str start (st\<lparr>f_alt := True\<rparr>) fs ap
      else if ch = 108 then fmt_switch str start (st\<lparr>f_lflag := Suc (f_lflag st)\<rparr>) fs ap
      else if ch = 99 then do { (w, ws) \<leftarrow> va_int ap; Some ([ucast w], fs, ws) }
      else if ch = 101 then do {
        (w, ws) \<leftarrow> va_int ap;
        let err = sint (if sint w < 0 then - w else w)
        in if err < 0 then None else Some (case (if MAXERROR \<le> err then None else error_string err) of
                   None \<Rightarrow> lit ''error '' @ print_signed (of_int err) (- 1) 32
                 | Some p \<Rightarrow> print_string p (- 1) (- 1) False 32, fs, ws) }
      else if ch = 115 then do {
        (w, ws) \<leftarrow> va_int ap;
        let p = (if w = 0 then lit ''(null)'' else str w)
        in Some (print_string p (f_width st) (f_precision st) (f_alt st) (f_padc st), fs, ws) }
      else if ch = 100 then do {
        (num, ws) \<leftarrow> getint ap (f_lflag st);
        Some (print_signed num (f_width st) (f_padc st), fs, ws) }
      else if ch = 117 then do {
        (num, ws) \<leftarrow> getuint ap (f_lflag st);
        Some (printnum (unat num) 10 (f_width st) (f_padc st), fs, ws) }
      else if ch = 111 then do {
        (num, ws) \<leftarrow> getuint ap (f_lflag st);
        Some (printnum (unat num) 8 (f_width st) (f_padc st), fs, ws) }
      else if ch = 112 then do {
        (w, ws) \<leftarrow> va_int ap;
        Some ([48, 120] @ printnum (unat w) 16 (f_width st) (f_padc st), fs, ws) }
      else if ch = 120 then do {
        (num, ws) \<leftarrow> getuint ap (f_lflag st);
        Some (printnum (unat num) 16 (f_width st) (f_padc st), fs, ws) }
      else if ch = 37 then Some ([37], fs, ap)
      else Some ([37], start, ap))"
  by pat_completeness auto
termination
proof (relation "measure (\<lambda>(str, start, st, fs, ap). length fs)", goal_cases)
  case (4 str start st ch fs ap x v gs)
  then have "snd (fmt_digits (uint ch - 48) fs) = gs" by (metis snd_conv)
  then show ?case using fmt_digits_length [of "uint ch - 48" fs] by simp
qed auto

declare fmt_switch.simps(2) [simp del]

lemma fmt_switch_length:
  "\<lbrakk>fmt_switch str start st fs ap = Some (out, rest, ws); length fs \<le> length start\<rbrakk>
   \<Longrightarrow> length rest \<le> length start"
proof (induction "length fs" arbitrary: st fs ap out rest ws rule: less_induct)
  case less
  show ?case
  proof (cases fs)
    case (Cons ch gs)
    have IH: "length rest \<le> length start"
      if "fmt_switch str start st' hs ap' = Some (out, rest, ws)" "length hs \<le> length gs" for st' hs ap'
      using less.hyps [OF _ that(1)] that(2) less.prems(2) Cons by simp
    have d: "length hs \<le> length gs" if "fmt_digits v gs = (w, hs)" for v w hs
      using fmt_digits_length [of v gs] that by simp
    have len: "length gs \<le> length start" using less.prems(2) Cons by simp
    show ?thesis
      using less.prems(1) [unfolded Cons fmt_switch.simps(2)] len
      by (auto split: if_split_asm prod.splits bind_split_asm simp: Let_def dest!: d intro: IH)
  qed (use less.prems in simp)
qed

function vprintfmt :: "(u32 \<Rightarrow> u8 list) \<Rightarrow> u8 list \<Rightarrow> va_list \<Rightarrow> u8 list option" where
  "vprintfmt str [] ap = Some []"
| "vprintfmt str (ch # fs) ap =
     (if ch \<noteq> 37 then do { more \<leftarrow> vprintfmt str fs ap; Some (ch # more) }
      else do {
        (out, rest, ws) \<leftarrow> fmt_switch str fs fmt_init fs ap;
        more \<leftarrow> vprintfmt str rest ws;
        Some (out @ more) })"
  by pat_completeness auto
termination
  by (relation "measure (\<lambda>(str, fs, ap). length fs)") (auto dest: fmt_switch_length simp: less_Suc_eq_le)

section \<open>Sinks\<close>







text \<open>The kernel's sink writes to the console; \<^verbatim>\<open>*cnt++\<close> moves the pointer, not the count.\<close>

definition printk_putch :: "u8 \<Rightarrow> u8 list \<times> int \<Rightarrow> u8 list \<times> int" where
  "printk_putch ch st = (fst st @ [ch], snd st)"

definition vprintf :: "(u32 \<Rightarrow> u8 list) \<Rightarrow> u8 list \<Rightarrow> va_list \<Rightarrow> spinlock \<Rightarrow> (int \<times> u8 list \<times> spinlock) option" where
  "vprintf str fmt ap pklock = do {
     lk \<leftarrow> spin_lock pklock;
     out \<leftarrow> vprintfmt str fmt ap;
     let (written, cnt) = fold printk_putch out ([], 0)
     in Some (cnt, written, spin_unlock lk) }"


section \<open>Digits\<close>

function digs :: "nat \<Rightarrow> nat \<Rightarrow> nat list" where
  "digs n b = (if 2 \<le> b then (if b \<le> n then digs (n div b) b else []) @ [n mod b] else [])"
  by pat_completeness auto
termination
  by (relation "measure fst") auto

declare digs.simps [simp del]

lemma printnum_digs: "2 \<le> b \<Longrightarrow> w \<le> 1 \<Longrightarrow> printnum n b w padc = map digit_char (digs n b)"
proof (induction n b w padc rule: printnum.induct)
  case (1 n b w padc)
  then show ?case by (subst printnum.simps, subst digs.simps) simp
qed

lemma digs_less: "2 \<le> b \<Longrightarrow> d \<in> set (digs n b) \<Longrightarrow> d < b"
proof (induction n b rule: digs.induct)
  case (1 n b)
  then show ?case by (subst (asm) (2) digs.simps) (auto split: if_splits)
qed

lemma digs_not_Nil: "2 \<le> b \<Longrightarrow> digs n b \<noteq> []"
  by (subst digs.simps) simp

lemma digs_value: "2 \<le> b \<Longrightarrow> foldl (\<lambda>v d. v * b + d) 0 (digs n b) = n"
proof (induction n b rule: digs.induct)
  case (1 n b)
  then show ?case by (subst digs.simps) auto
qed

text \<open>Padding: the number is right-aligned in a field of the given width.\<close>

lemma printnum_pad:
  assumes "2 \<le> b"
  shows "printnum n b w padc = replicate (nat (w - int (length (digs n b)))) padc @ map digit_char (digs n b)"
  using assms
proof (induction n b w padc rule: printnum.induct)
  case (1 n b w padc)
  show ?case
  proof (cases "b \<le> n")
    case True
    then have "digs n b = digs (n div b) b @ [n mod b]" using "1.prems" by (subst digs.simps) simp
    then show ?thesis using True 1 by (subst printnum.simps) (simp add: algebra_simps)
  next
    case False
    then have "digs n b = [n mod b]" using "1.prems" by (subst digs.simps) simp
    then show ?thesis using False "1.prems" by (subst printnum.simps) simp
  qed
qed

lemma strtol_dig_digit: "d < 16 \<Longrightarrow> strtol_dig (digit_char d) = Some (int d)"
proof -
  assume "d < 16"
  then have "d = 0 \<or> d = 1 \<or> d = 2 \<or> d = 3 \<or> d = 4 \<or> d = 5 \<or> d = 6 \<or> d = 7
      \<or> d = 8 \<or> d = 9 \<or> d = 10 \<or> d = 11 \<or> d = 12 \<or> d = 13 \<or> d = 14 \<or> d = 15"
    by arith
  then show ?thesis by (elim disjE) (simp_all add: strtol_dig_def digit_char_def)
qed

lemma digit_char_not_special:
  assumes "d < 16"
  shows "digit_char d \<notin> {0, 9, 32, 43, 45, 120}"
  using strtol_dig_digit [OF assms] assms by (auto simp: strtol_dig_def)

section \<open>Reading back what was printed\<close>

lemma strtol_digits_run:
  assumes "\<forall>i<length ds. strtol_dig (mem (s + i)) = Some (int (ds ! i)) \<and> ds ! i < b"
    "strtol_dig (mem (s + length ds)) = None"
  shows "strtol_digits mem (int b) s val = Some (foldl (\<lambda>v d. v * of_nat b + of_nat d) val ds, s + length ds)"
  using assms
proof (induction ds arbitrary: s val)
  case Nil
  then show ?case by (subst strtol_digits.simps) simp
next
  case (Cons d ds)
  have "strtol_dig (mem s) = Some (int d)" "d < b" using Cons.prems(1) by force+
  moreover have "strtol_digits mem (int b) (s + 1) (val * of_nat b + of_nat d) =
      Some (foldl (\<lambda>v d. v * of_nat b + of_nat d) (val * of_nat b + of_nat d) ds, s + 1 + length ds)"
    using Cons.prems by (intro Cons.IH) (auto dest: spec [of _ "Suc _"])
  ultimately show ?case by (subst strtol_digits.simps) simp
qed

lemma foldl_of_nat:
  "foldl (\<lambda>v d. v * of_nat b + of_nat d) (of_nat a :: u32) ds = of_nat (foldl (\<lambda>v d. v * b + d) a ds)"
  by (induction ds arbitrary: a) (simp_all flip: of_nat_mult of_nat_add)

lemma strtol_digits_printnum:
  assumes "cstr mem s (map digit_char (digs n b))" "2 \<le> b" "b \<le> 16"
  shows "strtol_digits mem (int b) s 0 = Some (of_nat n, s + length (digs n b))"
proof -
  have "\<forall>i<length (digs n b). strtol_dig (mem (s + i)) = Some (int (digs n b ! i)) \<and> digs n b ! i < b"
  proof (intro allI impI)
    fix i assume i: "i < length (digs n b)"
    then have "digs n b ! i < b" using digs_less [OF assms(2) nth_mem [OF i]] by simp
    then show "strtol_dig (mem (s + i)) = Some (int (digs n b ! i)) \<and> digs n b ! i < b"
      using assms(1,3) i by (simp add: cstr_nth strtol_dig_digit)
  qed
  moreover have "strtol_dig (mem (s + length (digs n b))) = None"
    using assms(1) by (auto simp: cstr_nth strtol_dig_def)
  ultimately show ?thesis
    using strtol_digits_run foldl_of_nat [of b 0 "digs n b"] digs_value [OF assms(2)] by simp
qed

lemma first_digit:
  assumes "cstr mem s (map digit_char (digs n b))" "2 \<le> b" "b \<le> 16"
  shows "mem s \<notin> {0, 9, 32, 43, 45, 120}"
proof -
  obtain d ds where d: "digs n b = d # ds" using digs_not_Nil [OF assms(2)] by (cases "digs n b") auto
  then have "d < 16" using digs_less [OF assms(2), of d n] assms(3) by simp
  then show ?thesis using digit_char_not_special [of d] assms(1) d by simp
qed

lemma ucast_of_int_down: "(ucast (of_int i :: u64) :: u32) = of_int i"
  by (simp add: unsigned_of_int word_of_int_eq_iff)

lemma skip_blank_stop: "mem s \<noteq> 9 \<Longrightarrow> mem s \<noteq> 32 \<Longrightarrow> skip_blank mem s = Some s"
  by (subst skip_blank.simps) simp

lemma strtol_print_signed:
  assumes c: "cstr mem s (print_signed (scast (w::u32)) (- 1) 32)"
  shows "strtol mem s 10 = Some (sint w, s + length (print_signed (scast w) (- 1) 32))"
proof -
  have sw: "sint (scast w :: u64) = sint w" by (simp add: sint_up_scast is_up)
  show ?thesis
  proof (cases "sint w < 0")
    case True
    let ?n = "unat (- (scast w :: u64))"
    have p: "print_signed (scast w) (- 1) 32 = 45 # map digit_char (digs ?n 10)"
      using True sw by (simp add: print_signed_def printnum_digs)
    then have c': "cstr mem (s + 1) (map digit_char (digs ?n 10))" "mem s = 45" using c by auto
    have "(of_nat ?n :: u32) = - w"
    proof -
      have "(of_nat ?n :: u32) = ucast (- (scast w :: u64))" by simp
      also have "- (scast w :: u64) = of_int (- sint w)" by (simp only: scast_eq of_int_minus)
      also have "(ucast (of_int (- sint w) :: u64) :: u32) = of_int (- sint w)" by (rule ucast_of_int_down)
      finally show ?thesis by simp
    qed
    then show ?thesis
      using strtol_digits_printnum [OF c'(1)] c'(2) first_digit [OF c'(1)] p
      by (simp add: strtol_def skip_blank_stop)
  next
    case False
    let ?n = "unat (scast w :: u64)"
    have p: "print_signed (scast w) (- 1) 32 = map digit_char (digs ?n 10)"
      using False sw by (simp add: print_signed_def printnum_digs)
    have "(of_nat ?n :: u32) = ucast (scast w :: u64)" by simp
    also have "\<dots> = w" unfolding scast_eq ucast_of_int_down by simp
    finally have "(of_nat ?n :: u32) = w" .
    then show ?thesis
      using strtol_digits_printnum [of mem s ?n 10] first_digit [of mem s ?n 10] c p
      by (simp add: strtol_def skip_blank_stop)
  qed
qed

section \<open>The sinks\<close>




lemma printk_fold: "fold printk_putch out (w, c) = (w @ out, c)"
  by (induction out arbitrary: w) (auto simp: printk_putch_def)

lemma vprintfmt_d: "vprintfmt str [37, 100] [w] = Some (print_signed (scast w) (- 1) 32)"
  by (simp add: fmt_switch.simps(2) fmt_init_def getint_def va_int_def)

section \<open>Field widths\<close>

lemma digit_char_uint: "d < 10 \<Longrightarrow> uint (digit_char d) = 48 + int d"
proof -
  assume "d < 10"
  then have "d = 0 \<or> d = 1 \<or> d = 2 \<or> d = 3 \<or> d = 4 \<or> d = 5 \<or> d = 6 \<or> d = 7 \<or> d = 8 \<or> d = 9" by arith
  then show ?thesis by (elim disjE) (simp_all add: digit_char_def)
qed

lemma digit_char_range: "d < 10 \<Longrightarrow> 48 \<le> digit_char d \<and> digit_char d \<le> 57 \<and> (0 < d \<longrightarrow> 49 \<le> digit_char d)"
  by (simp add: word_le_def digit_char_uint)

lemma digs_hd: "0 < n \<Longrightarrow> 2 \<le> b \<Longrightarrow> 0 < hd (digs n b)"
proof (induction n b rule: digs.induct)
  case (1 n b)
  show ?case
  proof (cases "b \<le> n")
    case True
    then have "0 < n div b" using 1 by (simp add: div_greater_zero_iff)
    then show ?thesis using 1 True digs_not_Nil [of b "n div b"] by (subst digs.simps) simp
  next
    case False
    then show ?thesis using 1 by (subst digs.simps) simp
  qed
qed

lemma fmt_digits_digs:
  "\<lbrakk>\<forall>d\<in>set ds. d < 10; ch < 48 \<or> 57 < ch\<rbrakk> \<Longrightarrow>
   fmt_digits (int acc) (map digit_char ds @ ch # fs) = (int (foldl (\<lambda>v d. v * 10 + d) acc ds), ch # fs)"
proof (induction ds arbitrary: acc)
  case (Cons d ds)
  have "\<not> (digit_char d < 48 \<or> 57 < digit_char d)" using digit_char_range [of d] Cons.prems(1) by (simp add: not_less)
  then show ?case using Cons.IH [of "acc * 10 + d"] Cons.prems digit_char_uint [of d] by simp
qed simp

lemma print_signed_pad:
  "print_signed num width padc = (if sint num < 0 then [45] else []) @
     replicate (nat (width - int (length (digs (unat (if sint num < 0 then - num else num)) 10)))) padc @
     map digit_char (digs (unat (if sint num < 0 then - num else num)) 10)"
  by (simp add: print_signed_def printnum_pad)

text \<open>The format of a decimal integer with the minus flag and the width \<open>n\<close>.\<close>

definition left_format :: "nat \<Rightarrow> u8 list" where
  "left_format n = lit ''%-'' @ map digit_char (digs n 10) @ lit ''d''"

lemma vprintfmt_left:
  assumes "0 < n"
  shows "vprintfmt str (left_format n) [w] = Some (print_signed (scast w) (int n) 45)"
proof -
  obtain d ds where d: "digs n 10 = d # ds" using digs_not_Nil [of 10 n] by (cases "digs n 10") auto
  have l: "\<forall>x\<in>set (d # ds). x < 10" using digs_less [of 10 _ n] d by simp
  have v: "foldl (\<lambda>v d. v * 10 + d) d ds = n" using digs_value [of 10 n] d by simp
  have "0 < d" using digs_hd [OF assms, of 10] d by simp
  then have r: "49 \<le> digit_char d" "digit_char d \<le> 57" "uint (digit_char d) - 48 = int d"
    using digit_char_range [of d] digit_char_uint [of d] l by auto
  then have ne: "digit_char d \<noteq> 45" "digit_char d \<noteq> 48" by auto
  have "fmt_digits (int d) (map digit_char ds @ [100]) = (int n, [100])"
    using fmt_digits_digs [of ds 100 d "[]"] l v by simp
  then show ?thesis
    by (simp add: left_format_def lit_def d fmt_switch.simps(2) ne r fmt_init_def process_precision_def getint_def va_int_def)
qed

section \<open>Properties\<close>





text \<open>
  C17. Printing and parsing agree: for every 32-bit integer, the smallest negative one
  included, \<^verbatim>\<open>%d\<close> formats it to a text from which \<^verbatim>\<open>strtol\<close> in base ten reads the same
  integer back, stopping right behind its last digit.
\<close>

theorem print_strtol_round_trip:
  assumes "vprintfmt str [37, 100] [w] = Some out" "cstr mem s out"
  shows "strtol mem s 10 = Some (sint w, s + length out)"
  using strtol_print_signed [of mem s w] assms unfolding vprintfmt_d by simp

theorem print_strtol_round_trip_witness:
  "strtol ((\<lambda>_. 0)(0 := 45, 1 := 55)) 0 10 = Some (- 7, 2)"
proof -
  have "digs 7 10 = [7]" by (simp add: digs.simps)
  then have "vprintfmt (\<lambda>_. []) [37, 100] [- 7] = Some [45, 55]"
    unfolding vprintfmt_d
    by (simp add: print_signed_def printnum_digs digit_char_def)
  from print_strtol_round_trip [OF this, of "(\<lambda>_. 0)(0 := 45, 1 := 55)" 0] show ?thesis by simp
qed

text \<open>
  C18. The flag for padding on the right does not do so for numbers. For every signed 32-bit
  integer and every width from 1 up to the largest that the \<^verbatim>\<open>int\<close> arithmetic of the format
  parser can hold, the format with the minus flag and that width prints the sign, then one minus
  sign for every missing digit, then the digits that \<^verbatim>\<open>%d\<close> prints: the padding is on the left
  and reads as further signs.
\<close>

theorem left_justify_prints_minus_signs:
  assumes "0 < n" "n < 2 ^ 31 - 48"
  shows "\<exists>ds. set ds \<subseteq> {48..57} \<and>
    vprintfmt str (lit ''%d'') [w] = Some ((if sint w < 0 then [45] else []) @ ds) \<and>
    vprintfmt str (left_format n) [w] = Some ((if sint w < 0 then [45] else []) @ replicate (n - length ds) 45 @ ds)"
proof -
  let ?num = "scast w :: u64"
  let ?ds = "map digit_char (digs (unat (if sint ?num < 0 then - ?num else ?num)) 10)"
  have sw: "sint ?num = sint w" by (simp add: sint_up_scast is_up)
  have "set ?ds \<subseteq> {48..57}" using digs_less [of 10] digit_char_range by fastforce
  moreover have "vprintfmt str (lit ''%d'') [w] = Some (print_signed ?num (- 1) 32)"
    using vprintfmt_d [of str w] by (simp add: lit_def)
  ultimately show ?thesis
    unfolding vprintfmt_left [OF assms(1)] print_signed_pad sw by (intro exI [of _ ?ds]) (simp add: sw nat_diff_distrib')
qed

theorem left_justify_prints_minus_signs_witness:
  "vprintfmt (\<lambda>_. []) (lit ''%-5d'') [- 3] = Some (lit ''-----3'')"
proof -
  have d: "digs 5 10 = [5]" "digs 3 10 = [3]" by (simp_all add: digs.simps)
  obtain ds where ds: "vprintfmt (\<lambda>_. []) (lit ''%d'') [- 3] = Some ([45] @ ds)"
    "vprintfmt (\<lambda>_. []) (left_format 5) [- 3] = Some ([45] @ replicate (5 - length ds) 45 @ ds)"
    using left_justify_prints_minus_signs [of 5 "\<lambda>_. []" "- 3"] by auto
  have "vprintfmt (\<lambda>_. []) (lit ''%d'') [- 3] = Some [45, 51]"
    using vprintfmt_d [of "\<lambda>_. []" "- 3"] by (simp add: lit_def print_signed_def printnum_digs d digit_char_def)
  then have "ds = [51]" using ds(1) by simp
  moreover have "left_format 5 = lit ''%-5d''" by (simp add: left_format_def d lit_def digit_char_def)
  moreover have "replicate 4 (45::u8) = [45, 45, 45, 45]" by (simp add: numeral_eq_Suc)
  ultimately show ?thesis using ds(2) by (simp add: lit_def)
qed

end
