(* ===== verification/Hlist.thy ===== *)
theory Hlist
  imports Kprelude
begin

text \<open>
  The hash chains of \<^verbatim>\<open>include/fuckOS/list.h\<close>. A chain node points to its successor and,
  through \<^verbatim>\<open>pprev\<close>, to the pointer that points to it, which is the \<^verbatim>\<open>first\<close> field of a
  head or the \<^verbatim>\<open>next\<close> field of another node. \<open>hl h b xs\<close> says that bucket \<open>b\<close> holds the
  nodes \<open>xs\<close>. The locale \<open>hash_chain\<close> is the interface the hash tables of the kernel use.
\<close>

section \<open>Operations\<close>

datatype ('b, 'n) slot = First 'b | Next 'n

record ('b, 'n) hheap =
  hfirst :: "'b \<Rightarrow> 'n option"
  hnext :: "'n \<Rightarrow> 'n option"
  hpprev :: "'n \<Rightarrow> ('b, 'n) slot option"

definition slot_get :: "('b, 'n) slot \<Rightarrow> ('b, 'n) hheap \<Rightarrow> 'n option" where
  "slot_get sl h = (case sl of First b \<Rightarrow> hfirst h b | Next n \<Rightarrow> hnext h n)"

definition slot_set :: "('b, 'n) slot \<Rightarrow> 'n option \<Rightarrow> ('b, 'n) hheap \<Rightarrow> ('b, 'n) hheap" where
  "slot_set sl v h = (case sl of First b \<Rightarrow> h\<lparr>hfirst := (hfirst h)(b := v)\<rparr>
                               | Next n \<Rightarrow> h\<lparr>hnext := (hnext h)(n := v)\<rparr>)"

definition set_pprev :: "'n \<Rightarrow> ('b, 'n) slot option \<Rightarrow> ('b, 'n) hheap \<Rightarrow> ('b, 'n) hheap" where
  "set_pprev n v h = h\<lparr>hpprev := (hpprev h)(n := v)\<rparr>"

definition INIT_HLIST_HEAD :: "'b \<Rightarrow> ('b, 'n) hheap \<Rightarrow> ('b, 'n) hheap" where
  "INIT_HLIST_HEAD b h = slot_set (First b) None h"

definition INIT_HLIST_NODE :: "'n \<Rightarrow> ('b, 'n) hheap \<Rightarrow> ('b, 'n) hheap" where
  "INIT_HLIST_NODE n h = set_pprev n None (slot_set (Next n) None h)"

text \<open>\<^verbatim>\<open>__hlist_del\<close> stores through \<^verbatim>\<open>pprev\<close>; on an unhashed node that is a null store.\<close>

definition hlist_del_raw :: "'n \<Rightarrow> ('b, 'n) hheap \<Rightarrow> ('b, 'n) hheap option" where
  "hlist_del_raw n h =
     (let nx = hnext h n in
      case hpprev h n of
        None \<Rightarrow> None
      | Some pp \<Rightarrow>
          let h1 = slot_set pp nx h
          in Some (case nx of None \<Rightarrow> h1 | Some x \<Rightarrow> set_pprev x (Some pp) h1))"

definition hlist_del :: "'n \<Rightarrow> ('b, 'n) hheap \<Rightarrow> ('b, 'n) hheap option" where
  "hlist_del n h = map_option (\<lambda>h1. set_pprev n None (slot_set (Next n) None h1)) (hlist_del_raw n h)"

definition hlist_unhashed :: "'n \<Rightarrow> ('b, 'n) hheap \<Rightarrow> bool" where
  "hlist_unhashed n h \<longleftrightarrow> hpprev h n = None"

definition hlist_empty :: "'b \<Rightarrow> ('b, 'n) hheap \<Rightarrow> bool" where
  "hlist_empty b h \<longleftrightarrow> hfirst h b = None"

definition hlist_add_head :: "'n \<Rightarrow> 'b \<Rightarrow> ('b, 'n) hheap \<Rightarrow> ('b, 'n) hheap" where
  "hlist_add_head n b h =
     (let f = hfirst h b;
          h1 = slot_set (Next n) f h;
          h2 = (case f of None \<Rightarrow> h1 | Some x \<Rightarrow> set_pprev x (Some (Next n)) h1);
          h3 = slot_set (First b) (Some n) h2
      in set_pprev n (Some (First b)) h3)"

definition hlist_add_before :: "'n \<Rightarrow> 'n \<Rightarrow> ('b, 'n) hheap \<Rightarrow> ('b, 'n) hheap option" where
  "hlist_add_before n x h =
     (let h1 = set_pprev n (hpprev h x) h;
          h2 = slot_set (Next n) (Some x) h1;
          h3 = set_pprev x (Some (Next n)) h2
      in case hpprev h3 n of None \<Rightarrow> None | Some pp \<Rightarrow> Some (slot_set pp (Some n) h3))"

definition hlist_add_behind :: "'n \<Rightarrow> 'n \<Rightarrow> ('b, 'n) hheap \<Rightarrow> ('b, 'n) hheap" where
  "hlist_add_behind n p h =
     (let h1 = slot_set (Next n) (hnext h p) h;
          h2 = slot_set (Next p) (Some n) h1;
          h3 = set_pprev n (Some (Next p)) h2
      in case hnext h3 n of None \<Rightarrow> h3 | Some x \<Rightarrow> set_pprev x (Some (Next n)) h3)"

text \<open>\<^verbatim>\<open>hlist_for_each\<close>, with fuel for the number of steps.\<close>

fun hlist_walk :: "nat \<Rightarrow> 'n option \<Rightarrow> ('b, 'n) hheap \<Rightarrow> 'n list option" where
  "hlist_walk 0 pos h = None"
| "hlist_walk (Suc fuel) pos h =
     (case pos of None \<Rightarrow> Some [] | Some n \<Rightarrow> map_option (Cons n) (hlist_walk fuel (hnext h n) h))"

section \<open>The chain a bucket represents\<close>

fun hchain :: "('b, 'n) hheap \<Rightarrow> ('b, 'n) slot \<Rightarrow> 'n list \<Rightarrow> bool" where
  "hchain h sl [] \<longleftrightarrow> slot_get sl h = None"
| "hchain h sl (x # xs) \<longleftrightarrow> slot_get sl h = Some x \<and> hpprev h x = Some sl \<and> hchain h (Next x) xs"

definition hl :: "('b, 'n) hheap \<Rightarrow> 'b \<Rightarrow> 'n list \<Rightarrow> bool" where
  "hl h b xs \<longleftrightarrow> distinct xs \<and> hchain h (First b) xs"

text \<open>A whole table: one chain per bucket, no node in two of them.\<close>

definition htable :: "('h \<Rightarrow> 'b \<Rightarrow> 'n list \<Rightarrow> bool) \<Rightarrow> 'h \<Rightarrow> ('b \<Rightarrow> 'n list) \<Rightarrow> bool" where
  "htable rep h T \<longleftrightarrow> (\<forall>b. rep h b (T b)) \<and> (\<forall>b c. b \<noteq> c \<longrightarrow> set (T b) \<inter> set (T c) = {})"

section \<open>Interface\<close>

locale hash_chain =
  fixes rep :: "'h \<Rightarrow> 'b \<Rightarrow> 'n list \<Rightarrow> bool"
    and add :: "'n \<Rightarrow> 'b \<Rightarrow> 'h \<Rightarrow> 'h"
    and del :: "'n \<Rightarrow> 'h \<Rightarrow> 'h option"
  assumes rep_add: "\<lbrakk>rep h b xs; x \<notin> set xs\<rbrakk> \<Longrightarrow> rep (add x b h) b (x # xs)"
    and rep_del: "\<lbrakk>rep h b xs; x \<in> set xs\<rbrakk> \<Longrightarrow> \<exists>h'. del x h = Some h' \<and> rep h' b (remove1 x xs)"
    and frame_add: "\<lbrakk>rep h c ys; rep h b xs; c \<noteq> b; x \<notin> set ys; set xs \<inter> set ys = {}\<rbrakk>
                    \<Longrightarrow> rep (add x b h) c ys"
    and frame_del: "\<lbrakk>rep h c ys; rep h b xs; c \<noteq> b; x \<in> set xs; set xs \<inter> set ys = {}; del x h = Some h'\<rbrakk>
                    \<Longrightarrow> rep h' c ys"
begin

lemma table_add:
  assumes "htable rep h T" "\<forall>c. x \<notin> set (T c)"
  shows "htable rep (add x b h) (T(b := x # T b))"
proof -
  have r: "\<And>b. rep h b (T b)" and d: "\<And>b c. b \<noteq> c \<Longrightarrow> set (T b) \<inter> set (T c) = {}"
    using assms(1) by (auto simp: htable_def)
  have "rep (add x b h) c ((T(b := x # T b)) c)" for c
    using rep_add [OF r] frame_add [OF r [of c] r [of b]] d assms(2) by (cases "c = b") auto
  moreover have "set ((T(b := x # T b)) c) \<inter> set ((T(b := x # T b)) e) = {}" if "c \<noteq> e" for c e
    using d [OF that] that assms(2) by auto
  ultimately show ?thesis by (simp add: htable_def)
qed

lemma table_del:
  assumes "htable rep h T" "x \<in> set (T b)"
  shows "\<exists>h'. del x h = Some h' \<and> htable rep h' (T(b := remove1 x (T b)))"
proof -
  have r: "\<And>b. rep h b (T b)" and d: "\<And>b c. b \<noteq> c \<Longrightarrow> set (T b) \<inter> set (T c) = {}"
    using assms(1) by (auto simp: htable_def)
  obtain h' where h': "del x h = Some h'" "rep h' b (remove1 x (T b))"
    using rep_del [OF r assms(2)] by blast
  have "rep h' c ((T(b := remove1 x (T b))) c)" for c
    using h' frame_del [OF r [of c] r [of b] _ assms(2) _ h'(1)] d by (cases "c = b") auto
  moreover have sub: "set ((T(b := remove1 x (T b))) c) \<subseteq> set (T c)" for c
    using set_remove1_subset [of x "T b"] by auto
  have "set ((T(b := remove1 x (T b))) c) \<inter> set ((T(b := remove1 x (T b))) e) = {}" if "c \<noteq> e" for c e
    using d [OF that] sub [of c] sub [of e] by blast
  ultimately show ?thesis using h'(1) by (auto simp: htable_def)
qed

end

section \<open>The pointer operations implement the interface\<close>

lemmas hlist_ops_def = hlist_add_head_def hlist_del_def hlist_del_raw_def hlist_add_before_def
  hlist_add_behind_def set_pprev_def slot_set_def slot_get_def Let_def

lemma hchain_cong:
  "\<lbrakk>slot_get sl h' = slot_get sl h; \<forall>y\<in>set xs. hnext h' y = hnext h y \<and> hpprev h' y = hpprev h y\<rbrakk>
   \<Longrightarrow> hchain h' sl xs = hchain h sl xs"
  by (induction xs arbitrary: sl) (auto simp: slot_get_def)

lemma hchain_mem:
  "\<lbrakk>hchain h sl xs; x \<in> set xs\<rbrakk> \<Longrightarrow>
     hpprev h x \<in> Some ` insert sl (Next ` set xs) \<and> hnext h x \<in> insert None (Some ` set xs)"
proof (induction xs arbitrary: sl)
  case (Cons y ys)
  then show ?case by (cases ys) (auto simp: slot_get_def)
qed simp

lemma hchain_first: "hchain h sl xs \<Longrightarrow> slot_get sl h = (case xs of [] \<Rightarrow> None | x # _ \<Rightarrow> Some x)"
  by (cases xs) auto

lemma hlist_del_chain:
  "\<lbrakk>hchain h sl xs; distinct xs; sl \<notin> Next ` set xs; x \<in> set xs\<rbrakk>
   \<Longrightarrow> \<exists>h'. hlist_del x h = Some h' \<and> hchain h' sl (remove1 x xs)"
proof (induction xs arbitrary: sl)
  case (Cons y ys)
  show ?case
  proof (cases "x = y")
    case True
    show ?thesis
    proof (cases ys)
      case Nil
      then show ?thesis using Cons.prems True by (cases sl) (auto simp: hlist_ops_def)
    next
      case (Cons z zs)
      obtain h' where h': "hlist_del x h = Some h'" using Cons.prems True by (auto simp: hlist_ops_def)
      have "hchain h' (Next z) zs = hchain h (Next z) zs"
        using Cons.prems True Cons h' by (intro hchain_cong) (cases sl; auto simp: hlist_ops_def)+
      then show ?thesis
        using Cons.prems True Cons h' by (cases sl) (auto simp: hlist_ops_def)
    qed
  next
    case False
    then have x: "x \<in> set ys" using Cons.prems by simp
    have c: "hchain h (Next y) ys" using Cons.prems by simp
    obtain h' where h': "hlist_del x h = Some h'" "hchain h' (Next y) (remove1 x ys)"
      using Cons.IH [OF c] Cons.prems x by auto
    have "slot_get sl h' = slot_get sl h \<and> hpprev h' y = hpprev h y"
      using h'(1) hchain_mem [OF c x] Cons.prems False
      by (cases sl) (auto simp: hlist_ops_def split: option.splits)
    then show ?thesis using h' Cons.prems False by auto
  qed
qed simp

lemma hl_frame_add:
  assumes "hl h c ys" "hl h b xs" "c \<noteq> b" "x \<notin> set ys" "set xs \<inter> set ys = {}"
  shows "hl (hlist_add_head x b h) c ys"
proof -
  have "hfirst h b \<notin> Some ` set ys"
    using hchain_first [of h "First b" xs] assms by (cases xs) (auto simp: hl_def slot_get_def)
  then have "hchain (hlist_add_head x b h) (First c) ys = hchain h (First c) ys"
    using assms by (intro hchain_cong) (auto simp: hlist_ops_def split: option.splits)
  then show ?thesis using assms by (simp add: hl_def)
qed

lemma hl_frame_del:
  assumes "hl h c ys" "hl h b xs" "c \<noteq> b" "x \<in> set xs" "set xs \<inter> set ys = {}" "hlist_del x h = Some h'"
  shows "hl h' c ys"
proof -
  have m: "hpprev h x \<in> Some ` insert (First b) (Next ` set xs)" "hnext h x \<in> insert None (Some ` set xs)"
    using hchain_mem [of h "First b" xs x] assms by (auto simp: hl_def)
  have "hchain h' (First c) ys = hchain h (First c) ys"
    using assms m by (intro hchain_cong) (auto simp: hlist_ops_def split: option.splits)
  then show ?thesis using assms by (simp add: hl_def)
qed

lemma hl_add_head:
  assumes "hl h b xs" "x \<notin> set xs"
  shows "hl (hlist_add_head x b h) b (x # xs)"
proof (cases xs)
  case Nil
  then show ?thesis using assms by (auto simp: hl_def hlist_ops_def)
next
  case (Cons y ys)
  have "hchain (hlist_add_head x b h) (Next y) ys = hchain h (Next y) ys"
    using assms Cons by (intro hchain_cong) (auto simp: hl_def hlist_ops_def)
  then show ?thesis using assms Cons by (auto simp: hl_def hlist_ops_def)
qed

interpretation khl: hash_chain hl hlist_add_head hlist_del
proof unfold_locales
  show "hl h b xs \<Longrightarrow> x \<in> set xs \<Longrightarrow> \<exists>h'. hlist_del x h = Some h' \<and> hl h' b (remove1 x xs)" for h b xs x
    using hlist_del_chain [of h "First b" xs x] by (auto simp: hl_def)
qed (auto intro: hl_add_head hl_frame_add hl_frame_del)

lemma hlist_walk_chain:
  "hchain h sl xs \<Longrightarrow> length xs < fuel \<Longrightarrow> hlist_walk fuel (slot_get sl h) h = Some xs"
proof (induction xs arbitrary: sl fuel)
  case Nil
  then show ?case by (cases fuel) auto
next
  case (Cons x xs)
  then obtain n where "fuel = Suc n" by (cases fuel) auto
  then show ?case using Cons.IH [of "Next x" n] Cons.prems by (simp add: slot_get_def)
qed

end
