(* ===== verification/Channel.thy ===== *)
theory Channel
  imports Kprelude "HOL-Library.Extended_Nat"
begin

text \<open>
  The contract of a byte channel inside the kernel: what a producer appends a consumer takes
  out in the same order. \<open>budget\<close> bounds how much a channel can carry altogether, since the
  positions of a pipe are 32-bit counters that only grow. The terminal queue and the pipe buffer are both channels; the
  lemmas on whole transfers are proved here once, from the laws of single transfers.
\<close>

datatype 'c event = Put 'c | Get

fun sent :: "'c event list \<Rightarrow> 'c list" where
  "sent [] = []"
| "sent (Put c # es) = c # sent es"
| "sent (Get # es) = sent es"

text \<open>
  \<open>fair cap n es\<close>: from \<open>n\<close> entries on, the schedule never puts into a full and never takes
  out of an empty channel.
\<close>

fun fair :: "nat \<Rightarrow> nat \<Rightarrow> 'c event list \<Rightarrow> bool" where
  "fair cap n [] \<longleftrightarrow> True"
| "fair cap n (Put c # es) \<longleftrightarrow> n < cap \<and> fair cap (n + 1) es"
| "fair cap n (Get # es) \<longleftrightarrow> 0 < n \<and> fair cap (n - 1) es"

fun transfer ::
  "('c \<Rightarrow> 's \<Rightarrow> 's option) \<Rightarrow> ('s \<Rightarrow> ('c list \<times> 's) option) \<Rightarrow> 'c event list \<Rightarrow> 's \<Rightarrow> ('c list \<times> 's) option"
where
  "transfer put get [] s = Some ([], s)"
| "transfer put get (Put c # es) s = do { s1 \<leftarrow> put c s; transfer put get es s1 }"
| "transfer put get (Get # es) s = do {
     (cs, s1) \<leftarrow> get s;
     (ds, s2) \<leftarrow> transfer put get es s1;
     Some (cs @ ds, s2) }"

locale channel =
  fixes inv :: "'s \<Rightarrow> bool"
    and contents :: "'s \<Rightarrow> 'c list"
    and cap :: nat
    and budget :: "'s \<Rightarrow> enat"
    and put :: "'c \<Rightarrow> 's \<Rightarrow> 's option"
    and get :: "'s \<Rightarrow> ('c list \<times> 's) option"
  assumes put_law: "\<lbrakk>inv s; length (contents s) < cap; 0 < budget s\<rbrakk> \<Longrightarrow>
      \<exists>s1. put c s = Some s1 \<and> inv s1 \<and> contents s1 = contents s @ [c] \<and> budget s \<le> eSuc (budget s1)"
    and get_law: "\<lbrakk>inv s; contents s = c # cs\<rbrakk> \<Longrightarrow>
      \<exists>s1. get s = Some ([c], s1) \<and> inv s1 \<and> contents s1 = cs \<and> budget s \<le> budget s1"
begin

lemma transfer_fifo:
  "\<lbrakk>inv s; fair cap (length (contents s)) es; enat (length (sent es)) \<le> budget s\<rbrakk> \<Longrightarrow>
     \<exists>cs s1. transfer put get es s = Some (cs, s1) \<and> inv s1 \<and>
       cs @ contents s1 = contents s @ sent es"
proof (induction es arbitrary: s rule: sent.induct)
  case (2 c es)
  then have "0 < budget s" "length (contents s) < cap"
    by (cases "budget s"; simp add: zero_enat_def)+
  then obtain s1 where s1: "put c s = Some s1" "inv s1" "contents s1 = contents s @ [c]"
    "budget s \<le> eSuc (budget s1)" using put_law 2(2) by blast
  have "eSuc (enat (length (sent es))) \<le> eSuc (budget s1)"
    using 2(4) s1(4) by (simp add: eSuc_enat)
  then have "enat (length (sent es)) \<le> budget s1" by simp
  then show ?case using 2 s1 by force
next
  case (3 es)
  then obtain c ds where c: "contents s = c # ds" by (cases "contents s") auto
  then obtain s1 where "get s = Some ([c], s1)" "inv s1" "contents s1 = ds" "budget s \<le> budget s1"
    using get_law 3 by blast
  then show ?case using 3 c by force
qed simp

end

text \<open>A channel that can be polled answers at once, with nothing, when it is empty.\<close>

locale polled_channel = channel +
  assumes empty_law: "\<lbrakk>inv s; contents s = []\<rbrakk> \<Longrightarrow> get s = Some ([], s)"

end
