(* ===== verification/Keyboard.thy ===== *)
theory Keyboard
  imports Channel
begin

text \<open>
  Keyboard and terminal input: the interrupt \<^verbatim>\<open>kernel/trap/irq_kbd.c\<close>, the scan code parser
  \<^verbatim>\<open>kernel/char/keyboard.c\<close> with its key map \<^verbatim>\<open>include/fuckOS/keymap.h\<close>, and the input queue
  of \<^verbatim>\<open>kernel/char/tty_io.c\<close>. The pointers into the byte ring and into the queue are
  indexes; an access outside an array is \<open>None\<close>. The byte that \<^verbatim>\<open>inb\<close> reads from the
  controller is an argument of the handler. The theory shows that no sequence of bytes can
  break the rings, that the text typed on the main block of keys arrives in the queue, and
  how the two-byte codes of the extended keys are lost.
\<close>

named_theorems keys \<open>key codes and flags\<close>

section \<open>\<^verbatim>\<open>keyboard.h\<close> and \<^verbatim>\<open>keymap.h\<close>\<close>

definition KB_IN_BYTES :: nat where "KB_IN_BYTES = 32"
definition MAP_COLS :: nat where "MAP_COLS = 3"
definition NR_SCAN_CODES :: nat where "NR_SCAN_CODES = 0x80"
definition FLAG_BREAK :: u8 where "FLAG_BREAK = 0x0080"
definition FLAG_EXT :: u32 where "FLAG_EXT = 0x0100"
definition FLAG_SHIFT_L :: u32 where "FLAG_SHIFT_L = 0x0200"
definition FLAG_SHIFT_R :: u32 where "FLAG_SHIFT_R = 0x0400"
definition FLAG_CTRL_L :: u32 where "FLAG_CTRL_L = 0x0800"
definition FLAG_CTRL_R :: u32 where "FLAG_CTRL_R = 0x1000"
definition FLAG_ALT_L :: u32 where "FLAG_ALT_L = 0x2000"
definition FLAG_ALT_R :: u32 where "FLAG_ALT_R = 0x4000"
definition FLAG_PAD :: u32 where "FLAG_PAD = 0x8000"
definition MASK_RAW :: u32 where "MASK_RAW = 0x01FF"
definition ESC :: u32 where "ESC = 0x01 + FLAG_EXT"
definition TAB :: u32 where "TAB = 0x02 + FLAG_EXT"
definition ENTER :: u32 where "ENTER = 0x03 + FLAG_EXT"
definition BACKSPACE :: u32 where "BACKSPACE = 0x04 + FLAG_EXT"
definition GUI_L :: u32 where "GUI_L = 0x05 + FLAG_EXT"
definition GUI_R :: u32 where "GUI_R = 0x06 + FLAG_EXT"
definition APPS :: u32 where "APPS = 0x07 + FLAG_EXT"
definition SHIFT_L :: u32 where "SHIFT_L = 0x08 + FLAG_EXT"
definition SHIFT_R :: u32 where "SHIFT_R = 0x09 + FLAG_EXT"
definition CTRL_L :: u32 where "CTRL_L = 0x0A + FLAG_EXT"
definition CTRL_R :: u32 where "CTRL_R = 0x0B + FLAG_EXT"
definition ALT_L :: u32 where "ALT_L = 0x0C + FLAG_EXT"
definition ALT_R :: u32 where "ALT_R = 0x0D + FLAG_EXT"
definition CAPS_LOCK :: u32 where "CAPS_LOCK = 0x0E + FLAG_EXT"
definition NUM_LOCK :: u32 where "NUM_LOCK = 0x0F + FLAG_EXT"
definition SCROLL_LOCK :: u32 where "SCROLL_LOCK = 0x10 + FLAG_EXT"
definition F1 :: u32 where "F1 = 0x11 + FLAG_EXT"
definition F2 :: u32 where "F2 = 0x12 + FLAG_EXT"
definition F3 :: u32 where "F3 = 0x13 + FLAG_EXT"
definition F4 :: u32 where "F4 = 0x14 + FLAG_EXT"
definition F5 :: u32 where "F5 = 0x15 + FLAG_EXT"
definition F6 :: u32 where "F6 = 0x16 + FLAG_EXT"
definition F7 :: u32 where "F7 = 0x17 + FLAG_EXT"
definition F8 :: u32 where "F8 = 0x18 + FLAG_EXT"
definition F9 :: u32 where "F9 = 0x19 + FLAG_EXT"
definition F10 :: u32 where "F10 = 0x1A + FLAG_EXT"
definition F11 :: u32 where "F11 = 0x1B + FLAG_EXT"
definition F12 :: u32 where "F12 = 0x1C + FLAG_EXT"
definition PRINTSCREEN :: u32 where "PRINTSCREEN = 0x1D + FLAG_EXT"
definition PAUSEBREAK :: u32 where "PAUSEBREAK = 0x1E + FLAG_EXT"
definition INSERT :: u32 where "INSERT = 0x1F + FLAG_EXT"
definition DELETE :: u32 where "DELETE = 0x20 + FLAG_EXT"
definition HOME :: u32 where "HOME = 0x21 + FLAG_EXT"
definition END :: u32 where "END = 0x22 + FLAG_EXT"
definition PAGEUP :: u32 where "PAGEUP = 0x23 + FLAG_EXT"
definition PAGEDOWN :: u32 where "PAGEDOWN = 0x24 + FLAG_EXT"
definition UP :: u32 where "UP = 0x25 + FLAG_EXT"
definition DOWN :: u32 where "DOWN = 0x26 + FLAG_EXT"
definition LEFT :: u32 where "LEFT = 0x27 + FLAG_EXT"
definition RIGHT :: u32 where "RIGHT = 0x28 + FLAG_EXT"
definition POWER :: u32 where "POWER = 0x29 + FLAG_EXT"
definition SLEEP :: u32 where "SLEEP = 0x2A + FLAG_EXT"
definition WAKE :: u32 where "WAKE = 0x2B + FLAG_EXT"
definition PAD_SLASH :: u32 where "PAD_SLASH = 0x2C + FLAG_EXT"
definition PAD_STAR :: u32 where "PAD_STAR = 0x2D + FLAG_EXT"
definition PAD_MINUS :: u32 where "PAD_MINUS = 0x2E + FLAG_EXT"
definition PAD_PLUS :: u32 where "PAD_PLUS = 0x2F + FLAG_EXT"
definition PAD_ENTER :: u32 where "PAD_ENTER = 0x30 + FLAG_EXT"
definition PAD_DOT :: u32 where "PAD_DOT = 0x31 + FLAG_EXT"
definition PAD_0 :: u32 where "PAD_0 = 0x32 + FLAG_EXT"
definition PAD_1 :: u32 where "PAD_1 = 0x33 + FLAG_EXT"
definition PAD_2 :: u32 where "PAD_2 = 0x34 + FLAG_EXT"
definition PAD_3 :: u32 where "PAD_3 = 0x35 + FLAG_EXT"
definition PAD_4 :: u32 where "PAD_4 = 0x36 + FLAG_EXT"
definition PAD_5 :: u32 where "PAD_5 = 0x37 + FLAG_EXT"
definition PAD_6 :: u32 where "PAD_6 = 0x38 + FLAG_EXT"
definition PAD_7 :: u32 where "PAD_7 = 0x39 + FLAG_EXT"
definition PAD_8 :: u32 where "PAD_8 = 0x3A + FLAG_EXT"
definition PAD_9 :: u32 where "PAD_9 = 0x3B + FLAG_EXT"
definition PAD_UP :: u32 where "PAD_UP = PAD_8"
definition PAD_DOWN :: u32 where "PAD_DOWN = PAD_2"
definition PAD_LEFT :: u32 where "PAD_LEFT = PAD_4"
definition PAD_RIGHT :: u32 where "PAD_RIGHT = PAD_6"
definition PAD_HOME :: u32 where "PAD_HOME = PAD_7"
definition PAD_END :: u32 where "PAD_END = PAD_1"
definition PAD_PAGEUP :: u32 where "PAD_PAGEUP = PAD_9"
definition PAD_PAGEDOWN :: u32 where "PAD_PAGEDOWN = PAD_3"
definition PAD_INS :: u32 where "PAD_INS = PAD_0"
definition PAD_MID :: u32 where "PAD_MID = PAD_5"
definition PAD_DEL :: u32 where "PAD_DEL = PAD_DOT"

definition keymap :: "u32 list" where
  "keymap = [
   0, 0, 0, ESC, ESC, 0,
   0x31, 0x21, 0, 0x32, 0x40, 0,
   0x33, 0x23, 0, 0x34, 0x24, 0,
   0x35, 0x25, 0, 0x36, 0x5E, 0,
   0x37, 0x26, 0, 0x38, 0x2A, 0,
   0x39, 0x28, 0, 0x30, 0x29, 0,
   0x2D, 0x5F, 0, 0x3D, 0x2B, 0,
   BACKSPACE, BACKSPACE, 0, TAB, TAB, 0,
   0x71, 0x51, 0, 0x77, 0x57, 0,
   0x65, 0x45, 0, 0x72, 0x52, 0,
   0x74, 0x54, 0, 0x79, 0x59, 0,
   0x75, 0x55, 0, 0x69, 0x49, 0,
   0x6F, 0x4F, 0, 0x70, 0x50, 0,
   0x5B, 0x7B, 0, 0x5D, 0x7D, 0,
   ENTER, ENTER, PAD_ENTER, CTRL_L, CTRL_L, CTRL_R,
   0x61, 0x41, 0, 0x73, 0x53, 0,
   0x64, 0x44, 0, 0x66, 0x46, 0,
   0x67, 0x47, 0, 0x68, 0x48, 0,
   0x6A, 0x4A, 0, 0x6B, 0x4B, 0,
   0x6C, 0x4C, 0, 0x3B, 0x3A, 0,
   0x27, 0x22, 0, 0x60, 0x7E, 0,
   SHIFT_L, SHIFT_L, 0, 0x5C, 0x7C, 0,
   0x7A, 0x5A, 0, 0x78, 0x58, 0,
   0x63, 0x43, 0, 0x76, 0x56, 0,
   0x62, 0x42, 0, 0x6E, 0x4E, 0,
   0x6D, 0x4D, 0, 0x2C, 0x3C, 0,
   0x2E, 0x3E, 0, 0x2F, 0x3F, PAD_SLASH,
   SHIFT_R, SHIFT_R, 0, 0x2A, 0x2A, 0,
   ALT_L, ALT_L, ALT_R, 0x20, 0x20, 0,
   CAPS_LOCK, CAPS_LOCK, 0, F1, F1, 0,
   F2, F2, 0, F3, F3, 0,
   F4, F4, 0, F5, F5, 0,
   F6, F6, 0, F7, F7, 0,
   F8, F8, 0, F9, F9, 0,
   F10, F10, 0, NUM_LOCK, NUM_LOCK, 0,
   SCROLL_LOCK, SCROLL_LOCK, 0, PAD_HOME, 0x37, HOME,
   PAD_UP, 0x38, UP, PAD_PAGEUP, 0x39, PAGEUP,
   PAD_MINUS, 0x2D, 0, PAD_LEFT, 0x34, LEFT,
   PAD_MID, 0x35, 0, PAD_RIGHT, 0x36, RIGHT,
   PAD_PLUS, 0x2B, 0, PAD_END, 0x31, END,
   PAD_DOWN, 0x32, DOWN, PAD_PAGEDOWN, 0x33, PAGEDOWN,
   PAD_INS, 0x30, INSERT, PAD_DOT, 0x2E, DELETE,
   0, 0, 0, 0, 0, 0,
   0, 0, 0, F11, F11, 0,
   F12, F12, 0, 0, 0, 0,
   0, 0, 0, 0, 0, GUI_L,
   0, 0, GUI_R, 0, 0, APPS,
   0, 0, 0, 0, 0, 0,
   0, 0, 0, 0, 0, 0,
   0, 0, 0, 0, 0, 0,
   0, 0, 0, 0, 0, 0,
   0, 0, 0, 0, 0, 0,
   0, 0, 0, 0, 0, 0,
   0, 0, 0, 0, 0, 0,
   0, 0, 0, 0, 0, 0,
   0, 0, 0, 0, 0, 0,
   0, 0, 0, 0, 0, 0,
   0, 0, 0, 0, 0, 0,
   0, 0, 0, 0, 0, 0,
   0, 0, 0, 0, 0, 0,
   0, 0, 0, 0, 0, 0,
   0, 0, 0, 0, 0, 0,
   0, 0, 0, 0, 0, 0,
   0, 0, 0, 0, 0, 0]"

section \<open>State\<close>

definition TTY_BUF_SIZE :: nat where "TTY_BUF_SIZE = 256"

record kbdbuf =
  p_head :: nat
  p_tail :: nat
  count :: int
  kb_bytes :: "u8 list"

record tty_queue =
  q_head :: u32
  q_tail :: u32
  q_buf :: "u32 list"

record kbdst =
  kbd_buf :: kbdbuf
  code_with_E0 :: int
  shift_l :: int
  shift_r :: int
  alt_l :: int
  alt_r :: int
  ctrl_l :: int
  ctrl_r :: int
  caps_lock :: int
  num_lock :: int
  scroll_lock :: int
  column :: nat
  read_q :: tty_queue

section \<open>The byte ring\<close>

definition keyboard_init :: "kbdst \<Rightarrow> kbdst" where
  "keyboard_init st = st\<lparr>kbd_buf := (kbd_buf st)\<lparr>count := 0, p_head := 0, p_tail := 0\<rparr>\<rparr>"

definition keyboard_read_to_buff :: "u8 \<Rightarrow> kbdst \<Rightarrow> kbdst option" where
  "keyboard_read_to_buff scancode st =
     (let k = kbd_buf st in
      if count k < int KB_IN_BYTES then
        if p_head k < length (kb_bytes k) then
          let h = p_head k + 1
          in Some (st\<lparr>kbd_buf := k\<lparr>p_head := (if h = KB_IN_BYTES then 0 else h),
                                 count := count k + 1,
                                 kb_bytes := (kb_bytes k)[p_head k := scancode]\<rparr>\<rparr>)
        else None
      else Some st)"

definition get_byte_from_kb_buf :: "kbdst \<Rightarrow> (u8 \<times> kbdst) option" where
  "get_byte_from_kb_buf st =
     (let k = kbd_buf st in
      if p_tail k < length (kb_bytes k) then
        let t = p_tail k + 1
        in Some (kb_bytes k ! p_tail k,
                 st\<lparr>kbd_buf := k\<lparr>p_tail := (if t = KB_IN_BYTES then 0 else t),
                               count := count k - 1\<rparr>\<rparr>)
      else None)"

section \<open>The terminal queue\<close>

definition tty_put :: "u32 \<Rightarrow> tty_queue \<Rightarrow> tty_queue option" where
  "tty_put key q =
     (if unat (q_tail q) < length (q_buf q) then
        let t = q_tail q + 1
        in Some (q\<lparr>q_tail := (if TTY_BUF_SIZE \<le> unat t then 0 else t),
                  q_buf := (q_buf q)[unat (q_tail q) := key]\<rparr>)
      else None)"

definition handle_key :: "u32 \<Rightarrow> tty_queue \<Rightarrow> tty_queue option" where
  "handle_key key q =
     (if key AND FLAG_EXT = 0 then
        if key AND FLAG_CTRL_L \<noteq> 0 then
          if key AND 0xFF = 0x64 then tty_put (- of_int (errno_val EEOF)) q else Some q
        else tty_put (key AND 0xFF) q
      else
        let raw_code = key AND MASK_RAW in
        if raw_code = ENTER then tty_put 0x0A q
        else if raw_code = BACKSPACE then tty_put 0x08 q
        else Some q)"

fun tty_read_loop :: "nat \<Rightarrow> nat \<Rightarrow> nat \<Rightarrow> tty_queue \<Rightarrow> (u32 list \<times> tty_queue) option" where
  "tty_read_loop 0 start en q = Some ([], q)"
| "tty_read_loop (Suc n) start en q =
     (if start = en then Some ([], q)
      else if start < length (q_buf q) then
        let h = q_head q + 1 in do {
          (cs, q1) \<leftarrow> tty_read_loop n (start + 1) en
                        (q\<lparr>q_head := (if TTY_BUF_SIZE \<le> unat h then 0 else h)\<rparr>);
          Some (q_buf q ! start # cs, q1) }
      else None)"

definition tty_read :: "int \<Rightarrow> tty_queue \<Rightarrow> (u32 list \<times> tty_queue) option" where
  "tty_read nr q = tty_read_loop (nat nr) (unat (q_head q)) (unat (q_tail q)) q"

section \<open>The scan code parser\<close>

fun pausebreak_bytes :: "u8 list \<Rightarrow> kbdst \<Rightarrow> (bool \<times> kbdst) option" where
  "pausebreak_bytes [] st = Some (True, st)"
| "pausebreak_bytes (b # bs) st = do {
     (c, st1) \<leftarrow> get_byte_from_kb_buf st;
     if c \<noteq> b then Some (False, st1) else pausebreak_bytes bs st1 }"

definition printscreen_rest ::
  "u8 \<Rightarrow> int \<Rightarrow> u32 \<Rightarrow> int \<Rightarrow> kbdst \<Rightarrow> (u8 \<times> u32 \<times> int \<times> kbdst) option" where
  "printscreen_rest final mk0 key mk st = do {
     (sc, st1) \<leftarrow> get_byte_from_kb_buf (st\<lparr>code_with_E0 := 0\<rparr>);
     if sc = 0xE0 then do {
       (sc1, st2) \<leftarrow> get_byte_from_kb_buf (st1\<lparr>code_with_E0 := 1\<rparr>);
       if sc1 = final then Some (sc1, PRINTSCREEN, mk0, st2) else Some (sc1, key, mk, st2) }
     else Some (sc, key, mk, st1) }"

definition scan_prefix :: "u32 \<Rightarrow> int \<Rightarrow> kbdst \<Rightarrow> (u8 \<times> u32 \<times> int \<times> kbdst) option" where
  "scan_prefix key mk st = do {
     (sc, st1) \<leftarrow> get_byte_from_kb_buf (st\<lparr>code_with_E0 := 0\<rparr>);
     if sc = 0xE1 then do {
       (is_pausebreak, st2) \<leftarrow> pausebreak_bytes [0x1D, 0x45, 0xE1, 0x9D, 0xC5] st1;
       Some (sc, if is_pausebreak then PAUSEBREAK else key, mk, st2) }
     else if sc = 0xE0 then do {
       (sc1, st2) \<leftarrow> get_byte_from_kb_buf (st1\<lparr>code_with_E0 := 1\<rparr>);
       if sc1 = 0x2A then printscreen_rest 0x37 1 key mk st2
       else if sc1 = 0xB7 then printscreen_rest 0xAA 0 key mk st2
       else Some (sc1, key, mk, st2) }
     else Some (sc, key, mk, st1) }"

definition set_modifier :: "u32 \<Rightarrow> int \<Rightarrow> kbdst \<Rightarrow> kbdst" where
  "set_modifier key mk st =
     (if key = SHIFT_L then st\<lparr>shift_l := mk\<rparr>
      else if key = SHIFT_R then st\<lparr>shift_r := mk\<rparr>
      else if key = CTRL_L then st\<lparr>ctrl_l := mk\<rparr>
      else if key = CTRL_R then st\<lparr>ctrl_r := mk\<rparr>
      else if key = ALT_L then st\<lparr>alt_l := mk\<rparr>
      else if key = ALT_R then st\<lparr>alt_l := mk\<rparr>
      else if key = CAPS_LOCK then
        if mk \<noteq> 0 then st\<lparr>caps_lock := of_bool (caps_lock st = 0)\<rparr> else st
      else if key = NUM_LOCK then
        if mk \<noteq> 0 then st\<lparr>num_lock := of_bool (num_lock st = 0)\<rparr> else st
      else if key = SCROLL_LOCK then
        if mk \<noteq> 0 then st\<lparr>scroll_lock := of_bool (scroll_lock st = 0)\<rparr> else st
      else st)"

definition key_column :: "u32 \<Rightarrow> kbdst \<Rightarrow> nat" where
  "key_column k0 st =
     (let caps = (shift_l st \<noteq> 0 \<or> shift_r st \<noteq> 0);
          caps1 = (if caps_lock st \<noteq> 0 \<and> 0x61 \<le> k0 \<and> k0 \<le> 0x7A then \<not> caps else caps)
      in if code_with_E0 st \<noteq> 0 then 2 else if caps1 then 1 else 0)"

definition parse_key :: "u8 \<Rightarrow> kbdst \<Rightarrow> u32 \<times> int \<times> kbdst" where
  "parse_key sc st =
     (let mk = (if sc AND FLAG_BREAK \<noteq> 0 then 0 else 1);
          row = unat (sc AND 0x7F) * MAP_COLS;
          col = key_column (keymap ! row) st;
          key = keymap ! (row + col)
      in (key, mk, set_modifier key mk (st\<lparr>column := col\<rparr>)))"

definition pad_key :: "u32 \<Rightarrow> kbdst \<Rightarrow> bool \<times> u32" where
  "pad_key key st =
     (if PAD_SLASH \<le> key \<and> key \<le> PAD_9 then
        (True,
         if key = PAD_SLASH then 0x2F
         else if key = PAD_STAR then 0x2A
         else if key = PAD_MINUS then 0x2D
         else if key = PAD_PLUS then 0x2B
         else if key = PAD_ENTER then ENTER
         else if num_lock st \<noteq> 0 then
           if PAD_0 \<le> key \<and> key \<le> PAD_9 then key - PAD_0 + 0x30
           else if key = PAD_DOT then 0x2E
           else key
         else
           if key = PAD_HOME then HOME
           else if key = PAD_END then END
           else if key = PAD_PAGEUP then PAGEUP
           else if key = PAD_PAGEDOWN then PAGEDOWN
           else if key = PAD_INS then INSERT
           else if key = PAD_UP then UP
           else if key = PAD_DOWN then DOWN
           else if key = PAD_LEFT then LEFT
           else if key = PAD_RIGHT then RIGHT
           else if key = PAD_DOT then DELETE
           else key)
      else (False, key))"

definition key_flags :: "bool \<Rightarrow> u32 \<Rightarrow> kbdst \<Rightarrow> u32" where
  "key_flags pad key st =
     key OR (if shift_l st \<noteq> 0 then FLAG_SHIFT_L else 0)
         OR (if shift_r st \<noteq> 0 then FLAG_SHIFT_R else 0)
         OR (if ctrl_l st \<noteq> 0 then FLAG_CTRL_L else 0)
         OR (if ctrl_r st \<noteq> 0 then FLAG_CTRL_R else 0)
         OR (if alt_l st \<noteq> 0 then FLAG_ALT_L else 0)
         OR (if alt_r st \<noteq> 0 then FLAG_ALT_R else 0)
         OR (if pad then FLAG_PAD else 0)"

definition emit_key :: "u32 \<Rightarrow> int \<Rightarrow> kbdst \<Rightarrow> (u32 \<times> kbdst) option" where
  "emit_key key mk st =
     (if mk \<noteq> 0 then
        let (pad, key1) = pad_key key st;
            key2 = key_flags pad key1 st
        in do { q \<leftarrow> handle_key key2 (read_q st); Some (key2, st\<lparr>read_q := q\<rparr>) }
      else Some (key, st))"

definition keyboard_step :: "u32 \<Rightarrow> int \<Rightarrow> kbdst \<Rightarrow> (u32 \<times> int \<times> kbdst) option" where
  "keyboard_step key mk st = do {
     (sc, key1, mk1, st1) \<leftarrow> scan_prefix key mk st;
     let (key2, mk2, st2) =
       (if key1 \<noteq> PAUSEBREAK \<and> key1 \<noteq> PRINTSCREEN then parse_key sc st1 else (key1, mk1, st1));
     (key3, st3) \<leftarrow> emit_key key2 mk2 st2;
     Some (key3, mk2, st3) }"

partial_function (option) keyboard_loop :: "u32 \<Rightarrow> int \<Rightarrow> kbdst \<Rightarrow> kbdst option" where
  "keyboard_loop key mk st =
     (if 0 < count (kbd_buf st) then do {
        (key1, mk1, st1) \<leftarrow> keyboard_step key mk st;
        keyboard_loop key1 mk1 st1 }
      else Some st)"

definition keyboard_read :: "kbdst \<Rightarrow> kbdst option" where
  "keyboard_read st = keyboard_loop 0 0 st"

definition kbd_handler :: "u8 \<Rightarrow> kbdst \<Rightarrow> kbdst option" where
  "kbd_handler scancode st = do { st1 \<leftarrow> keyboard_read_to_buff scancode st; keyboard_read st1 }"

fun kbd_handlers :: "u8 list \<Rightarrow> kbdst \<Rightarrow> kbdst option" where
  "kbd_handlers [] st = Some st"
| "kbd_handlers (b # bs) st = do { st1 \<leftarrow> kbd_handler b st; kbd_handlers bs st1 }"


declare KB_IN_BYTES_def [keys] MAP_COLS_def [keys] NR_SCAN_CODES_def [keys] FLAG_BREAK_def [keys] FLAG_EXT_def [keys] FLAG_SHIFT_L_def [keys] FLAG_SHIFT_R_def [keys] FLAG_CTRL_L_def [keys] FLAG_CTRL_R_def [keys] FLAG_ALT_L_def [keys] FLAG_ALT_R_def [keys] FLAG_PAD_def [keys]
  MASK_RAW_def [keys] ESC_def [keys] TAB_def [keys] ENTER_def [keys] BACKSPACE_def [keys]
  GUI_L_def [keys] GUI_R_def [keys] APPS_def [keys] SHIFT_L_def [keys] SHIFT_R_def [keys]
  CTRL_L_def [keys] CTRL_R_def [keys] ALT_L_def [keys] ALT_R_def [keys] CAPS_LOCK_def [keys]
  NUM_LOCK_def [keys] SCROLL_LOCK_def [keys] F1_def [keys] F2_def [keys] F3_def [keys] F4_def [keys] F5_def [keys] F6_def [keys] F7_def [keys] F8_def [keys] F9_def [keys] F10_def [keys]
  F11_def [keys] F12_def [keys] PRINTSCREEN_def [keys] PAUSEBREAK_def [keys] INSERT_def [keys]
  DELETE_def [keys] HOME_def [keys] END_def [keys] PAGEUP_def [keys] PAGEDOWN_def [keys] UP_def [keys] DOWN_def [keys] LEFT_def [keys] RIGHT_def [keys] POWER_def [keys] SLEEP_def [keys]
  WAKE_def [keys] PAD_SLASH_def [keys] PAD_STAR_def [keys] PAD_MINUS_def [keys] PAD_PLUS_def [keys] PAD_ENTER_def [keys] PAD_DOT_def [keys] PAD_0_def [keys] PAD_1_def [keys] PAD_2_def [keys] PAD_3_def [keys] PAD_4_def [keys] PAD_5_def [keys] PAD_6_def [keys] PAD_7_def [keys]
  PAD_8_def [keys] PAD_9_def [keys] PAD_UP_def [keys] PAD_DOWN_def [keys] PAD_LEFT_def [keys]
  PAD_RIGHT_def [keys] PAD_HOME_def [keys] PAD_END_def [keys] PAD_PAGEUP_def [keys]
  PAD_PAGEDOWN_def [keys] PAD_INS_def [keys] PAD_MID_def [keys] PAD_DEL_def [keys]

section \<open>Well-formed states\<close>

definition bit01 :: "int \<Rightarrow> bool" where
  "bit01 x \<longleftrightarrow> x = 0 \<or> x = 1"

definition ring_ok :: "kbdbuf \<Rightarrow> bool" where
  "ring_ok k \<longleftrightarrow> length (kb_bytes k) = KB_IN_BYTES \<and> p_head k < KB_IN_BYTES \<and>
     p_tail k < KB_IN_BYTES \<and> count k \<le> int KB_IN_BYTES \<and>
     int (p_head k) = (int (p_tail k) + count k) mod int KB_IN_BYTES"

definition queue_shape :: "tty_queue \<Rightarrow> bool" where
  "queue_shape q \<longleftrightarrow> length (q_buf q) = TTY_BUF_SIZE \<and> unat (q_head q) < TTY_BUF_SIZE \<and>
     unat (q_tail q) < TTY_BUF_SIZE"

definition queue_ok :: "tty_queue \<Rightarrow> bool" where
  "queue_ok q \<longleftrightarrow> queue_shape q \<and>
     (\<forall>c \<in> set (q_buf q). c < 256 \<or> c = - of_int (errno_val EEOF))"

definition flags_ok :: "kbdst \<Rightarrow> bool" where
  "flags_ok st \<longleftrightarrow> bit01 (code_with_E0 st) \<and> bit01 (shift_l st) \<and> bit01 (shift_r st) \<and>
     bit01 (ctrl_l st) \<and> bit01 (ctrl_r st) \<and> bit01 (alt_l st) \<and> bit01 (alt_r st) \<and>
     bit01 (caps_lock st) \<and> bit01 (num_lock st) \<and> bit01 (scroll_lock st) \<and>
     column st < MAP_COLS"

definition kbd_ok :: "kbdst \<Rightarrow> bool" where
  "kbd_ok st \<longleftrightarrow> ring_ok (kbd_buf st) \<and> flags_ok st \<and> queue_ok (read_q st)"

lemma bit01_of_bool [simp]: "bit01 (of_bool b)"
  by (simp add: bit01_def)

lemma get_byte_ok:
  assumes "kbd_ok st"
  obtains c st1 where "get_byte_from_kb_buf st = Some (c, st1)" "kbd_ok st1"
    "count (kbd_buf st1) = count (kbd_buf st) - 1"
proof (rule that)
  let ?k = "kbd_buf st"
  let ?t = "if p_tail ?k + 1 = KB_IN_BYTES then 0 else p_tail ?k + 1"
  have b: "ring_ok ?k" using assms by (simp add: kbd_ok_def)
  then show "get_byte_from_kb_buf st = Some (kb_bytes ?k ! p_tail ?k,
      st\<lparr>kbd_buf := ?k\<lparr>p_tail := ?t, count := count ?k - 1\<rparr>\<rparr>)"
    by (simp add: get_byte_from_kb_buf_def ring_ok_def Let_def)
  have "int ?t = (int (p_tail ?k) + 1) mod 32"
    using b by (auto simp: ring_ok_def KB_IN_BYTES_def)
  then have "(int ?t + (count ?k - 1)) mod 32 = (int (p_tail ?k) + count ?k) mod 32"
    by (simp add: mod_simps)
  then show "kbd_ok (st\<lparr>kbd_buf := ?k\<lparr>p_tail := ?t, count := count ?k - 1\<rparr>\<rparr>)"
    using assms b by (auto simp: kbd_ok_def ring_ok_def flags_ok_def KB_IN_BYTES_def)
qed simp

lemma read_to_buff_ok:
  assumes "kbd_ok st"
  obtains st1 where "keyboard_read_to_buff b st = Some st1" "kbd_ok st1"
    "count (kbd_buf st) \<le> count (kbd_buf st1)"
proof (cases "count (kbd_buf st) < int KB_IN_BYTES")
  case True
  let ?k = "kbd_buf st"
  let ?h = "if p_head ?k + 1 = KB_IN_BYTES then 0 else p_head ?k + 1"
  have r: "ring_ok ?k" using assms by (simp add: kbd_ok_def)
  have "int ?h = (int (p_head ?k) + 1) mod 32"
    using r by (auto simp: ring_ok_def KB_IN_BYTES_def)
  then have "int ?h = (int (p_tail ?k) + (count ?k + 1)) mod 32"
    using r by (simp add: ring_ok_def KB_IN_BYTES_def mod_simps add.assoc)
  then have o1: "kbd_ok (st\<lparr>kbd_buf := ?k\<lparr>p_head := ?h, count := count ?k + 1,
      kb_bytes := (kb_bytes ?k)[p_head ?k := b]\<rparr>\<rparr>)"
    using assms r True by (auto simp: kbd_ok_def ring_ok_def flags_ok_def KB_IN_BYTES_def)
  show thesis
    by (rule that [OF _ o1]) (use r True in \<open>simp_all add: keyboard_read_to_buff_def ring_ok_def Let_def\<close>)
next
  case False
  then show thesis using that assms by (simp add: keyboard_read_to_buff_def Let_def)
qed


lemma unat_ring_next:
  "unat (t::u32) < 256 \<Longrightarrow> unat (if TTY_BUF_SIZE \<le> unat (t + 1) then 0 else t + 1) = (unat t + 1) mod 256"
  by (auto simp: TTY_BUF_SIZE_def unat_word_ariths(1) mod_if)

lemma tty_put_shape:
  assumes "queue_shape q"
  shows "\<exists>q1. tty_put c q = Some q1 \<and> queue_shape q1 \<and> q_buf q1 = (q_buf q)[unat (q_tail q) := c]"
  using assms unat_ring_next [of "q_tail q"]
  by (simp add: queue_shape_def tty_put_def TTY_BUF_SIZE_def Let_def)

lemma tty_put_ok:
  assumes "queue_ok q" "c < 256 \<or> c = - of_int (errno_val EEOF)"
  obtains q1 where "tty_put c q = Some q1" "queue_ok q1"
proof -
  obtain q1 where q1: "tty_put c q = Some q1" "queue_shape q1" "q_buf q1 = (q_buf q)[unat (q_tail q) := c]"
    using tty_put_shape assms(1) queue_ok_def by blast
  moreover have "\<forall>d \<in> set ((q_buf q)[unat (q_tail q) := c]). d < 256 \<or> d = - of_int (errno_val EEOF)"
    using assms set_update_subset_insert unfolding queue_ok_def by fast
  ultimately show thesis using that by (simp add: queue_ok_def)
qed

lemma handle_key_ok:
  assumes "queue_ok q"
  obtains q1 where "handle_key key q = Some q1" "queue_ok q1"
proof -
  have "key AND 0xFF < 256"
    using word_and_le1 [of key "0xFF"] by (rule le_less_trans) simp
  then have l: "key AND 0xFF < 256 \<or> key AND 0xFF = - of_int (errno_val EEOF)" ..
  have e: "\<exists>q1. tty_put c q = Some q1 \<and> queue_ok q1"
    if "c < 256 \<or> c = - of_int (errno_val EEOF)" for c
    using tty_put_ok [OF assms that] by blast
  have "\<exists>q1. handle_key key q = Some q1 \<and> queue_ok q1"
    unfolding handle_key_def Let_def
    by (simp only: split: if_split) (intro conjI impI e l; simp add: assms)
  then show thesis using that by blast
qed

lemma pausebreak_ok:
  assumes "kbd_ok st"
  shows "\<exists>b st1. pausebreak_bytes bs st = Some (b, st1) \<and> kbd_ok st1 \<and>
    count (kbd_buf st) - int (length bs) \<le> count (kbd_buf st1) \<and>
    count (kbd_buf st1) \<le> count (kbd_buf st)"
  using assms
proof (induction bs arbitrary: st)
  case (Cons b bs)
  obtain c st1 where g: "get_byte_from_kb_buf st = Some (c, st1)" "kbd_ok st1"
    "count (kbd_buf st1) = count (kbd_buf st) - 1" using get_byte_ok [OF Cons.prems] .
  then show ?case using Cons.IH [of st1] by (cases "c = b") fastforce+
qed auto

lemma kbd_ok_E0 [simp]: "e = 0 \<or> e = 1 \<Longrightarrow> kbd_ok st \<Longrightarrow> kbd_ok (st\<lparr>code_with_E0 := e\<rparr>)"
  by (auto simp: kbd_ok_def flags_ok_def bit01_def)

lemma printscreen_ok:
  assumes "kbd_ok st" "bit01 mk" "bit01 mk0"
  shows "\<exists>sc key1 mk1 st1. printscreen_rest final mk0 key mk st = Some (sc, key1, mk1, st1) \<and>
    kbd_ok st1 \<and> bit01 mk1 \<and> count (kbd_buf st) - 2 \<le> count (kbd_buf st1) \<and>
    count (kbd_buf st1) < count (kbd_buf st)"
proof -
  obtain sc st1 where g: "get_byte_from_kb_buf (st\<lparr>code_with_E0 := 0\<rparr>) = Some (sc, st1)" "kbd_ok st1"
    "count (kbd_buf st1) = count (kbd_buf st) - 1"
    using get_byte_ok [of "st\<lparr>code_with_E0 := 0\<rparr>"] assms(1) by auto
  obtain sc1 st2 where h: "get_byte_from_kb_buf (st1\<lparr>code_with_E0 := 1\<rparr>) = Some (sc1, st2)"
    "kbd_ok st2" "count (kbd_buf st2) = count (kbd_buf st1) - 1"
    using get_byte_ok [of "st1\<lparr>code_with_E0 := 1\<rparr>"] g(2) by auto
  show ?thesis using g h assms by (auto simp: printscreen_rest_def)
qed

lemma scan_prefix_ok:
  assumes "kbd_ok st" "bit01 mk"
  shows "\<exists>sc key1 mk1 st1. scan_prefix key mk st = Some (sc, key1, mk1, st1) \<and>
    kbd_ok st1 \<and> bit01 mk1 \<and> count (kbd_buf st) - 6 \<le> count (kbd_buf st1) \<and>
    count (kbd_buf st1) < count (kbd_buf st)"
proof -
  obtain sc st1 where g: "get_byte_from_kb_buf (st\<lparr>code_with_E0 := 0\<rparr>) = Some (sc, st1)" "kbd_ok st1"
    "count (kbd_buf st1) = count (kbd_buf st) - 1"
    using get_byte_ok [of "st\<lparr>code_with_E0 := 0\<rparr>"] assms(1) by auto
  obtain sc1 st2 where h: "get_byte_from_kb_buf (st1\<lparr>code_with_E0 := 1\<rparr>) = Some (sc1, st2)"
    "kbd_ok st2" "count (kbd_buf st2) = count (kbd_buf st1) - 1"
    using get_byte_ok [of "st1\<lparr>code_with_E0 := 1\<rparr>"] g(2) by auto
  obtain b st3 where p: "pausebreak_bytes [0x1D, 0x45, 0xE1, 0x9D, 0xC5] st1 = Some (b, st3)"
    "kbd_ok st3" "count (kbd_buf st1) - 5 \<le> count (kbd_buf st3)"
    "count (kbd_buf st3) \<le> count (kbd_buf st1)"
    using pausebreak_ok [OF g(2), of "[0x1D, 0x45, 0xE1, 0x9D, 0xC5]"] by auto
  have ps: "\<exists>sc key1 mk1 st4. printscreen_rest final mk0 key mk st2 = Some (sc, key1, mk1, st4) \<and>
      kbd_ok st4 \<and> bit01 mk1 \<and> count (kbd_buf st) - 6 \<le> count (kbd_buf st4) \<and>
      count (kbd_buf st4) < count (kbd_buf st)" if "bit01 mk0" for final mk0
    using printscreen_ok [OF h(2) assms(2) that, of final key] g(3) h(3) by fastforce
  show ?thesis
    using g h p assms(2) ps [of 1 "0x37"] ps [of 0 "0xAA"]
    by (auto simp: scan_prefix_def bit01_def)
qed

lemma set_modifier_sel [simp]:
  "kbd_buf (set_modifier key mk st) = kbd_buf st" "read_q (set_modifier key mk st) = read_q st"
  by (simp_all add: set_modifier_def)

lemma set_modifier_flags: "flags_ok st \<Longrightarrow> bit01 mk \<Longrightarrow> flags_ok (set_modifier key mk st)"
  by (simp add: set_modifier_def flags_ok_def)

lemma parse_key_ok:
  assumes "kbd_ok st" "parse_key sc st = (key, mk, st1)"
  shows "kbd_ok st1" "bit01 mk" "kbd_buf st1 = kbd_buf st"
proof -
  have m: "mk = (if sc AND FLAG_BREAK \<noteq> 0 then 0 else 1)"
    and s1: "\<exists>k. st1 = set_modifier key mk (st\<lparr>column := key_column k st\<rparr>)"
    using assms(2) by (auto simp: parse_key_def Let_def)
  show b: "bit01 mk" using m by (simp add: bit01_def)
  have "flags_ok (st\<lparr>column := key_column k st\<rparr>)" for k
    using assms(1) by (simp add: kbd_ok_def flags_ok_def key_column_def MAP_COLS_def Let_def)
  then show "kbd_buf st1 = kbd_buf st" "kbd_ok st1"
    using s1 assms(1) set_modifier_flags [OF _ b] by (auto simp: kbd_ok_def)
qed

lemma keyboard_step_rest:
  assumes p: "scan_prefix key mk st = Some (sc, key1, mk1, st1)" "kbd_ok st1" "bit01 mk1"
  shows "\<exists>key2 mk2 st2. keyboard_step key mk st = Some (key2, mk2, st2) \<and> kbd_ok st2 \<and> bit01 mk2 \<and>
    kbd_buf st2 = kbd_buf st1"
proof -
  obtain key2 mk2 st2 where q: "(if key1 \<noteq> PAUSEBREAK \<and> key1 \<noteq> PRINTSCREEN then parse_key sc st1
      else (key1, mk1, st1)) = (key2, mk2, st2)" using prod_cases3 by blast
  then have k: "kbd_ok st2" "bit01 mk2" "kbd_buf st2 = kbd_buf st1"
    using p(2,3) parse_key_ok [OF p(2)] by (auto split: if_splits)
  obtain q1 where h: "handle_key (key_flags (fst (pad_key key2 st2)) (snd (pad_key key2 st2)) st2)
      (read_q st2) = Some q1" "queue_ok q1"
    using handle_key_ok k(1) kbd_ok_def by blast
  then have e: "\<exists>key3 st3. emit_key key2 mk2 st2 = Some (key3, st3) \<and> kbd_ok st3 \<and>
      kbd_buf st3 = kbd_buf st2"
    using k(1) by (auto simp: emit_key_def split_def Let_def kbd_ok_def flags_ok_def)
  then show ?thesis using p q k by (auto simp: keyboard_step_def Let_def)
qed

lemma keyboard_step_ok:
  assumes "kbd_ok st" "bit01 mk"
  shows "\<exists>key1 mk1 st1. keyboard_step key mk st = Some (key1, mk1, st1) \<and> kbd_ok st1 \<and> bit01 mk1 \<and>
    count (kbd_buf st) - 6 \<le> count (kbd_buf st1) \<and> count (kbd_buf st1) < count (kbd_buf st)"
proof -
  obtain sc key1 mk1 st1 where p: "scan_prefix key mk st = Some (sc, key1, mk1, st1)" "kbd_ok st1"
    "bit01 mk1" "count (kbd_buf st) - 6 \<le> count (kbd_buf st1)"
    "count (kbd_buf st1) < count (kbd_buf st)" using scan_prefix_ok [OF assms] by blast
  then show ?thesis using keyboard_step_rest [OF p(1-3)] by force
qed

lemma keyboard_loop_ok:
  assumes "kbd_ok st" "bit01 mk" "- 5 \<le> count (kbd_buf st)"
  shows "\<exists>st1. keyboard_loop key mk st = Some st1 \<and> kbd_ok st1 \<and>
    - 5 \<le> count (kbd_buf st1) \<and> count (kbd_buf st1) \<le> 0"
  using assms
proof (induction "nat (count (kbd_buf st))" arbitrary: key mk st rule: less_induct)
  case less
  show ?case
  proof (cases "0 < count (kbd_buf st)")
    case True
    then obtain key1 mk1 st1 where "keyboard_step key mk st = Some (key1, mk1, st1)" "kbd_ok st1"
      "bit01 mk1" "- 5 \<le> count (kbd_buf st1)" "count (kbd_buf st1) < count (kbd_buf st)"
      using keyboard_step_ok [OF less.prems(1,2)] by fastforce
    then show ?thesis
      using True less.hyps [of st1 mk1 key1] by (subst keyboard_loop.simps) simp
  next
    case False
    then show ?thesis using less.prems by (subst keyboard_loop.simps) simp
  qed
qed

section \<open>The queue as a channel\<close>

definition pending :: "tty_queue \<Rightarrow> u32 list" where
  "pending q =
     map (\<lambda>i. q_buf q ! ((unat (q_head q) + i) mod TTY_BUF_SIZE))
       [0..<(unat (q_tail q) + TTY_BUF_SIZE - unat (q_head q)) mod TTY_BUF_SIZE]"

definition tty_get :: "tty_queue \<Rightarrow> (u32 list \<times> tty_queue) option" where
  "tty_get q = tty_read 1 q"

lemma ring_len: "h < 256 \<Longrightarrow> t < 256 \<Longrightarrow> (t + 256 - h) mod 256 = (if h \<le> t then t - h else t + 256 - h :: nat)"
  by (simp add: mod_if)

lemma ring_pos: "h < 256 \<Longrightarrow> i < 256 \<Longrightarrow> (h + i) mod 256 = (if h + i < 256 then h + i else h + i - 256 :: nat)"
  by (simp add: mod_if)

lemma ring_succ: "t < 256 \<Longrightarrow> Suc t mod 256 = (if t = 255 then 0 else Suc t)"
  by (simp add: mod_if)

lemma ring_len_next:
  "h < 256 \<Longrightarrow> t < 256 \<Longrightarrow> (t + 256 - h) mod 256 < 255 \<Longrightarrow>
   ((t + 1) mod 256 + 256 - h) mod 256 = (t + 256 - h) mod 256 + (1::nat)"
  by (auto simp: ring_len ring_succ split: if_splits)

lemma ring_len_tail:
  "h < 256 \<Longrightarrow> t < 256 \<Longrightarrow> (h + (t + 256 - h) mod 256) mod 256 = (t::nat)"
  by (auto simp: ring_len ring_pos split: if_splits)

lemma pending_put:
  assumes "queue_shape q" "length (pending q) < 255" "tty_put c q = Some q1"
  shows "pending q1 = pending q @ [c]"
proof -
  let ?h = "unat (q_head q)" and ?t = "unat (q_tail q)"
  let ?n = "(?t + 256 - ?h) mod 256"
  have b: "?h < 256" "?t < 256" "length (q_buf q) = 256" and n: "?n < 255"
    using assms(1,2) by (simp_all add: queue_shape_def TTY_BUF_SIZE_def pending_def)
  have e: "q_head q1 = q_head q" "q_buf q1 = (q_buf q)[?t := c]"
    "unat (q_tail q1) = (?t + 1) mod 256"
    using assms(3) b unat_ring_next [OF b(2)]
    by (auto simp: tty_put_def Let_def split: if_splits)
  have ne: "?t \<noteq> (?h + i) mod 256" if "i < ?n" for i
    using that b by (auto simp: ring_len ring_pos split: if_splits)
  have "pending q1 = map (\<lambda>i. (q_buf q)[?t := c] ! ((?h + i) mod 256)) [0..<?n + 1]"
    using ring_len_next [OF b(1,2) n] by (simp add: pending_def e TTY_BUF_SIZE_def)
  also have "\<dots> = map (\<lambda>i. q_buf q ! ((?h + i) mod 256)) [0..<?n] @ [c]"
    using ring_len_tail [OF b(1,2)] b ne by auto
  finally show ?thesis by (simp add: pending_def TTY_BUF_SIZE_def)
qed

lemma tty_get_empty: "queue_shape q \<Longrightarrow> pending q = [] \<Longrightarrow> tty_get q = Some ([], q)"
proof -
  assume "queue_shape q" "pending q = []"
  then have "unat (q_head q) = unat (q_tail q)"
    by (simp add: pending_def queue_shape_def TTY_BUF_SIZE_def ring_len split: if_splits)
  then show "tty_get q = Some ([], q)"
    by (simp add: tty_get_def tty_read_def flip: One_nat_def) (simp add: One_nat_def)
qed

lemma tty_get_next:
  assumes "queue_shape q" "pending q = c # cs"
  shows "\<exists>q1. tty_get q = Some ([c], q1) \<and> queue_shape q1 \<and> pending q1 = cs"
proof -
  let ?h = "unat (q_head q)" and ?t = "unat (q_tail q)"
  let ?n = "(?t + 256 - ?h) mod 256"
  let ?q = "q\<lparr>q_head := (if TTY_BUF_SIZE \<le> unat (q_head q + 1) then 0 else q_head q + 1)\<rparr>"
  have b: "?h < 256" "?t < 256" "length (q_buf q) = 256"
    using assms(1) by (simp_all add: queue_shape_def TTY_BUF_SIZE_def)
  have "length (pending q) = Suc (length cs)" using assms(2) by simp
  then have n: "?n = Suc (length cs)" by (simp add: pending_def TTY_BUF_SIZE_def)
  then have ht: "?h \<noteq> ?t" by auto
  have u: "unat (q_head ?q) = (?h + 1) mod 256" using unat_ring_next [OF b(1)] by simp
  have l: "(?t + 256 - (?h + 1) mod 256) mod 256 = length cs"
    using n b by (auto simp: ring_len ring_succ split: if_splits)
  have p: "c # cs = map (\<lambda>i. q_buf q ! ((?h + i) mod 256)) [0..<Suc (length cs)]"
    using assms(2) n by (simp add: pending_def TTY_BUF_SIZE_def)
  then have c: "c = q_buf q ! ?h" and
    cs: "cs = map (\<lambda>i. q_buf q ! ((?h + Suc i) mod 256)) [0..<length cs]"
    using b by (simp_all add: map_upt_Suc del: upt_Suc)
  have "pending ?q = map (\<lambda>i. q_buf q ! (((?h + 1) mod 256 + i) mod 256)) [0..<length cs]"
    using l u by (simp add: pending_def TTY_BUF_SIZE_def)
  also have "\<dots> = cs" by (subst (2) cs) (simp add: mod_simps)
  finally have "pending ?q = cs" .
  moreover have "tty_get q = Some ([c], ?q)"
    using ht b c by (simp add: tty_get_def tty_read_def One_nat_def [symmetric] del: One_nat_def)
      (simp add: One_nat_def Let_def)
  moreover have "queue_shape ?q" using assms(1) u by (simp add: queue_shape_def TTY_BUF_SIZE_def)
  ultimately show ?thesis by blast
qed

interpretation ttyq: polled_channel queue_shape pending 255 "\<lambda>_. \<infinity>" tty_put tty_get
proof unfold_locales
  show "\<exists>q1. tty_put c q = Some q1 \<and> queue_shape q1 \<and> pending q1 = pending q @ [c] \<and> \<infinity> \<le> eSuc \<infinity>"
    if "queue_shape q" "length (pending q) < 255" for q c
    using tty_put_shape [OF that(1), of c] pending_put [OF that] by auto
  show "\<exists>q1. tty_get q = Some ([c], q1) \<and> queue_shape q1 \<and> pending q1 = cs \<and> \<infinity> \<le> (\<infinity>::enat)"
    if "queue_shape q" "pending q = c # cs" for q c cs
    using tty_get_next [OF that] by simp
qed (rule tty_get_empty)

section \<open>One byte from an idle keyboard\<close>

definition took :: "u8 \<Rightarrow> kbdst \<Rightarrow> kbdst" where
  "took b st =
     (let k = kbd_buf st; h = (if p_head k + 1 = KB_IN_BYTES then 0 else p_head k + 1)
      in st\<lparr>kbd_buf := k\<lparr>p_head := h, p_tail := h, count := 0, kb_bytes := (kb_bytes k)[p_head k := b]\<rparr>,
            code_with_E0 := 0\<rparr>)"

lemma took_sel [simp]:
  "shift_l (took b st) = shift_l st" "shift_r (took b st) = shift_r st"
  "ctrl_l (took b st) = ctrl_l st" "ctrl_r (took b st) = ctrl_r st"
  "alt_l (took b st) = alt_l st" "alt_r (took b st) = alt_r st"
  "caps_lock (took b st) = caps_lock st" "num_lock (took b st) = num_lock st"
  "scroll_lock (took b st) = scroll_lock st" "code_with_E0 (took b st) = 0"
  "read_q (took b st) = read_q st" "count (kbd_buf (took b st)) = 0"
  by (simp_all add: took_def Let_def)

lemma idle_ring:
  assumes "kbd_ok st" "count (kbd_buf st) = 0"
  shows "p_tail (kbd_buf st) = p_head (kbd_buf st)"
  using assms by (auto simp: kbd_ok_def ring_ok_def KB_IN_BYTES_def)

lemma took_ok: "kbd_ok st \<Longrightarrow> count (kbd_buf st) = 0 \<Longrightarrow> kbd_ok (took b st)"
  by (auto simp: took_def kbd_ok_def ring_ok_def flags_ok_def KB_IN_BYTES_def bit01_def Let_def)

lemma store_fetch:
  assumes "kbd_ok st" "count (kbd_buf st) = 0"
  shows "\<exists>st1. keyboard_read_to_buff b st = Some st1 \<and> count (kbd_buf st1) = 1 \<and>
    get_byte_from_kb_buf (st1\<lparr>code_with_E0 := 0\<rparr>) = Some (b, took b st)"
  using assms idle_ring [OF assms]
  by (simp add: keyboard_read_to_buff_def get_byte_from_kb_buf_def took_def kbd_ok_def ring_ok_def Let_def
      KB_IN_BYTES_def)

lemma emit_key_buf: "emit_key key mk st = Some (key1, st1) \<Longrightarrow> kbd_buf st1 = kbd_buf st"
  by (auto simp: emit_key_def Let_def split: if_splits prod.splits bind_splits)

lemma handler_byte:
  assumes "kbd_ok st" "count (kbd_buf st) = 0" "b \<noteq> 0xE0" "b \<noteq> 0xE1"
    and p: "parse_key b (took b st) = (key, mk, st2)"
    and e: "emit_key key mk st2 = Some (key1, st3)"
  shows "kbd_handler b st = Some st3" "kbd_buf st3 = kbd_buf (took b st)"
proof -
  obtain st1 where s: "keyboard_read_to_buff b st = Some st1" "count (kbd_buf st1) = 1"
    "get_byte_from_kb_buf (st1\<lparr>code_with_E0 := 0\<rparr>) = Some (b, took b st)"
    using store_fetch [OF assms(1,2)] by blast
  show k: "kbd_buf st3 = kbd_buf (took b st)"
    using emit_key_buf [OF e] parse_key_ok(3) [OF took_ok [OF assms(1,2)] p] by simp
  have z: "(0::u32) \<noteq> PAUSEBREAK" "(0::u32) \<noteq> PRINTSCREEN" by (simp_all add: keys)
  have "keyboard_step 0 0 st1 = Some (key1, mk, st3)"
    using s(3) assms(3,4) p e z by (simp add: keyboard_step_def scan_prefix_def)
  then have "keyboard_loop 0 0 st1 = keyboard_loop key1 mk st3"
    using s(2) by (subst keyboard_loop.simps) simp
  also have "\<dots> = Some st3" using k by (subst keyboard_loop.simps) simp
  finally show "kbd_handler b st = Some st3" using s(1) by (simp add: kbd_handler_def keyboard_read_def)
qed

section \<open>Typing\<close>

text \<open>
  \<open>at_rest sh st\<close>: the ring is empty, no modifier is down but the left shift key if \<open>sh\<close>,
  and Caps Lock is off.
\<close>

definition at_rest :: "bool \<Rightarrow> kbdst \<Rightarrow> bool" where
  "at_rest sh st \<longleftrightarrow> kbd_ok st \<and> count (kbd_buf st) = 0 \<and> shift_l st = of_bool sh \<and> shift_r st = 0 \<and>
     ctrl_l st = 0 \<and> ctrl_r st = 0 \<and> alt_l st = 0 \<and> alt_r st = 0 \<and> caps_lock st = 0"

text \<open>What the terminal is told for a key of the map: characters, Enter and Backspace.\<close>

definition key_char :: "u32 \<Rightarrow> u32 option" where
  "key_char key =
     (if key < 0x80 then Some key else if key = ENTER then Some 0x0A
      else if key = BACKSPACE then Some 0x08 else None)"

lemma low_key:
  assumes "(k::u32) < 0x80" "f = 0 \<or> f = 0x200"
  shows "(k OR f) AND 0x100 = 0" "(k OR f) AND 0x800 = 0" "(k OR f) AND 0xFF = k"
proof -
  have "take_bit 7 k = k"
    using assms(1)
    by (simp add: word_unat_eq_iff word_less_nat_alt unsigned_take_bit_eq take_bit_nat_eq_self)
  then have k: "k = k AND 0x7F" by (simp add: take_bit_eq_mask mask_eq_exp_minus_1)
  have a: "k AND g = k AND (0x7F AND g)" for g by (metis k and.assoc)
  show "(k OR f) AND 0x100 = 0" "(k OR f) AND 0x800 = 0"
    using assms(2) a [of "0x100"] a [of "0x800"] by (auto simp: bit.conj_disj_distrib2)
  show "(k OR f) AND 0xFF = k"
    using assms(2) a [of "0xFF"] k by (auto simp: bit.conj_disj_distrib2)
qed


text \<open>A key that is not a modifier, pressed without or with the shift key.\<close>

lemma plain_key:
  assumes "key_char key = Some c"
  shows "set_modifier key mk st = st" "pad_key key st = (False, key)"
    "key \<noteq> PAUSEBREAK" "key \<noteq> PRINTSCREEN"
proof -
  have "key \<le> 0x104"
    using assms
    by (auto simp: key_char_def ENTER_def BACKSPACE_def FLAG_EXT_def word_less_nat_alt word_le_nat_alt
        split: if_splits)
  then have n: "0x104 < k \<Longrightarrow> (key = k) = False" "0x104 < k \<Longrightarrow> (k \<le> key) = False" for k
    by auto
  show "set_modifier key mk st = st" "pad_key key st = (False, key)"
    "key \<noteq> PAUSEBREAK" "key \<noteq> PRINTSCREEN"
    by (simp_all add: set_modifier_def pad_key_def keys n)
qed

lemma plain_key_handled:
  assumes "key_char key = Some c" "at_rest sh st"
  shows "handle_key (key_flags False key st) q = tty_put c q"
proof -
  let ?f = "if sh then 0x200 else 0 :: u32"
  have f: "key_flags False key st = key OR ?f"
    using assms(2) by (simp add: key_flags_def at_rest_def FLAG_SHIFT_L_def)
  show ?thesis
  proof (cases "key < 0x80")
    case True
    then have "c = key" using assms(1) by (simp add: key_char_def)
    then show ?thesis
      using low_key [OF True, of ?f] by (simp add: f handle_key_def FLAG_EXT_def FLAG_CTRL_L_def)
  next
    case False
    then show ?thesis using assms(1)
      by (auto simp: f key_char_def handle_key_def keys split: if_splits)
  qed
qed

lemma scan_index:
  "i < 0x80 \<Longrightarrow> unat (of_nat i AND 0x7F :: u8) = i" "i < 0x80 \<Longrightarrow> of_nat i AND (0x80::u8) = 0"
  "i < 0x80 \<Longrightarrow> unat (of_nat i + 0x80 AND 0x7F :: u8) = i"
  "i < 0x80 \<Longrightarrow> of_nat i + 0x80 AND (0x80::u8) \<noteq> 0"
proof -
  have a: "unat (w AND 0x7F :: u8) = unat w mod 128" for w
    using and_mask_mod [of "unat w" 7] by (simp add: unsigned_and_eq)
  have b: "w AND (0x80::u8) = 0 \<longleftrightarrow> even (unat w div 128)" for w
  proof -
    have "bit (unat w) 7 = bit w 7" by (simp add: bit_unsigned_iff)
    then show ?thesis using word_bit_test(1) [of 7 w] by (auto simp: bit_iff_odd [of "unat w"])
  qed
  show "i < 0x80 \<Longrightarrow> unat (of_nat i AND 0x7F :: u8) = i"
    by (simp add: a unat_of_nat)
  show "i < 0x80 \<Longrightarrow> unat (of_nat i + 0x80 AND 0x7F :: u8) = i"
    by (simp add: a unat_word_ariths(1) unat_of_nat)
  show "i < 0x80 \<Longrightarrow> of_nat i AND (0x80::u8) = 0" by (simp add: b unat_of_nat)
  show "i < 0x80 \<Longrightarrow> of_nat i + 0x80 AND (0x80::u8) \<noteq> 0"
    by (simp add: b unat_word_ariths(1) unat_of_nat div_add_self2)
qed


lemma press_key:
  assumes "at_rest sh st" "i < 0x60" "key_char (keymap ! (i * 3 + of_bool sh)) = Some c"
    and room: "length (pending (read_q st)) < 255"
  shows "\<exists>st1. kbd_handler (of_nat i) st = Some st1 \<and> at_rest sh st1 \<and>
    pending (read_q st1) = pending (read_q st) @ [c]"
proof -
  let ?b = "of_nat i :: u8" and ?k = "keymap ! (i * 3 + of_bool sh)"
  let ?s = "(took ?b st)\<lparr>column := of_bool sh\<rparr>"
  have k: "kbd_ok st" "count (kbd_buf st) = 0" using assms(1) by (simp_all add: at_rest_def)
  have "unat ?b = i" using assms(2) by (simp add: unat_of_nat)
  then have n: "?b \<noteq> 0xE0" "?b \<noteq> 0xE1" using assms(2) by auto
  have "kbd_ok (took ?b st)" using took_ok [OF k] .
  then have r: "at_rest sh ?s"
    using assms(1) by (simp add: at_rest_def kbd_ok_def flags_ok_def MAP_COLS_def)
  have p: "parse_key ?b (took ?b st) = (?k, 1, ?s)"
    using assms(1,2) plain_key(1) [OF assms(3)]
    by (cases sh)
      (simp_all add: parse_key_def scan_index FLAG_BREAK_def MAP_COLS_def key_column_def at_rest_def Let_def)
  obtain q where q: "tty_put c (read_q st) = Some q" "pending q = pending (read_q st) @ [c]"
    using ttyq.put_law [of "read_q st" c, OF _ room] room k(1) by (auto simp: kbd_ok_def queue_ok_def)
  have e: "emit_key ?k 1 ?s = Some (key_flags False ?k ?s, ?s\<lparr>read_q := q\<rparr>)"
    using q(1) by (simp add: emit_key_def plain_key [OF assms(3)] plain_key_handled [OF assms(3) r])
  obtain q1 where "handle_key (key_flags False ?k ?s) (read_q ?s) = Some q1" "queue_ok q1"
    using handle_key_ok k(1) by (auto simp: kbd_ok_def)
  then have "queue_ok q" using q(1) by (simp add: plain_key_handled [OF assms(3) r])
  then have "at_rest sh (?s\<lparr>read_q := q\<rparr>)"
    using r by (simp add: at_rest_def kbd_ok_def flags_ok_def)
  then show ?thesis using handler_byte(1) [OF k n p e] q(2) by simp
qed

lemma release_key:
  assumes "at_rest sh st" "i < 0x60" "key_char (keymap ! (i * 3 + of_bool sh)) = Some c"
  shows "\<exists>st1. kbd_handler (of_nat i + 0x80) st = Some st1 \<and> at_rest sh st1 \<and> read_q st1 = read_q st"
proof -
  let ?b = "of_nat i + 0x80 :: u8" and ?k = "keymap ! (i * 3 + of_bool sh)"
  let ?s = "(took ?b st)\<lparr>column := of_bool sh\<rparr>"
  have k: "kbd_ok st" "count (kbd_buf st) = 0" using assms(1) by (simp_all add: at_rest_def)
  have "unat ?b = i + 0x80" using assms(2) by (simp add: unat_word_ariths(1) unat_of_nat)
  then have n: "?b \<noteq> 0xE0" "?b \<noteq> 0xE1" using assms(2) by auto
  have p: "parse_key ?b (took ?b st) = (?k, 0, ?s)"
    using assms(1,2) plain_key(1) [OF assms(3)]
    by (cases sh)
      (simp_all add: parse_key_def scan_index FLAG_BREAK_def MAP_COLS_def key_column_def at_rest_def Let_def)
  have e: "emit_key ?k 0 ?s = Some (?k, ?s)" by (simp add: emit_key_def)
  have "at_rest sh ?s"
    using assms(1) took_ok [OF k] by (simp add: at_rest_def kbd_ok_def flags_ok_def MAP_COLS_def)
  then show ?thesis using handler_byte(1) [OF k n p e] by simp
qed

lemma shift_key:
  assumes "at_rest (\<not> sh) st"
  shows "\<exists>st1. kbd_handler (if sh then 0x2A else 0xAA) st = Some st1 \<and> at_rest sh st1 \<and>
    read_q st1 = read_q st"
proof -
  let ?b = "if sh then 0x2A else 0xAA :: u8"
  let ?s = "(took ?b st)\<lparr>column := of_bool (\<not> sh), shift_l := of_bool sh\<rparr>"
  have k: "kbd_ok st" "count (kbd_buf st) = 0" using assms by (simp_all add: at_rest_def)
  have n: "?b \<noteq> 0xE0" "?b \<noteq> 0xE1" by simp_all
  have t: "keymap ! 126 = SHIFT_L" "keymap ! 127 = SHIFT_L" by (simp_all add: keymap_def)
  have p: "parse_key ?b (took ?b st) = (SHIFT_L, of_bool sh, ?s)"
    using assms
    by (simp add: parse_key_def FLAG_BREAK_def MAP_COLS_def key_column_def at_rest_def Let_def t set_modifier_def)
  have f: "key_flags False SHIFT_L ?s = SHIFT_L OR (if sh then 0x200 else 0)"
    using assms by (simp add: key_flags_def at_rest_def FLAG_SHIFT_L_def)
  have d: "pad_key SHIFT_L ?s = (False, SHIFT_L)" by (simp add: pad_key_def keys)
  have h: "handle_key (SHIFT_L OR 0x200) q = Some q" for q by (simp add: handle_key_def keys)
  have "\<exists>key1. emit_key SHIFT_L (of_bool sh) s = Some (key1, s)"
    if "key_flags False SHIFT_L s = SHIFT_L OR (if sh then 0x200 else 0)" "pad_key SHIFT_L s = (False, SHIFT_L)"
    for s using that h by (simp add: emit_key_def)
  then have e: "\<exists>key1. emit_key SHIFT_L (of_bool sh) ?s = Some (key1, ?s)" using f d by blast
  have "at_rest sh ?s"
    using assms took_ok [OF k] by (simp add: at_rest_def kbd_ok_def flags_ok_def MAP_COLS_def)
  then show ?thesis using handler_byte(1) [OF k n p] e by auto
qed

text \<open>
  The bytes the controller sends while a character is typed on the main block of a US
  keyboard, found by searching the key map: press and release, inside press and release of
  the left shift key where the character is in the second column.
\<close>

definition strokes :: "u8 \<Rightarrow> u8 list" where
  "strokes c =
     (case find (\<lambda>i. key_char (keymap ! (i * 3)) = Some (ucast c)) [0..<0x47] of
        Some i \<Rightarrow> [of_nat i, of_nat i + 0x80]
      | None \<Rightarrow>
          (case find (\<lambda>i. key_char (keymap ! (i * 3 + 1)) = Some (ucast c)) [0..<0x47] of
             Some i \<Rightarrow> [0x2A, of_nat i, of_nat i + 0x80, 0xAA]
           | None \<Rightarrow> []))"

definition typeable :: "u8 \<Rightarrow> bool" where
  "typeable c \<longleftrightarrow> c = 0x08 \<or> c = 0x0A \<or> 0x20 \<le> c \<and> c \<le> 0x7E"

fun every_third :: "'a list \<Rightarrow> 'a list" where
  "every_third (x # y # z # xs) = x # every_third xs"
| "every_third xs = []"

lemma every_third_mem: "x \<in> set (take n (every_third xs)) \<Longrightarrow> \<exists>i < n. x = xs ! (i * 3)"
proof (induction xs arbitrary: n rule: every_third.induct)
  case (1 a b c xs)
  then show ?case
  proof (cases n)
    case (Suc m)
    then consider "x = a" | i where "i < m" "x = xs ! (i * 3)" using 1 by auto
    then show ?thesis
    proof cases
      case 1
      then show ?thesis using Suc by (intro exI [of _ 0]) simp
    next
      case 2
      then show ?thesis using Suc by (intro exI [of _ "Suc i"]) (simp add: numeral_3_eq_3)
    qed
  qed simp
qed simp_all

lemma tl_nth: "xs \<noteq> [] \<Longrightarrow> tl xs ! n = xs ! (n + 1)"
  by (cases xs) simp_all

lemma main_block:
  "set [0x20..<0x7F] \<subseteq> set (map unat (take 0x47 (every_third keymap) @ take 0x47 (every_third (tl keymap))))"
  by (simp add: keymap_def keys upt_rec)


lemma unat_ucast_byte: "unat (ucast (c::u8) :: u32) = unat c"
  using unsigned_less [of c, where ?'a = nat] by (simp add: unsigned_ucast_eq take_bit_nat_eq_self)

lemma main_block_key:
  assumes "typeable c"
  obtains i sh where "i < 0x47" "key_char (keymap ! (i * 3 + of_bool sh)) = Some (ucast c)"
proof -
  consider "c = 0x08" | "c = 0x0A" | "0x20 \<le> unat c" "unat c < 0x7F"
    using assms by (auto simp: typeable_def word_le_nat_alt)
  then show thesis
  proof cases
    case 1
    then show ?thesis using that [of "0x0E" False] by (simp add: keymap_def key_char_def keys)
  next
    case 2
    then show ?thesis using that [of "0x1C" False] by (simp add: keymap_def key_char_def keys)
  next
    case 3
    then have "unat c \<in> set [0x20..<0x7F]" by (simp only: set_upt atLeastLessThan_iff)
    then have "unat c \<in> set (map unat (take 0x47 (every_third keymap) @ take 0x47 (every_third (tl keymap))))"
      using main_block by (rule subsetD [rotated])
    then obtain k where k: "unat c = unat k"
      "k \<in> set (take 0x47 (every_third keymap)) \<or> k \<in> set (take 0x47 (every_third (tl keymap)))"
      by auto
    have "keymap \<noteq> []" by (simp add: keymap_def)
    then have t: "tl keymap ! n = keymap ! (n + 1)" for n by (rule tl_nth)
    from k(2) obtain i sh where i: "i < 0x47" "k = keymap ! (i * 3 + of_bool sh)"
    proof (rule disjE)
      assume a: "k \<in> set (take 0x47 (every_third keymap))"
      from every_third_mem [OF a] obtain i where "i < 0x47" "k = keymap ! (i * 3)" by blast
      then show thesis using that [of i False] by simp
    next
      assume a: "k \<in> set (take 0x47 (every_third (tl keymap)))"
      from every_third_mem [OF a] obtain i where "i < 0x47" "k = tl keymap ! (i * 3)" by blast
      then show thesis using that [of i True] t by simp
    qed
    have "k = ucast c" using k(1) by (simp add: word_unat_eq_iff unat_ucast_byte)
    moreover have "k < 0x80" using k(1) 3 by (simp add: word_less_nat_alt)
    ultimately show ?thesis using that [of i sh] i by (simp add: key_char_def)
  qed
qed

lemma strokes_cases:
  assumes "typeable c"
  obtains i sh where "i < 0x47" "key_char (keymap ! (i * 3 + of_bool sh)) = Some (ucast c)"
    "strokes c = (if sh then [0x2A, of_nat i, of_nat i + 0x80, 0xAA] else [of_nat i, of_nat i + 0x80])"
proof (cases "find (\<lambda>i. key_char (keymap ! (i * 3)) = Some (ucast c)) [0..<0x47]")
  case (Some i)
  then have "i < 0x47" "key_char (keymap ! (i * 3)) = Some (ucast c)" by (auto simp: find_Some_iff)
  then show thesis using that [of i False] Some by (simp add: strokes_def)
next
  case None
  then have n: "key_char (keymap ! (i * 3)) \<noteq> Some (ucast c)" if "i < 0x47" for i
    using that by (simp add: find_None_iff)
  obtain i sh where i: "i < 0x47" "key_char (keymap ! (i * 3 + of_bool sh)) = Some (ucast c)"
    using main_block_key [OF assms] .
  then have sh using n [of i] by (cases sh) simp_all
  then have "find (\<lambda>i. key_char (keymap ! (i * 3 + 1)) = Some (ucast c)) [0..<0x47] \<noteq> None"
    using i by (auto simp: find_None_iff)
  then obtain k where k: "find (\<lambda>i. key_char (keymap ! (i * 3 + 1)) = Some (ucast c)) [0..<0x47] = Some k"
    by blast
  then have "k < 0x47" "key_char (keymap ! (k * 3 + 1)) = Some (ucast c)" by (auto simp: find_Some_iff)
  then show thesis using that [of k True] None k by (simp add: strokes_def)
qed

lemma kbd_handlers_append:
  "kbd_handlers (as @ bs) st = do { st1 \<leftarrow> kbd_handlers as st; kbd_handlers bs st1 }"
  by (induction as arbitrary: st) (auto split: bind_splits)

lemma type_char:
  assumes "at_rest False st" "typeable c" "length (pending (read_q st)) < 255"
  shows "\<exists>st1. kbd_handlers (strokes c) st = Some st1 \<and> at_rest False st1 \<and>
    pending (read_q st1) = pending (read_q st) @ [ucast c]"
proof -
  obtain i sh where i: "i < 0x47" "key_char (keymap ! (i * 3 + of_bool sh)) = Some (ucast c)"
    "strokes c = (if sh then [0x2A, of_nat i, of_nat i + 0x80, 0xAA] else [of_nat i, of_nat i + 0x80])"
    using strokes_cases [OF assms(2)] .
  have hit: "\<exists>s2. kbd_handlers [of_nat i, of_nat i + 0x80] s = Some s2 \<and> at_rest sh s2 \<and>
      pending (read_q s2) = pending (read_q s) @ [ucast c]"
    if s: "at_rest sh s" "length (pending (read_q s)) < 255" for s
  proof -
    obtain s1 where s1: "kbd_handler (of_nat i) s = Some s1" "at_rest sh s1"
      "pending (read_q s1) = pending (read_q s) @ [ucast c]"
      using press_key [OF s(1) _ i(2) s(2)] i(1) by auto
    then show ?thesis using release_key [OF s1(2) _ i(2)] i(1) by auto
  qed
  show ?thesis
  proof (cases sh)
    case False
    then show ?thesis using hit [of st] assms i(3) by simp
  next
    case True
    obtain s1 where s1: "kbd_handler 0x2A st = Some s1" "at_rest True s1" "read_q s1 = read_q st"
      using shift_key [of True st] assms(1) by auto
    obtain s2 where s2: "kbd_handlers [of_nat i, of_nat i + 0x80] s1 = Some s2" "at_rest True s2"
      "pending (read_q s2) = pending (read_q st) @ [ucast c]"
      using hit [of s1] s1 True assms(3) by auto
    obtain s3 where "kbd_handler 0xAA s2 = Some s3" "at_rest False s3" "read_q s3 = read_q s2"
      using shift_key [of False s2] s2(2) by auto
    then have "kbd_handlers ([0x2A] @ [of_nat i, of_nat i + 0x80] @ [0xAA]) st = Some s3"
      using s1(1) s2(1) by (auto split: bind_splits)
    then show ?thesis using i(3) True \<open>at_rest False s3\<close> \<open>read_q s3 = read_q s2\<close> s2(3) by simp
  qed
qed

lemma type_text:
  assumes "at_rest False st" "list_all typeable cs" "length (pending (read_q st)) + length cs \<le> 255"
  shows "\<exists>st1. kbd_handlers (concat (map strokes cs)) st = Some st1 \<and> at_rest False st1 \<and>
    pending (read_q st1) = pending (read_q st) @ map ucast cs"
  using assms
proof (induction cs arbitrary: st)
  case (Cons c cs)
  then obtain s1 where s1: "kbd_handlers (strokes c) st = Some s1" "at_rest False s1"
    "pending (read_q s1) = pending (read_q st) @ [ucast c]"
    using type_char [of st c] by auto
  then show ?case using Cons.IH [of s1] Cons.prems by (auto simp: kbd_handlers_append)
qed simp


section \<open>Properties\<close>

text \<open>
  C34. From a well-formed state whose byte count is at least -5, as at boot, the following is
  kept for ever. Whatever bytes the keyboard controller delivers, in whatever order, every keyboard
  interrupt returns, and the state stays well typed: both rings are indexed inside their
  arrays, the byte ring is at most full and its head is its tail plus its count, every
  modifier and lock flag is 0 or 1, and the terminal queue holds only bytes and \<open>-EEOF\<close>.
\<close>

theorem kbd_handlers_type_safe:
  assumes "kbd_ok st" "- 5 \<le> count (kbd_buf st)"
  shows "\<exists>st1. kbd_handlers bs st = Some st1 \<and> kbd_ok st1 \<and> - 5 \<le> count (kbd_buf st1)"
  using assms
proof (induction bs arbitrary: st)
  case (Cons b bs)
  obtain s1 where s1: "keyboard_read_to_buff b st = Some s1" "kbd_ok s1"
    "count (kbd_buf st) \<le> count (kbd_buf s1)" using read_to_buff_ok [OF Cons.prems(1)] .
  then obtain s2 where "keyboard_loop 0 0 s1 = Some s2" "kbd_ok s2" "- 5 \<le> count (kbd_buf s2)"
    using keyboard_loop_ok [of s1 0 0] Cons.prems(2) by (auto simp: bit01_def)
  then show ?case using s1(1) Cons.IH [of s2] by (simp add: kbd_handler_def keyboard_read_def)
qed simp

definition blank_kbd :: kbdst where
  "blank_kbd = keyboard_init
     \<lparr>kbd_buf = \<lparr>p_head = 7, p_tail = 3, count = 4, kb_bytes = replicate KB_IN_BYTES 0\<rparr>,
      code_with_E0 = 0, shift_l = 0, shift_r = 0, alt_l = 0, alt_r = 0, ctrl_l = 0, ctrl_r = 0,
      caps_lock = 0, num_lock = 0, scroll_lock = 0, column = 0,
      read_q = \<lparr>q_head = 0, q_tail = 0, q_buf = replicate TTY_BUF_SIZE 0\<rparr>\<rparr>"

lemma blank_kbd_at_rest: "at_rest False blank_kbd" "pending (read_q blank_kbd) = []"
  by (simp_all add: blank_kbd_def keyboard_init_def at_rest_def kbd_ok_def ring_ok_def flags_ok_def
      queue_ok_def queue_shape_def bit01_def pending_def KB_IN_BYTES_def TTY_BUF_SIZE_def MAP_COLS_def)

theorem kbd_handlers_type_safe_witness:
  "kbd_ok blank_kbd \<and>
   (\<exists>st1. kbd_handlers [0xE0, 0x1D, 0x1E, 0x9E, 0xE1] blank_kbd = Some st1 \<and> kbd_ok st1 \<and>
      - 5 \<le> count (kbd_buf st1))"
  using kbd_handlers_type_safe [of blank_kbd] blank_kbd_at_rest(1)
  by (simp add: at_rest_def del: kbd_handlers.simps)

text \<open>
  C35. In a well-formed state with an empty byte ring (\<open>count = 0\<close>, as at boot and after any
  typed text), an extended key, which the controller reports as \<open>0xE0\<close> followed by a second
  byte, is not recognised: the interrupt for \<open>0xE0\<close> already takes a second, stale byte out of
  the ring and leaves the count negative, and the interrupt for the real second byte only
  stores it. Whatever that byte is, neither the modifiers nor the terminal queue depend on it.
  States with another count, such as the one such a key leaves behind, are not covered.
\<close>

theorem extended_key_lost:
  assumes "kbd_ok st" "count (kbd_buf st) = 0"
  shows "\<exists>st1. kbd_handler 0xE0 st = Some st1 \<and> count (kbd_buf st1) < 0 \<and>
    (\<forall>b. \<exists>k. kbd_handler b st1 = Some (st1\<lparr>kbd_buf := k\<rparr>))"
proof -
  obtain s1 where s1: "keyboard_read_to_buff 0xE0 st = Some s1" "count (kbd_buf s1) = 1"
    "get_byte_from_kb_buf (s1\<lparr>code_with_E0 := 0\<rparr>) = Some (0xE0, took 0xE0 st)"
    using store_fetch [OF assms] by blast
  obtain sc s2 where s2: "get_byte_from_kb_buf ((took 0xE0 st)\<lparr>code_with_E0 := 1\<rparr>) = Some (sc, s2)"
    "kbd_ok s2" "count (kbd_buf s2) = - 1"
    using get_byte_ok [of "(took 0xE0 st)\<lparr>code_with_E0 := 1\<rparr>"] took_ok [OF assms] by auto
  have "\<exists>sc key1 mk1 s3. scan_prefix 0 0 s1 = Some (sc, key1, mk1, s3) \<and> kbd_ok s3 \<and> bit01 mk1 \<and>
      count (kbd_buf s3) < 0"
    using s1(3) s2 printscreen_ok [OF s2(2), of 0 1 "0x37" 0] printscreen_ok [OF s2(2), of 0 0 "0xAA" 0]
    by (auto simp: scan_prefix_def bit01_def)
  then obtain key mk s4 where s4: "keyboard_step 0 0 s1 = Some (key, mk, s4)" "kbd_ok s4"
    "count (kbd_buf s4) < 0" using keyboard_step_rest by metis
  have "keyboard_loop 0 0 s1 = keyboard_loop key mk s4"
    using s1(2) s4(1) by (subst keyboard_loop.simps) simp
  also have "\<dots> = Some s4" using s4(3) by (subst keyboard_loop.simps) simp
  finally have "kbd_handler 0xE0 st = Some s4" using s1(1) by (simp add: kbd_handler_def keyboard_read_def)
  moreover have "\<exists>k. kbd_handler b s4 = Some (s4\<lparr>kbd_buf := k\<rparr>)" for b
    using s4(2,3) by (auto simp: kbd_handler_def keyboard_read_def keyboard_loop.simps
        keyboard_read_to_buff_def kbd_ok_def ring_ok_def Let_def)
  ultimately show ?thesis using s4(3) by blast
qed

theorem extended_key_lost_witness:
  "\<exists>st st1. kbd_handlers (concat (map strokes (map of_char ''ls''))) blank_kbd = Some st \<and>
    pending (read_q st) = [0x6C, 0x73] \<and> kbd_handler 0xE0 st = Some st1 \<and>
    (\<forall>b. \<exists>k. kbd_handler b st1 = Some (st1\<lparr>kbd_buf := k\<rparr>))"
proof -
  obtain st where st: "kbd_handlers (concat (map strokes (map of_char ''ls''))) blank_kbd = Some st" "at_rest False st"
    "pending (read_q st) = map ucast (map of_char ''ls'' :: u8 list)"
    using type_text [of blank_kbd "map of_char ''ls''"] blank_kbd_at_rest by (auto simp: typeable_def)
  then show ?thesis using extended_key_lost [of st] by (auto simp: at_rest_def)
qed

end
