(* ===== verification/Pipe.thy ===== *)
theory Pipe
  imports Channel
begin

text \<open>
  The data path of pipes, \<^verbatim>\<open>fs/pipefs/pipe_inode.c\<close>: a page of bytes used as a ring with two
  positions of 32 bits that only grow and are reduced modulo the page size at each access.
  The 4096 bytes of \<^verbatim>\<open>p_page\<close> are kept with the record of the pipe. The transfers are shown to
  refine a bounded queue of bytes, as long as the positions do not wrap around.
\<close>

record pipe_inode_info =
  p_bytes :: "u8 list"
  p_rpos :: u32
  p_wpos :: u32
  p_reader :: int
  p_writer :: int

section \<open>Operations\<close>

fun pipe_write_loop :: "int \<Rightarrow> u8 list \<Rightarrow> pipe_inode_info \<Rightarrow> int \<times> pipe_inode_info" where
  "pipe_write_loop i [] info = (i, info)"
| "pipe_write_loop i (b # bs) info =
     (if p_rpos info + PAGE_SIZE \<le> p_wpos info \<and> 0 \<le> i then (i, info)
      else if p_rpos info + PAGE_SIZE \<le> p_wpos info \<and> p_reader info = 0 then (0, info)
      else pipe_write_loop (i + 1) bs
        (info\<lparr>p_bytes := (p_bytes info)[unat (p_wpos info mod PAGE_SIZE) := b],
             p_wpos := p_wpos info + 1\<rparr>))"

definition pipe_write :: "u8 list \<Rightarrow> pipe_inode_info \<Rightarrow> int \<times> pipe_inode_info" where
  "pipe_write buf info = pipe_write_loop 0 buf info"

fun pipe_read_loop :: "nat \<Rightarrow> int \<Rightarrow> pipe_inode_info \<Rightarrow> u8 list \<times> pipe_inode_info" where
  "pipe_read_loop 0 i info = ([], info)"
| "pipe_read_loop (Suc n) i info =
     (if p_rpos info = p_wpos info \<and> 0 < i then ([], info)
      else if p_rpos info = p_wpos info \<and> p_writer info = 0 then ([], info)
      else
        let (bs, info1) = pipe_read_loop n (i + 1) (info\<lparr>p_rpos := p_rpos info + 1\<rparr>)
        in (p_bytes info ! unat (p_rpos info mod PAGE_SIZE) # bs, info1))"

definition pipe_read :: "int \<Rightarrow> pipe_inode_info \<Rightarrow> u8 list \<times> pipe_inode_info" where
  "pipe_read count info = pipe_read_loop (nat count) 0 info"

definition new_pipe_info :: pipe_inode_info where
  "new_pipe_info = \<lparr>p_bytes = replicate 4096 0, p_rpos = 0, p_wpos = 0, p_reader = 1, p_writer = 1\<rparr>"

definition pipe_put :: "u8 \<Rightarrow> pipe_inode_info \<Rightarrow> pipe_inode_info option" where
  "pipe_put b info = Some (snd (pipe_write [b] info))"

definition pipe_get :: "pipe_inode_info \<Rightarrow> (u8 list \<times> pipe_inode_info) option" where
  "pipe_get info = Some (pipe_read 1 info)"

section \<open>Specification\<close>

text \<open>A bounded queue of bytes, and programs of write and read calls on either.\<close>

datatype pipe_call = WriteCall "u8 list" | ReadCall nat

datatype pipe_result = Wrote int | Got "u8 list"

fun queue_call :: "pipe_call \<Rightarrow> u8 list \<Rightarrow> pipe_result \<times> u8 list" where
  "queue_call (WriteCall bs) q =
     (Wrote (int (min (length bs) (4096 - length q))), q @ take (4096 - length q) bs)"
| "queue_call (ReadCall n) q = (Got (take n q), drop n q)"

fun pipe_call_on :: "pipe_call \<Rightarrow> pipe_inode_info \<Rightarrow> pipe_result \<times> pipe_inode_info" where
  "pipe_call_on (WriteCall bs) p = (let (n, p1) = pipe_write bs p in (Wrote n, p1))"
| "pipe_call_on (ReadCall n) p = (let (bs, p1) = pipe_read (int n) p in (Got bs, p1))"

fun run_calls :: "(pipe_call \<Rightarrow> 's \<Rightarrow> pipe_result \<times> 's) \<Rightarrow> pipe_call list \<Rightarrow> 's \<Rightarrow> pipe_result list \<times> 's" where
  "run_calls call [] s = ([], s)"
| "run_calls call (c # cs) s =
     (let (r, s1) = call c s; (rs, s2) = run_calls call cs s1 in (r # rs, s2))"

fun total_written :: "pipe_call list \<Rightarrow> nat" where
  "total_written [] = 0"
| "total_written (WriteCall bs # cs) = length bs + total_written cs"
| "total_written (ReadCall n # cs) = total_written cs"

text \<open>No call reads while the queue is empty.\<close>

fun reads_data :: "pipe_call list \<Rightarrow> u8 list \<Rightarrow> bool" where
  "reads_data [] q \<longleftrightarrow> True"
| "reads_data (WriteCall bs # cs) q \<longleftrightarrow> reads_data cs (snd (queue_call (WriteCall bs) q))"
| "reads_data (ReadCall n # cs) q \<longleftrightarrow> q \<noteq> [] \<and> reads_data cs (drop n q)"

section \<open>Abstraction\<close>

definition pipe_ok :: "pipe_inode_info \<Rightarrow> bool" where
  "pipe_ok p \<longleftrightarrow> length (p_bytes p) = 4096 \<and> unat (p_rpos p) \<le> unat (p_wpos p) \<and>
     unat (p_wpos p) \<le> unat (p_rpos p) + 4096 \<and> unat (p_wpos p) + 4096 < 2 ^ 32"

definition pipe_data :: "pipe_inode_info \<Rightarrow> u8 list" where
  "pipe_data p = map (\<lambda>i. p_bytes p ! ((unat (p_rpos p) + i) mod 4096)) [0..<unat (p_wpos p) - unat (p_rpos p)]"

definition pipe_budget :: "pipe_inode_info \<Rightarrow> enat" where
  "pipe_budget p = enat (2 ^ 32 - 4097 - unat (p_wpos p))"

lemma unat_mod_page: "unat (w mod PAGE_SIZE) = unat w mod 4096"
  by (simp add: unat_mod PAGE_SIZE_val)

lemma pipe_full:
  assumes "pipe_ok p"
  shows "p_rpos p + PAGE_SIZE \<le> p_wpos p \<longleftrightarrow> length (pipe_data p) = 4096"
proof -
  have "unat (p_rpos p + PAGE_SIZE) = unat (p_rpos p) + 4096"
    using assms by (simp add: pipe_ok_def PAGE_SIZE_val unat_word_ariths(1))
  then show ?thesis using assms by (auto simp: pipe_ok_def pipe_data_def word_le_nat_alt)
qed

lemma pipe_empty: "pipe_ok p \<Longrightarrow> p_rpos p = p_wpos p \<longleftrightarrow> pipe_data p = []"
  by (auto simp: pipe_ok_def pipe_data_def word_unat_eq_iff)

lemma pipe_data_le: "pipe_ok p \<Longrightarrow> length (pipe_data p) \<le> 4096"
  by (auto simp: pipe_ok_def pipe_data_def)

lemma pipe_append:
  fixes b :: u8
  assumes "pipe_ok p" "length (pipe_data p) < 4096" "0 < pipe_budget p"
  defines "p1 \<equiv> p\<lparr>p_bytes := (p_bytes p)[unat (p_wpos p mod PAGE_SIZE) := b], p_wpos := p_wpos p + 1\<rparr>"
  shows "pipe_ok p1" "pipe_data p1 = pipe_data p @ [b]" "pipe_budget p = eSuc (pipe_budget p1)"
proof -
  let ?r = "unat (p_rpos p)" and ?w = "unat (p_wpos p)"
  have b: "length (p_bytes p) = 4096" "?r \<le> ?w" "?w < ?r + 4096" "?w + 4097 < 2 ^ 32"
    using assms(1-3) by (auto simp: pipe_ok_def pipe_data_def pipe_budget_def zero_enat_def)
  then have w: "unat (p_wpos p + 1) = ?w + 1" by (simp add: unat_word_ariths(1))
  show "pipe_ok p1" using b w by (simp add: pipe_ok_def p1_def)
  show "pipe_budget p = eSuc (pipe_budget p1)"
    using b w by (simp add: pipe_budget_def p1_def eSuc_enat)
  have ne: "?w mod 4096 \<noteq> (?r + i) mod 4096" if "i < ?w - ?r" for i
  proof
    assume "?w mod 4096 = (?r + i) mod 4096"
    then have "(4096::nat) dvd ?w - (?r + i)" using that by (subst (asm) mod_eq_dvd_iff_nat) simp_all
    then show False using that b by (auto dest!: dvd_imp_le)
  qed
  have "pipe_data p1 = map (\<lambda>i. (p_bytes p)[?w mod 4096 := b] ! ((?r + i) mod 4096)) [0..<(?w - ?r) + 1]"
    using w b by (simp add: pipe_data_def p1_def unat_mod_page Suc_diff_le)
  also have "\<dots> = map (\<lambda>i. p_bytes p ! ((?r + i) mod 4096)) [0..<?w - ?r] @ [b]"
    using b ne by auto
  finally show "pipe_data p1 = pipe_data p @ [b]" by (simp add: pipe_data_def)
qed

lemma pipe_remove:
  assumes "pipe_ok p" "pipe_data p = c # cs"
  defines "p1 \<equiv> p\<lparr>p_rpos := p_rpos p + 1\<rparr>"
  shows "pipe_ok p1" "pipe_data p1 = cs" "p_bytes p ! unat (p_rpos p mod PAGE_SIZE) = c"
    "pipe_budget p1 = pipe_budget p"
proof -
  let ?r = "unat (p_rpos p)" and ?w = "unat (p_wpos p)"
  have "length (pipe_data p) = Suc (length cs)" using assms(2) by simp
  then have n: "?w - ?r = Suc (length cs)" by (simp add: pipe_data_def)
  then have r: "unat (p_rpos p + 1) = ?r + 1"
    using assms(1) by (simp add: pipe_ok_def unat_word_ariths(1))
  show "pipe_ok p1" using assms(1) n r by (simp add: pipe_ok_def p1_def)
  show "pipe_budget p1 = pipe_budget p" by (simp add: pipe_budget_def p1_def)
  have d: "c # cs = map (\<lambda>i. p_bytes p ! ((?r + i) mod 4096)) [0..<Suc (length cs)]"
    using assms(2) n by (simp add: pipe_data_def)
  then show "p_bytes p ! unat (p_rpos p mod PAGE_SIZE) = c"
    by (simp add: map_upt_Suc unat_mod_page del: upt_Suc)
  have l: "?w - Suc ?r = length cs" using n by simp
  have "pipe_data p1 = map (\<lambda>i. p_bytes p ! ((?r + 1 + i) mod 4096)) [0..<length cs]"
    using l r by (simp add: pipe_data_def p1_def)
  also have "\<dots> = cs" using d by (simp add: map_upt_Suc del: upt_Suc)
  finally show "pipe_data p1 = cs" .
qed

section \<open>Transfers\<close>

lemma pipe_write_loop_spec:
  assumes "pipe_ok p" "enat (length bs) \<le> pipe_budget p" "0 \<le> i"
  shows "\<exists>p1. pipe_write_loop i bs p = (i + int (min (length bs) (4096 - length (pipe_data p))), p1) \<and>
    pipe_ok p1 \<and> pipe_data p1 = pipe_data p @ take (4096 - length (pipe_data p)) bs \<and>
    pipe_budget p \<le> pipe_budget p1 + enat (length bs) \<and> p_writer p1 = p_writer p"
  using assms
proof (induction bs arbitrary: i p)
  case (Cons b bs)
  show ?case
  proof (cases "length (pipe_data p) = 4096")
    case True
    then show ?thesis using Cons.prems pipe_full [OF Cons.prems(1)] by simp
  next
    case False
    then have l: "length (pipe_data p) < 4096" using pipe_data_le [OF Cons.prems(1)] by simp
    have z: "0 < pipe_budget p"
      using Cons.prems(2) by (cases "pipe_budget p") (simp_all add: zero_enat_def)
    let ?p = "p\<lparr>p_bytes := (p_bytes p)[unat (p_wpos p mod PAGE_SIZE) := b], p_wpos := p_wpos p + 1\<rparr>"
    note a = pipe_append [OF Cons.prems(1) l z, of b]
    have "eSuc (enat (length bs)) \<le> eSuc (pipe_budget ?p)"
      using Cons.prems(2) a(3) by (simp add: eSuc_enat)
    then obtain p1 where p1: "pipe_write_loop (i + 1) bs ?p =
        (i + 1 + int (min (length bs) (4096 - length (pipe_data ?p))), p1)" "pipe_ok p1"
      "pipe_data p1 = pipe_data ?p @ take (4096 - length (pipe_data ?p)) bs"
      "pipe_budget ?p \<le> pipe_budget p1 + enat (length bs)" "p_writer p1 = p_writer p"
      using Cons.IH [of ?p "i + 1"] a(1) Cons.prems(3) by auto
    have "pipe_budget p \<le> pipe_budget p1 + enat (length (b # bs))"
      using a(3) p1(4) by (cases "pipe_budget p1"; cases "pipe_budget ?p") (auto simp: eSuc_enat)
    moreover have "pipe_write_loop i (b # bs) p = pipe_write_loop (i + 1) bs ?p"
      using False pipe_full [OF Cons.prems(1)] by simp
    moreover have "4096 - length (pipe_data p) = Suc (4096 - length (pipe_data ?p))"
      using l a(2) by simp
    ultimately show ?thesis using p1 a(2) by (simp add: algebra_simps)
  qed
qed simp

lemma pipe_read_loop_spec:
  assumes "pipe_ok p" "pipe_data p \<noteq> [] \<or> 0 < i \<or> p_writer p = 0" "0 \<le> i"
  shows "\<exists>p1. pipe_read_loop n i p = (take n (pipe_data p), p1) \<and> pipe_ok p1 \<and>
    pipe_data p1 = drop n (pipe_data p) \<and> pipe_budget p1 = pipe_budget p \<and> p_writer p1 = p_writer p"
  using assms
proof (induction n arbitrary: i p)
  case (Suc n)
  show ?case
  proof (cases "pipe_data p")
    case Nil
    then show ?thesis using Suc.prems pipe_empty [OF Suc.prems(1)] by auto
  next
    case (Cons c cs)
    let ?p = "p\<lparr>p_rpos := p_rpos p + 1\<rparr>"
    note r = pipe_remove [OF Suc.prems(1) Cons]
    obtain p1 where p1: "pipe_read_loop n (i + 1) ?p = (take n (pipe_data ?p), p1)" "pipe_ok p1"
      "pipe_data p1 = drop n (pipe_data ?p)" "pipe_budget p1 = pipe_budget ?p" "p_writer p1 = p_writer p"
      using Suc.IH [of ?p "i + 1"] r(1) Suc.prems(3) by auto
    have "p_rpos p \<noteq> p_wpos p" using pipe_empty [OF Suc.prems(1)] Cons by simp
    then show ?thesis using p1 r Cons by simp
  qed
qed simp

interpretation pch: channel pipe_ok pipe_data 4096 pipe_budget pipe_put pipe_get
proof unfold_locales
  fix p and c :: u8
  assume p: "pipe_ok p" "length (pipe_data p) < 4096" "0 < pipe_budget p"
  have "enat (length [c]) \<le> pipe_budget p"
    using p(3) by (cases "pipe_budget p") (simp_all add: zero_enat_def)
  then obtain p1 where "pipe_write [c] p = (1, p1)" "pipe_ok p1" "pipe_data p1 = pipe_data p @ [c]"
    "pipe_budget p \<le> pipe_budget p1 + enat 1"
    using pipe_write_loop_spec [OF p(1), of "[c]" 0] p(2) by (auto simp: pipe_write_def)
  then show "\<exists>p1. pipe_put c p = Some p1 \<and> pipe_ok p1 \<and> pipe_data p1 = pipe_data p @ [c] \<and>
      pipe_budget p \<le> eSuc (pipe_budget p1)"
    by (cases "pipe_budget p1") (simp_all add: pipe_put_def eSuc_enat)
next
  fix p c cs
  assume p: "pipe_ok p" "pipe_data p = c # cs"
  then show "\<exists>p1. pipe_get p = Some ([c], p1) \<and> pipe_ok p1 \<and> pipe_data p1 = cs \<and>
      pipe_budget p \<le> pipe_budget p1"
    using pipe_read_loop_spec [OF p(1), of 0 1] by (auto simp: pipe_get_def pipe_read_def)
qed


text \<open>What the code does with a read of an empty pipe that still has a writer.\<close>

lemma pipe_read_underflow:
  assumes "pipe_ok p" "pipe_data p = []" "p_writer p \<noteq> 0"
  shows "fst (pipe_read 1 p) = [p_bytes p ! unat (p_rpos p mod PAGE_SIZE)]"
    "unat (p_wpos p) < unat (p_rpos (snd (pipe_read 1 p)))"
proof -
  have e: "p_rpos p = p_wpos p" using pipe_empty assms(1,2) by blast
  have "unat (p_wpos p + 1) = unat (p_wpos p) + 1"
    using assms(1) by (simp add: pipe_ok_def unat_word_ariths(1))
  then show "fst (pipe_read 1 p) = [p_bytes p ! unat (p_rpos p mod PAGE_SIZE)]"
    "unat (p_wpos p) < unat (p_rpos (snd (pipe_read 1 p)))"
    using assms(3) e by (simp_all add: pipe_read_def)
qed

section \<open>Property\<close>

text \<open>
  C36. A pipe refines a queue of at most 4096 bytes. For every program of write and read
  calls that never reads the empty pipe and that writes fewer bytes than the 32-bit
  positions can count, each call returns what the queue returns: a write the number of bytes
  that fit, a read the oldest bytes in order; and the pipe afterwards holds what the queue holds.
\<close>

theorem pipe_refines_queue:
  assumes "pipe_ok p" "reads_data cs (pipe_data p)" "enat (total_written cs) \<le> pipe_budget p"
    and "run_calls pipe_call_on cs p = (rs, p1)"
  shows "run_calls queue_call cs (pipe_data p) = (rs, pipe_data p1) \<and> pipe_ok p1"
proof -
  have "\<exists>rs p1. run_calls pipe_call_on cs p = (rs, p1) \<and> pipe_ok p1 \<and>
      run_calls queue_call cs (pipe_data p) = (rs, pipe_data p1)"
    using assms(1-3)
  proof (induction cs arbitrary: p rule: total_written.induct)
    case (2 bs cs)
    have "enat (length bs) \<le> pipe_budget p"
      using 2(4) by (rule order_trans [rotated]) simp
    then obtain q where q: "pipe_write bs p = (int (min (length bs) (4096 - length (pipe_data p))), q)"
      "pipe_ok q" "pipe_data q = pipe_data p @ take (4096 - length (pipe_data p)) bs"
      "pipe_budget p \<le> pipe_budget q + enat (length bs)"
      using pipe_write_loop_spec [OF 2(2), of bs 0] by (auto simp: pipe_write_def)
    have "enat (total_written cs) \<le> pipe_budget q"
      using 2(4) q(4) by (cases "pipe_budget p"; cases "pipe_budget q") auto
    then show ?case using 2(1) [of q] 2(3) q by (auto simp: split_def)
  next
    case (3 n cs)
    then obtain q where "pipe_read_loop n 0 p = (take n (pipe_data p), q)" "pipe_ok q"
      "pipe_data q = drop n (pipe_data p)" "pipe_budget q = pipe_budget p"
      using pipe_read_loop_spec [OF 3(2), of 0 n] by auto
    then show ?case using 3(1) [of q] 3(3,4) by (auto simp: split_def pipe_read_def)
  qed simp
  then show ?thesis using assms(4) by auto
qed

theorem pipe_refines_queue_witness:
  "pipe_ok (snd (run_calls pipe_call_on [WriteCall [1, 2, 3], ReadCall 2] new_pipe_info)) \<and>
   fst (run_calls pipe_call_on [WriteCall [1, 2, 3], ReadCall 2] new_pipe_info) = [Wrote 3, Got [1, 2]]"
proof -
  have n: "pipe_ok new_pipe_info" "pipe_data new_pipe_info = []"
    by (simp_all add: new_pipe_info_def pipe_ok_def pipe_data_def)
  have b: "pipe_budget new_pipe_info = enat (2 ^ 32 - 4097)"
    by (simp add: new_pipe_info_def pipe_budget_def)
  obtain rs p1 where r: "run_calls pipe_call_on [WriteCall [1, 2, 3], ReadCall 2] new_pipe_info = (rs, p1)"
    by fastforce
  show ?thesis using pipe_refines_queue [OF n(1) _ _ r] b n(2) r by (simp del: run_calls.simps(2)) simp
qed

end
