(* ===== verification/Vfs.thy ===== *)
theory Vfs
  imports Slab_Props Hlist Strings Keyboard Pipe
begin

text \<open>
  Files, inodes and directory entries: \<^verbatim>\<open>fs/file.c\<close>, \<^verbatim>\<open>fs/inode.c\<close>, \<^verbatim>\<open>fs/dcache.c\<close>, the file
  operations of \<^verbatim>\<open>fs/pipefs\<close>, \<^verbatim>\<open>fs/ramfs\<close> and \<^verbatim>\<open>fs/ttyfs\<close>, and the system calls on
  descriptors in \<^verbatim>\<open>kernel/syscall\<close>. Every object has the address that \<^verbatim>\<open>kmalloc\<close> gave it (0
  is \<^verbatim>\<open>NULL\<close>), the objects of one type live in one function from addresses to records, and
  the heap they come from is the allocator of the theories on slabs. The table of descriptors
  of the current task is the argument \<open>ft\<close>, the processor the argument \<open>cpu\<close>. A descriptor
  outside the table, which the code does not check for, is \<open>None\<close>.
\<close>

section \<open>Data\<close>

definition MAX_FILE :: nat where "MAX_FILE = 128"
definition DNAME_LEN_MIN :: nat where "DNAME_LEN_MIN = 36"
definition MAX_DENTRY_HASH :: nat where "MAX_DENTRY_HASH = 1024"

definition O_ACCMODE :: u32 where "O_ACCMODE = 3"
definition O_RDONLY :: u32 where "O_RDONLY = 0"
definition O_WRONLY :: u32 where "O_WRONLY = 1"
definition O_RDWR :: u32 where "O_RDWR = 2"

definition S_IFMT :: u32 where "S_IFMT = 0xF000"
definition S_IFREG :: u32 where "S_IFREG = 0x8000"
definition S_IFDIR :: u32 where "S_IFDIR = 0x4000"
definition S_IFCHR :: u32 where "S_IFCHR = 0x2000"
definition S_IFIFO :: u32 where "S_IFIFO = 0x1000"

text \<open>The tables \<^verbatim>\<open>struct file_operations\<close> and \<^verbatim>\<open>struct inode_operations\<close> of the file systems.\<close>

datatype fops = pipefs_file_op | ttyfs_file_op | ramfs_file_operations | simple_file_operations
  | simple_dir_operations

datatype iops = empty_iops | pipefs_inode_op | ttyfs_inode_op | ramfs_dir_inode_operations
  | simple_file_inode_operations | simple_dir_inode_operations

text \<open>
  The tables \<^verbatim>\<open>struct super_operations\<close>: those of the registered file systems (\<^verbatim>\<open>minix1fs\<close> is
  never registered), the one of \<^verbatim>\<open>libfs.c\<close> and the empty one that \<^verbatim>\<open>alloc_sb\<close> installs. Of these
  only the table of \<^verbatim>\<open>libfs.c\<close> has an \<^verbatim>\<open>alloc_inode\<close>.
\<close>

datatype sops = empty_sops | root_super_op | pipefs_super_op | ttyfs_super_op | ramfs_super_ops
  | simple_super_operations

record super_block =
  s_dev :: int
  s_op :: sops

record kfile =
  f_mode :: u32
  f_flags :: u32
  f_count :: u32
  f_inode :: nat
  f_pos :: u32
  f_op :: "fops option"
  f_dentry :: nat
  f_vfsmnt :: nat

record inode =
  i_num :: u32
  i_state :: int
  i_dev :: int
  i_mode :: u32
  i_nlink :: int
  i_count :: atomic
  i_op :: iops
  i_fop :: "fops option"
  i_sb :: nat
  i_inode :: nat
  i_pipe :: nat

record qstr =
  q_name :: "u8 list"
  q_len :: nat

record dentry =
  d_parent :: nat
  d_inode :: nat
  d_sb :: nat
  d_name :: qstr
  d_count :: atomic
  d_mounted :: int

record vfsmount =
  mnt_parent :: nat
  mnt_root :: nat

record vfst =
  v_sl :: slst
  v_files :: "nat \<Rightarrow> kfile"
  v_fd :: "nat \<Rightarrow> nat \<Rightarrow> nat"
  v_inodes :: "nat \<Rightarrow> inode"
  v_supers :: "nat \<Rightarrow> super_block"
  v_dentries :: "nat \<Rightarrow> dentry"
  v_pipes :: "nat \<Rightarrow> pipe_inode_info"
  v_ram :: "nat \<Rightarrow> u8 list"
  v_tty :: tty_queue
  v_out :: "u8 list"
  v_dhash :: "(nat, nat) hheap"
  v_mnts :: "nat \<Rightarrow> vfsmount"
  v_mhash :: "(nat, nat) hheap"
  last_ino :: u32
  inode_lock :: spinlock
  pipe_mnt :: nat
  pipe_sb :: nat

definition SIZEOF_FILE :: nat where "SIZEOF_FILE = 32"
definition SIZEOF_FILES :: nat where "SIZEOF_FILES = 512"
definition SIZEOF_FS :: nat where "SIZEOF_FS = 16"
definition SIZEOF_INODE :: nat where "SIZEOF_INODE = 52"
definition SIZEOF_DENTRY :: nat where "SIZEOF_DENTRY = 80"
definition SIZEOF_PIPE :: nat where "SIZEOF_PIPE = 20"

definition upd_file :: "nat \<Rightarrow> (kfile \<Rightarrow> kfile) \<Rightarrow> vfst \<Rightarrow> vfst" where
  "upd_file f g st = st\<lparr>v_files := (v_files st)(f := g (v_files st f))\<rparr>"

definition upd_inode :: "nat \<Rightarrow> (inode \<Rightarrow> inode) \<Rightarrow> vfst \<Rightarrow> vfst" where
  "upd_inode i g st = st\<lparr>v_inodes := (v_inodes st)(i := g (v_inodes st i))\<rparr>"

definition upd_dentry :: "nat \<Rightarrow> (dentry \<Rightarrow> dentry) \<Rightarrow> vfst \<Rightarrow> vfst" where
  "upd_dentry d g st = st\<lparr>v_dentries := (v_dentries st)(d := g (v_dentries st d))\<rparr>"

definition upd_pipe :: "nat \<Rightarrow> (pipe_inode_info \<Rightarrow> pipe_inode_info) \<Rightarrow> vfst \<Rightarrow> vfst" where
  "upd_pipe p g st = st\<lparr>v_pipes := (v_pipes st)(p := g (v_pipes st p))\<rparr>"

definition set_fd :: "nat \<Rightarrow> nat \<Rightarrow> nat \<Rightarrow> vfst \<Rightarrow> vfst" where
  "set_fd ft fd f st = st\<lparr>v_fd := (v_fd st)(ft := (v_fd st ft)(fd := f))\<rparr>"

definition valloc :: "nat \<Rightarrow> nat \<Rightarrow> vfst \<Rightarrow> (nat \<times> vfst) option" where
  "valloc cpu n st = do { (p, sl) \<leftarrow> kmalloc cpu n (v_sl st); Some (p, st\<lparr>v_sl := sl\<rparr>) }"

definition vfree :: "nat \<Rightarrow> nat \<Rightarrow> vfst \<Rightarrow> vfst option" where
  "vfree cpu p st = do { sl \<leftarrow> kfree cpu p (v_sl st); Some (st\<lparr>v_sl := sl\<rparr>) }"

section \<open>\<^verbatim>\<open>file.c\<close>\<close>

definition zero_file :: kfile where
  "zero_file = \<lparr>f_mode = 0, f_flags = 0, f_count = 0, f_inode = 0, f_pos = 0, f_op = None,
     f_dentry = 0, f_vfsmnt = 0\<rparr>"

definition alloc_file :: "nat \<Rightarrow> vfst \<Rightarrow> (nat \<times> vfst) option" where
  "alloc_file cpu st = do {
     (f, st1) \<leftarrow> valloc cpu SIZEOF_FILE st;
     if f = 0 then Some (0, st1) else Some (f, upd_file f (\<lambda>_. zero_file) st1) }"

definition free_file :: "nat \<Rightarrow> nat \<Rightarrow> vfst \<Rightarrow> vfst option" where
  "free_file cpu f st = (if f \<noteq> 0 then vfree cpu f st else Some st)"

fun unused_fd :: "nat \<Rightarrow> nat \<Rightarrow> nat \<Rightarrow> vfst \<Rightarrow> nat option" where
  "unused_fd 0 fd ft st = None"
| "unused_fd (Suc n) fd ft st = (if v_fd st ft fd = 0 then Some fd else unused_fd n (fd + 1) ft st)"

definition get_unused_fd :: "nat \<Rightarrow> vfst \<Rightarrow> int" where
  "get_unused_fd ft st =
     (case unused_fd MAX_FILE 0 ft st of None \<Rightarrow> - errno_val EMFILE | Some fd \<Rightarrow> int fd)"

definition get_empty_file :: "nat \<Rightarrow> nat \<Rightarrow> vfst \<Rightarrow> (int \<times> nat \<times> vfst) option" where
  "get_empty_file cpu ft st =
     (case unused_fd MAX_FILE 0 ft st of
        None \<Rightarrow> Some (- errno_val EMFILE, 0, st)
      | Some fd \<Rightarrow> do {
          (f, st1) \<leftarrow> alloc_file cpu st;
          if f = 0 then Some (- errno_val ENOMEM, 0, st1)
          else Some (int fd, f, set_fd ft fd f st1) })"

definition find_file :: "nat \<Rightarrow> int \<Rightarrow> vfst \<Rightarrow> (int \<times> nat) option" where
  "find_file ft fd st =
     (if 0 \<le> fd \<and> nat fd < MAX_FILE then
        let f = v_fd st ft (nat fd) in Some (if f \<noteq> 0 then (0, f) else (- errno_val EBADF, 0))
      else None)"

definition pipefs_file_flush :: "nat \<Rightarrow> vfst \<Rightarrow> vfst" where
  "pipefs_file_flush f st =
     (let info = i_pipe (v_inodes st (f_inode (v_files st f)));
          acc = f_flags (v_files st f) AND O_ACCMODE
      in if acc = O_RDONLY then upd_pipe info (\<lambda>p. p\<lparr>p_reader := p_reader p - 1\<rparr>) st
         else if acc = O_WRONLY then upd_pipe info (\<lambda>p. p\<lparr>p_writer := p_writer p + 1\<rparr>) st
         else st)"

definition flush :: "nat \<Rightarrow> vfst \<Rightarrow> vfst" where
  "flush f st = (if f_op (v_files st f) = Some pipefs_file_op then pipefs_file_flush f st else st)"

definition deref_file :: "nat \<Rightarrow> nat \<Rightarrow> int \<Rightarrow> vfst \<Rightarrow> vfst option" where
  "deref_file cpu ft fd st =
     (if 0 \<le> fd \<and> nat fd < MAX_FILE then
        let f = v_fd st ft (nat fd) in
        if f = 0 then Some st
        else
          let st1 = flush f st;
              st2 = upd_file f (\<lambda>x. x\<lparr>f_count := f_count x - 1\<rparr>) st1
          in do {
            st3 \<leftarrow> (if f_count (v_files st2 f) = 0 then free_file cpu f st2 else Some st2);
            Some (set_fd ft (nat fd) 0 st3) }
      else None)"

section \<open>Duplicating, forking and exiting\<close>

definition dup :: "nat \<Rightarrow> int \<Rightarrow> vfst \<Rightarrow> (int \<times> vfst) option" where
  "dup ft oldfd st = do {
     (r, old) \<leftarrow> find_file ft oldfd st;
     if r < 0 then Some (r, st)
     else
       let fd = get_unused_fd ft st in
       if fd < 0 then Some (fd, st)
       else Some (fd, upd_file old (\<lambda>x. x\<lparr>f_count := f_count x + 1\<rparr>) (set_fd ft (nat fd) old st)) }"

definition dup2 :: "nat \<Rightarrow> nat \<Rightarrow> int \<Rightarrow> int \<Rightarrow> vfst \<Rightarrow> (int \<times> vfst) option" where
  "dup2 cpu ft oldfd newfd st =
     (if oldfd = newfd then Some (0, st)
      else do {
        (r, old) \<leftarrow> find_file ft oldfd st;
        if r < 0 then Some (r, st)
        else if 0 \<le> newfd \<and> nat newfd < MAX_FILE then do {
          st1 \<leftarrow> (if v_fd st ft (nat newfd) \<noteq> 0 then deref_file cpu ft newfd st else Some st);
          Some (0, upd_file old (\<lambda>x. x\<lparr>f_count := f_count x + 1\<rparr>) (set_fd ft (nat newfd) old st1)) }
        else None })"

fun count_files :: "nat \<Rightarrow> nat \<Rightarrow> nat \<Rightarrow> vfst \<Rightarrow> vfst" where
  "count_files 0 i ft st = st"
| "count_files (Suc n) i ft st =
     (let f = v_fd st ft i in
      count_files n (i + 1) ft (if f \<noteq> 0 then upd_file f (\<lambda>x. x\<lparr>f_count := f_count x + 1\<rparr>) st else st))"

text \<open>\<open>copy_files\<close> returns the error code and the new \<^verbatim>\<open>fs_struct\<close> and \<^verbatim>\<open>files_struct\<close>.\<close>

definition copy_files :: "nat \<Rightarrow> nat \<Rightarrow> vfst \<Rightarrow> (int \<times> nat \<times> nat \<times> vfst) option" where
  "copy_files cpu ft st = do {
     (fs, st1) \<leftarrow> valloc cpu SIZEOF_FS st;
     if fs = 0 then Some (- errno_val ENOMEM, 0, 0, st1)
     else do {
       (files, st2) \<leftarrow> valloc cpu SIZEOF_FILES st1;
       if files = 0 then do {
         st3 \<leftarrow> vfree cpu fs st2;
         Some (- errno_val ENOMEM, 0, 0, st3) }
       else
         let st3 = st2\<lparr>v_fd := (v_fd st2)(files := v_fd st2 ft)\<rparr>
         in Some (0, fs, files, count_files MAX_FILE 0 files st3) } }"

fun exit_files_from :: "nat \<Rightarrow> nat \<Rightarrow> nat \<Rightarrow> nat \<Rightarrow> vfst \<Rightarrow> vfst option" where
  "exit_files_from 0 i cpu ft st = Some st"
| "exit_files_from (Suc n) i cpu ft st = do {
     st1 \<leftarrow> deref_file cpu ft (int i) st;
     exit_files_from n (i + 1) cpu ft st1 }"

definition exit_files :: "nat \<Rightarrow> nat \<Rightarrow> vfst \<Rightarrow> vfst option" where
  "exit_files cpu ft st = exit_files_from MAX_FILE 0 cpu ft st"

definition close :: "nat \<Rightarrow> int \<Rightarrow> vfst \<Rightarrow> vfst option" where
  "close ft fd st = do { (r, f) \<leftarrow> find_file ft fd st; Some st }"

definition fdtype :: "nat \<Rightarrow> int \<Rightarrow> vfst \<Rightarrow> int option" where
  "fdtype ft fd st = do {
     (r, old) \<leftarrow> find_file ft fd st;
     if r < 0 then Some r else Some (uint (i_mode (v_inodes st (f_inode (v_files st old))) AND S_IFMT)) }"


section \<open>Reading and writing\<close>

text \<open>The reads return the value of the call and the bytes stored into the buffer of the caller.\<close>

definition le4 :: "u32 \<Rightarrow> u8 list" where
  "le4 w = [ucast w, ucast (drop_bit 8 w), ucast (drop_bit 16 w), ucast (drop_bit 24 w)]"

definition ttyfs_file_read :: "int \<Rightarrow> vfst \<Rightarrow> (int \<times> u8 list \<times> vfst) option" where
  "ttyfs_file_read n st = do {
     (cs, q) \<leftarrow> tty_read n (v_tty st);
     Some (int (length cs), concat (map le4 cs), st\<lparr>v_tty := q\<rparr>) }"

definition pipefs_file_read :: "nat \<Rightarrow> int \<Rightarrow> vfst \<Rightarrow> (int \<times> u8 list \<times> vfst) option" where
  "pipefs_file_read f n st =
     (let info = i_pipe (v_inodes st (f_inode (v_files st f)));
          (bs, p) = pipe_read n (v_pipes st info)
      in Some (int (length bs), bs, upd_pipe info (\<lambda>_. p) st))"

definition ramfs_file_read :: "nat \<Rightarrow> int \<Rightarrow> vfst \<Rightarrow> (int \<times> u8 list \<times> vfst) option" where
  "ramfs_file_read f n st = do {
     let inode = f_inode (v_files st f);
     kassert (inode \<noteq> 0);
     let ram = i_inode (v_inodes st inode);
     kassert (ram \<noteq> 0);
     let bytes = v_ram st ram;
     let sz = (of_nat (length bytes) :: u32);
     let pos = f_pos (v_files st f);
     if sz \<le> pos then Some (0, [], st)
     else do {
       let c = (if sz \<le> pos + of_int n then sz - pos else of_int n);
       kassert (unat pos + unat c \<le> length bytes);
       Some (sint c, take (unat c) (drop (unat pos) bytes), upd_file f (\<lambda>x. x\<lparr>f_pos := f_pos x + c\<rparr>) st) } }"

definition read_op :: "fops \<Rightarrow> nat \<Rightarrow> int \<Rightarrow> vfst \<Rightarrow> (int \<times> u8 list \<times> vfst) option" where
  "read_op ops f n st =
     (case ops of
        pipefs_file_op \<Rightarrow> pipefs_file_read f n st
      | ttyfs_file_op \<Rightarrow> ttyfs_file_read n st
      | ramfs_file_operations \<Rightarrow> ramfs_file_read f n st
      | simple_file_operations \<Rightarrow> None
      | simple_dir_operations \<Rightarrow> None)"

definition vread :: "nat \<Rightarrow> int \<Rightarrow> int \<Rightarrow> vfst \<Rightarrow> (int \<times> u8 list \<times> vfst) option" where
  "vread ft fd n st = do {
     (r, f) \<leftarrow> find_file ft fd st;
     if r < 0 then Some (r, [], st)
     else
       let acc = f_flags (v_files st f) AND O_ACCMODE in
       if acc \<noteq> O_RDONLY \<and> acc \<noteq> O_RDWR then Some (- errno_val EACCES, [], st)
       else
         (case f_op (v_files st f) of
            None \<Rightarrow> Some (- errno_val ENOTHING, [], st)
          | Some ops \<Rightarrow> read_op ops f n st) }"

definition pipefs_file_write :: "nat \<Rightarrow> u8 list \<Rightarrow> vfst \<Rightarrow> int \<times> vfst" where
  "pipefs_file_write f buf st =
     (let info = i_pipe (v_inodes st (f_inode (v_files st f)));
          (r, p) = pipe_write buf (v_pipes st info)
      in (r, upd_pipe info (\<lambda>_. p) st))"

definition tty_write :: "u8 list \<Rightarrow> vfst \<Rightarrow> int \<times> vfst" where
  "tty_write buf st = (int (length buf), st\<lparr>v_out := v_out st @ takeWhile (\<lambda>c. c \<noteq> 0) buf\<rparr>)"

definition write_op :: "fops \<Rightarrow> nat \<Rightarrow> u8 list \<Rightarrow> vfst \<Rightarrow> int \<times> vfst" where
  "write_op ops f buf st =
     (case ops of
        pipefs_file_op \<Rightarrow> pipefs_file_write f buf st
      | ttyfs_file_op \<Rightarrow> tty_write buf st
      | ramfs_file_operations \<Rightarrow> (0, st)
      | simple_file_operations \<Rightarrow> (- 1, st)
      | simple_dir_operations \<Rightarrow> (- 1, st))"

definition vwrite :: "nat \<Rightarrow> int \<Rightarrow> u8 list \<Rightarrow> vfst \<Rightarrow> (int \<times> vfst) option" where
  "vwrite ft fd buf st = do {
     (r, f) \<leftarrow> find_file ft fd st;
     if r < 0 then Some (r, st)
     else
       let acc = f_flags (v_files st f) AND O_ACCMODE in
       if acc \<noteq> O_WRONLY \<and> acc \<noteq> O_RDWR then Some (- errno_val EACCES, st)
       else Some (case f_op (v_files st f) of None \<Rightarrow> (- 1, st) | Some ops \<Rightarrow> write_op ops f buf st) }"

section \<open>\<^verbatim>\<open>inode.c\<close> and \<^verbatim>\<open>dcache.c\<close>\<close>

text \<open>
  \<^verbatim>\<open>simple_super_alloc_inode\<close> panics. The hash node of an inode is initialised but never used.
\<close>

definition simple_super_alloc_inode :: "nat \<Rightarrow> vfst \<Rightarrow> (nat \<times> vfst) option" where
  "simple_super_alloc_inode sb st = None"

definition alloc_inode :: "nat \<Rightarrow> nat \<Rightarrow> vfst \<Rightarrow> (nat \<times> vfst) option" where
  "alloc_inode cpu sb st = do {
     (i, st1) \<leftarrow> (if s_op (v_supers st sb) = simple_super_operations then simple_super_alloc_inode sb st
                  else valloc cpu SIZEOF_INODE st);
     Some (i, if i = 0 then st1
              else upd_inode i (\<lambda>x. x\<lparr>i_sb := sb, i_dev := s_dev (v_supers st sb), i_op := empty_iops, i_inode := 0, i_mode := 0,
                                     i_count := 1\<rparr>) st1) }"

definition new_inode :: "nat \<Rightarrow> nat \<Rightarrow> vfst \<Rightarrow> (nat \<times> vfst) option" where
  "new_inode cpu sb st = do {
     (i, st1) \<leftarrow> alloc_inode cpu sb st;
     if i = 0 then Some (0, st1)
     else do {
       lk \<leftarrow> spin_lock (inode_lock st1);
       let n = last_ino st1 + 1;
       let st2 = upd_inode i (\<lambda>x. x\<lparr>i_num := n, i_state := 0\<rparr>) (st1\<lparr>last_ino := n\<rparr>);
       Some (i, st2\<lparr>inode_lock := spin_unlock lk\<rparr>) } }"

definition dget :: "nat \<Rightarrow> vfst \<Rightarrow> vfst" where
  "dget d st = (if d \<noteq> 0 then upd_dentry d (\<lambda>x. x\<lparr>d_count := atomic_inc (d_count x)\<rparr>) st else st)"

definition d_alloc :: "nat \<Rightarrow> nat \<Rightarrow> qstr \<Rightarrow> vfst \<Rightarrow> (nat \<times> vfst) option" where
  "d_alloc cpu parent name st = do {
     (d, st1) \<leftarrow> valloc cpu SIZEOF_DENTRY st;
     if d = 0 then Some (0, st1)
     else
       let st2 = upd_dentry d (\<lambda>_. \<lparr>d_parent = 0, d_inode = 0, d_sb = 0, d_name = name, d_count = 1,
                                   d_mounted = 0\<rparr>) st1;
           st3 = st2\<lparr>v_dhash := INIT_HLIST_NODE d (v_dhash st2)\<rparr>
       in Some (d, if parent \<noteq> 0 then
                     let st4 = dget parent st3
                     in upd_dentry d (\<lambda>x. x\<lparr>d_parent := parent, d_sb := d_sb (v_dentries st4 parent)\<rparr>) st4
                   else st3) }"

definition d_alloc_root :: "nat \<Rightarrow> nat \<Rightarrow> qstr \<Rightarrow> vfst \<Rightarrow> (nat \<times> vfst) option" where
  "d_alloc_root cpu root_inode slash st =
     (if root_inode = 0 then Some (0, st)
      else do {
        (d, st1) \<leftarrow> d_alloc cpu 0 slash st;
        Some (d, if d = 0 then st1
                 else upd_dentry d (\<lambda>x. x\<lparr>d_sb := i_sb (v_inodes st1 root_inode), d_parent := d,
                                         d_inode := root_inode\<rparr>) st1) })"

fun name_hash :: "u8 list \<Rightarrow> u32 \<Rightarrow> u32" where
  "name_hash [] h = h"
| "name_hash (c # cs) h = name_hash cs (h + push_bit 5 h + scast c)"

definition hash :: "nat \<Rightarrow> u8 list \<Rightarrow> nat \<Rightarrow> u32" where
  "hash parent name len = push_bit 5 (of_nat parent XOR name_hash (take len name) 0)"

definition dentry_bucket :: "nat \<Rightarrow> qstr \<Rightarrow> nat" where
  "dentry_bucket parent q = unat (hash parent (q_name q) (q_len q)) mod MAX_DENTRY_HASH"

definition name_strncmp :: "u8 list \<Rightarrow> u8 list \<Rightarrow> nat \<Rightarrow> int" where
  "name_strncmp a b n = strncmp (\<lambda>i. if i < DNAME_LEN_MIN then a ! i else b ! (i - DNAME_LEN_MIN)) 0 DNAME_LEN_MIN n"

partial_function (option) dentry_search :: "qstr \<Rightarrow> nat option \<Rightarrow> vfst \<Rightarrow> nat option" where
  "dentry_search q pos st =
     (case pos of
        None \<Rightarrow> Some 0
      | Some d \<Rightarrow>
          if name_strncmp (q_name (d_name (v_dentries st d))) (q_name q) (q_len q) = 0 then Some d
          else dentry_search q (hnext (v_dhash st) d) st)"

definition dentry_lookup :: "nat \<Rightarrow> qstr \<Rightarrow> vfst \<Rightarrow> nat option" where
  "dentry_lookup parent q st = dentry_search q (hfirst (v_dhash st) (dentry_bucket parent q)) st"

definition dentry_insert :: "nat \<Rightarrow> nat \<Rightarrow> vfst \<Rightarrow> vfst" where
  "dentry_insert parent d st =
     st\<lparr>v_dhash := hlist_add_head d (dentry_bucket parent (d_name (v_dentries st d))) (v_dhash st)\<rparr>"


section \<open>\<^verbatim>\<open>pipe\<close>\<close>

definition get_pipe_info :: "nat \<Rightarrow> vfst \<Rightarrow> (nat \<times> vfst) option" where
  "get_pipe_info cpu st = do {
     (info, st1) \<leftarrow> valloc cpu SIZEOF_PIPE st;
     if info = 0 then Some (0, st1)
     else do {
       (new, s) \<leftarrow> page_alloc GFP_ZERO (sl_mm (v_sl st1));
       let st2 = st1\<lparr>v_sl := (v_sl st1)\<lparr>sl_mm := s\<rparr>\<rparr>;
       if new = None then do { st3 \<leftarrow> vfree cpu info st2; Some (0, st3) }
       else Some (info, upd_pipe info (\<lambda>_. new_pipe_info) st2) } }"

definition pipe_new :: "nat \<Rightarrow> nat \<Rightarrow> vfst \<Rightarrow> (int \<times> vfst) option" where
  "pipe_new cpu i st = do {
     (info, st1) \<leftarrow> get_pipe_info cpu st;
     if info = 0 then Some (- errno_val ENOMEM, st1)
     else Some (0, upd_inode i (\<lambda>x. x\<lparr>i_inode := 0, i_pipe := info\<rparr>) st1) }"

definition get_pipe_inode :: "nat \<Rightarrow> vfst \<Rightarrow> (nat \<times> vfst) option" where
  "get_pipe_inode cpu st = do {
     (i, st1) \<leftarrow> new_inode cpu (pipe_sb st) st;
     if i = 0 then Some (0, st1)
     else do {
       (r, st2) \<leftarrow> pipe_new cpu i st1;
       if r = 0 then Some (i, upd_inode i (\<lambda>x. x\<lparr>i_mode := S_IFIFO, i_fop := Some pipefs_file_op\<rparr>) st2)
       else do { st3 \<leftarrow> vfree cpu i st2; Some (0, st3) } } }"

text \<open>
  \<open>pipe\<close> returns the error code and the two descriptors. The name handed to \<^verbatim>\<open>d_alloc\<close> is an
  uninitialised local variable, hence an argument; the super block of the pipe file system has
  no root, so the entry has no parent.
\<close>

definition pipe :: "nat \<Rightarrow> nat \<Rightarrow> qstr \<Rightarrow> vfst \<Rightarrow> (int \<times> int \<times> int \<times> vfst) option" where
  "pipe cpu ft name st = do {
     (fd1, f1, st1) \<leftarrow> get_empty_file cpu ft st;
     if fd1 < 0 then Some (- errno_val ENFILE, 0, 0, st1)
     else do {
       (fd2, f2, st2) \<leftarrow> get_empty_file cpu ft st1;
       if fd2 < 0 then Some (- errno_val ENFILE, 0, 0, st2)
       else do {
         (inode, st3) \<leftarrow> get_pipe_inode cpu st2;
         if inode = 0 then Some (- errno_val ENFILE, 0, 0, st3)
         else do {
           (dentry, st4) \<leftarrow> d_alloc cpu 0 name st3;
           if dentry = 0 then Some (- errno_val ENOMEM, 0, 0, st4)
           else
             let end_file = (\<lambda>flags x. x\<lparr>f_flags := flags, f_count := 1, f_inode := inode, f_pos := 0,
                               f_op := Some pipefs_file_op, f_dentry := dentry, f_vfsmnt := pipe_mnt st4\<rparr>);
                 st5 = upd_file f2 (end_file O_WRONLY) (upd_file f1 (end_file O_RDONLY) st4)
             in Some (0, fd1, fd2, set_fd ft (nat fd2) f2 (set_fd ft (nat fd1) f1 st5)) } } } }"

end
