(* ===== verification/Namei.thy ===== *)
theory Namei
  imports Vfs
begin

text \<open>
  Path names and the calls that use them: \<^verbatim>\<open>fs/namei.c\<close>, \<^verbatim>\<open>fs/vfsmount.c\<close>, the inode
  operations of \<^verbatim>\<open>fs/libfs.c\<close> and \<^verbatim>\<open>fs/ramfs/ramfs_inode.c\<close>, and \<^verbatim>\<open>open\<close>, \<^verbatim>\<open>create\<close> and
  \<^verbatim>\<open>mkdir\<close> in \<^verbatim>\<open>kernel/syscall\<close>. A path is the list of its bytes without the final zero. The
  name of a component is copied into an array of 36 bytes without a check of its length;
  a longer component is \<open>None\<close>. The contents of that array behind the component are those of
  an uninitialised local variable and are the argument \<open>junk\<close>.
\<close>

section \<open>Mounts\<close>

definition LOOKUP_FOLLOW :: u32 where "LOOKUP_FOLLOW = 1"
definition LOOKUP_PARENT :: u32 where "LOOKUP_PARENT = 8"
definition LOOKUP_OPEN :: u32 where "LOOKUP_OPEN = 16"

definition LAST_NORM :: int where "LAST_NORM = 1"
definition LAST_DOT :: int where "LAST_DOT = 2"
definition LAST_DOTDOT :: int where "LAST_DOTDOT = 3"

definition mnt_bucket :: "nat \<Rightarrow> nat \<Rightarrow> nat" where
  "mnt_bucket dentry mnt = unat (push_bit 5 (of_nat dentry XOR of_nat mnt :: u32)) mod 1024"

definition insert_vfsmnt :: "nat \<Rightarrow> nat \<Rightarrow> vfst \<Rightarrow> vfst option" where
  "insert_vfsmnt mnt dentry st =
     (if dentry \<noteq> 0 \<and> mnt \<noteq> 0 \<and> mnt_parent (v_mnts st mnt) \<noteq> 0 then
        Some (st\<lparr>v_mhash := hlist_add_head mnt (mnt_bucket dentry (mnt_parent (v_mnts st mnt))) (v_mhash st)\<rparr>)
      else None)"

partial_function (option) mnt_search :: "nat \<Rightarrow> nat option \<Rightarrow> vfst \<Rightarrow> nat option" where
  "mnt_search mnt pos st =
     (case pos of
        None \<Rightarrow> Some 0
      | Some t \<Rightarrow> if mnt_parent (v_mnts st t) = mnt then Some t else mnt_search mnt (hnext (v_mhash st) t) st)"

definition lookup_vfsmnt :: "nat \<Rightarrow> nat \<Rightarrow> vfst \<Rightarrow> nat option" where
  "lookup_vfsmnt mnt dentry st = mnt_search mnt (hfirst (v_mhash st) (mnt_bucket dentry mnt)) st"

partial_function (option) follow_mount :: "nat \<Rightarrow> nat \<Rightarrow> vfst \<Rightarrow> (nat \<times> nat) option" where
  "follow_mount mnt dentry st =
     (if dentry = 0 then Some (mnt, dentry)
      else do {
        mounted \<leftarrow> lookup_vfsmnt mnt dentry st;
        if mounted = 0 then Some (mnt, dentry) else follow_mount mounted (mnt_root (v_mnts st mounted)) st })"

section \<open>\<^verbatim>\<open>namei.c\<close>\<close>

record nameidata =
  nd_dentry :: nat
  nd_mnt :: nat
  nd_last :: qstr
  nd_flags :: u32
  nd_last_type :: int

record fs_struct =
  fs_root :: nat
  fs_mnt_root :: nat
  fs_pwd :: nat
  fs_mnt_pwd :: nat

definition real_lookup :: nat where
  "real_lookup = 0"

definition do_lookup :: "nameidata \<Rightarrow> qstr \<Rightarrow> vfst \<Rightarrow> (int \<times> nat \<times> nat) option" where
  "do_lookup nd name st = do {
     d \<leftarrow> dentry_lookup (nd_dentry nd) name st;
     let dentry = (if d = 0 then real_lookup else d);
     if dentry = 0 then Some (- errno_val ENOENT, 0, 0)
     else do {
       (m, e) \<leftarrow> follow_mount (nd_mnt nd) dentry st;
       Some (0, m, e) } }"

definition component :: "u8 list \<Rightarrow> u8 list \<Rightarrow> qstr option" where
  "component junk c =
     (if length c < DNAME_LEN_MIN then
        Some \<lparr>q_name = c @ 0 # drop (length c + 1) junk, q_len = length c\<rparr>
      else None)"

definition is_dot :: "qstr \<Rightarrow> bool" where
  "is_dot q \<longleftrightarrow> q_name q ! 0 = 0x2E \<and> q_len q = 1"

definition is_dotdot :: "qstr \<Rightarrow> bool" where
  "is_dotdot q \<longleftrightarrow> q_name q ! 0 = 0x2E \<and> q_len q = 2 \<and> q_name q ! 1 = 0x2E"

definition last_component :: "int \<Rightarrow> qstr \<Rightarrow> nameidata \<Rightarrow> vfst \<Rightarrow> (int \<times> nameidata) option" where
  "last_component res this nd st =
     (if nd_flags nd AND LOOKUP_PARENT \<noteq> 0 then
        let nd1 = nd\<lparr>nd_last := this, nd_last_type := LAST_NORM\<rparr> in
        if q_name this ! 0 \<noteq> 0x2E then Some (0, nd1)
        else
          let nd2 = (if q_len this = 1 then nd1\<lparr>nd_last_type := LAST_DOT\<rparr> else nd1);
              nd3 = (if q_len this = 1 then nd2\<lparr>nd_last_type := LAST_DOTDOT\<rparr> else nd2)
          in Some (0, nd3)
      else if is_dotdot this then Some (res, nd\<lparr>nd_dentry := d_parent (v_dentries st (nd_dentry nd))\<rparr>)
      else if is_dot this then Some (res, nd)
      else do {
        (r, m, d) \<leftarrow> do_lookup nd this st;
        if r < 0 then Some (r, nd) else Some (r, nd\<lparr>nd_mnt := m, nd_dentry := d\<rparr>) })"

partial_function (option) walk_path ::
  "u8 list \<Rightarrow> int \<Rightarrow> u8 list \<Rightarrow> nameidata \<Rightarrow> vfst \<Rightarrow> (int \<times> nameidata) option" where
  "walk_path junk res name nd st = do {
     this \<leftarrow> component junk (takeWhile (\<lambda>c. c \<noteq> 0x2F) name);
     let rest = dropWhile (\<lambda>c. c \<noteq> 0x2F) name;
     if rest = [] then last_component res this nd st
     else
       let name1 = dropWhile (\<lambda>c. c = 0x2F) rest in
       if name1 = [] then last_component 0 this nd st
       else if is_dotdot this then
         walk_path (q_name this) res name1 (nd\<lparr>nd_dentry := d_parent (v_dentries st (nd_dentry nd))\<rparr>) st
       else if is_dot this then walk_path (q_name this) res name1 nd st
       else do {
         (r, m, d) \<leftarrow> do_lookup nd this st;
         if r < 0 then Some (r, nd)
         else if d_inode (v_dentries st d) = 0 then Some (r, nd)
         else walk_path (q_name this) r name1 (nd\<lparr>nd_mnt := m, nd_dentry := d\<rparr>) st } }"

definition link_path_lookup :: "u8 list \<Rightarrow> u8 list \<Rightarrow> nameidata \<Rightarrow> vfst \<Rightarrow> (int \<times> nameidata) option" where
  "link_path_lookup junk name nd st =
     (let name1 = dropWhile (\<lambda>c. c = 0x2F) name in
      if name1 = [] then Some (- errno_val ENOENT, nd)
      else walk_path junk (- errno_val ENOENT) name1 nd st)"

definition path_lookup ::
  "u8 list \<Rightarrow> u8 list \<Rightarrow> u32 \<Rightarrow> fs_struct \<Rightarrow> nameidata \<Rightarrow> vfst \<Rightarrow> (int \<times> nameidata) option" where
  "path_lookup junk name flags fs nd st =
     (case name of
        [] \<Rightarrow> Some (- errno_val ENOENT, nd)
      | c # _ \<Rightarrow>
          let nd1 = (if c = 0x2F then nd\<lparr>nd_mnt := fs_mnt_root fs, nd_dentry := fs_root fs\<rparr>
                     else nd\<lparr>nd_mnt := fs_mnt_pwd fs, nd_dentry := fs_pwd fs\<rparr>)
          in link_path_lookup junk name (nd1\<lparr>nd_flags := flags\<rparr>) st)"

section \<open>Inode operations\<close>

definition simple_get_inode :: "nat \<Rightarrow> nat \<Rightarrow> u32 \<Rightarrow> vfst \<Rightarrow> (nat \<times> vfst) option" where
  "simple_get_inode cpu sb mode st = do {
     (i, st1) \<leftarrow> new_inode cpu sb st;
     if i = 0 then Some (0, st1)
     else
       let fmt = mode AND S_IFMT;
           st2 = (if fmt = S_IFREG then
                    upd_inode i (\<lambda>x. x\<lparr>i_op := simple_file_inode_operations, i_fop := Some simple_file_operations\<rparr>) st1
                  else if fmt = S_IFDIR then
                    upd_inode i (\<lambda>x. x\<lparr>i_op := simple_dir_inode_operations, i_fop := Some simple_dir_operations\<rparr>) st1
                  else st1)
       in Some (i, upd_inode i (\<lambda>x. x\<lparr>i_mode := mode, i_sb := sb\<rparr>) st2) }"

definition ramfs_get_inode :: "nat \<Rightarrow> nat \<Rightarrow> u32 \<Rightarrow> vfst \<Rightarrow> (nat \<times> vfst) option" where
  "ramfs_get_inode cpu sb mode st = do {
     (i, st1) \<leftarrow> new_inode cpu sb st;
     if i = 0 then Some (0, st1)
     else
       let fmt = mode AND S_IFMT;
           st2 = (if fmt = S_IFREG then
                    upd_inode i (\<lambda>x. x\<lparr>i_op := simple_file_inode_operations, i_fop := Some simple_file_operations\<rparr>) st1
                  else if fmt = S_IFDIR then
                    upd_inode i (\<lambda>x. x\<lparr>i_op := ramfs_dir_inode_operations, i_fop := Some simple_dir_operations\<rparr>) st1
                  else st1)
       in Some (i, upd_inode i (\<lambda>x. x\<lparr>i_mode := mode, i_sb := sb\<rparr>) st2) }"

definition hook_inode :: "nat \<Rightarrow> nat \<Rightarrow> vfst \<Rightarrow> int \<times> vfst" where
  "hook_inode d i st =
     (if i \<noteq> 0 then (0, upd_dentry d (\<lambda>x. x\<lparr>d_inode := i, d_count := 1\<rparr>) st)
      else (- errno_val ENOSPC, st))"

definition simple_dir_inode_mknod :: "nat \<Rightarrow> nat \<Rightarrow> nat \<Rightarrow> u32 \<Rightarrow> vfst \<Rightarrow> (int \<times> vfst) option" where
  "simple_dir_inode_mknod cpu dir d mode st = do {
     (i, st1) \<leftarrow> simple_get_inode cpu (i_sb (v_inodes st dir)) mode st;
     Some (hook_inode d i st1) }"

definition ramfs_mknod :: "nat \<Rightarrow> nat \<Rightarrow> nat \<Rightarrow> u32 \<Rightarrow> vfst \<Rightarrow> (int \<times> vfst) option" where
  "ramfs_mknod cpu dir d mode st = do {
     (i, st1) \<leftarrow> ramfs_get_inode cpu (i_sb (v_inodes st dir)) mode st;
     Some (hook_inode d i st1) }"

definition simple_dir_inode_create :: "nat \<Rightarrow> nat \<Rightarrow> nat \<Rightarrow> u32 \<Rightarrow> vfst \<Rightarrow> (int \<times> vfst) option" where
  "simple_dir_inode_create cpu dir d mode st = simple_dir_inode_mknod cpu dir d (mode OR S_IFREG) st"

definition ramfs_create :: "nat \<Rightarrow> nat \<Rightarrow> nat \<Rightarrow> u32 \<Rightarrow> vfst \<Rightarrow> (int \<times> vfst) option" where
  "ramfs_create cpu dir d mode st = ramfs_mknod cpu dir d (mode OR S_IFREG) st"

definition simple_dir_inode_mkdir :: "nat \<Rightarrow> nat \<Rightarrow> nat \<Rightarrow> u32 \<Rightarrow> vfst \<Rightarrow> (int \<times> vfst) option" where
  "simple_dir_inode_mkdir cpu dir d mode st = do {
     (r, st1) \<leftarrow> simple_dir_inode_mknod cpu dir d (mode OR S_IFDIR) st;
     Some (r, if r = 0 then upd_inode dir (\<lambda>x. x\<lparr>i_nlink := i_nlink x + 1\<rparr>) st1 else st1) }"

definition ramfs_mkdir :: "nat \<Rightarrow> nat \<Rightarrow> nat \<Rightarrow> u32 \<Rightarrow> vfst \<Rightarrow> (int \<times> vfst) option" where
  "ramfs_mkdir cpu dir d mode st = do {
     (r, st1) \<leftarrow> ramfs_mknod cpu dir d (mode OR S_IFDIR) st;
     Some (r, if r = 0 then upd_inode dir (\<lambda>x. x\<lparr>i_nlink := i_nlink x + 1\<rparr>) st1 else st1) }"

text \<open>The calls through the tables; where a table has no such operation, or one that panics, \<open>None\<close>.\<close>

definition create_op :: "nat \<Rightarrow> nat \<Rightarrow> nat \<Rightarrow> u32 \<Rightarrow> vfst \<Rightarrow> (int \<times> vfst) option" where
  "create_op cpu dir d mode st =
     (case i_op (v_inodes st dir) of
        simple_dir_inode_operations \<Rightarrow> simple_dir_inode_create cpu dir d mode st
      | ramfs_dir_inode_operations \<Rightarrow> ramfs_create cpu dir d mode st
      | _ \<Rightarrow> None)"

definition mkdir_op :: "nat \<Rightarrow> nat \<Rightarrow> nat \<Rightarrow> u32 \<Rightarrow> vfst \<Rightarrow> (int \<times> vfst) option" where
  "mkdir_op cpu dir d mode st =
     (case i_op (v_inodes st dir) of
        simple_dir_inode_operations \<Rightarrow> simple_dir_inode_mkdir cpu dir d mode st
      | ramfs_dir_inode_operations \<Rightarrow> ramfs_mkdir cpu dir d mode st
      | _ \<Rightarrow> None)"

definition create_node ::
  "nat \<Rightarrow> nat \<Rightarrow> qstr \<Rightarrow> u32 \<Rightarrow> fops option \<Rightarrow> iops option \<Rightarrow> vfst \<Rightarrow> (nat \<times> vfst) option" where
  "create_node cpu parent name mode fop iop st =
     (if parent = 0 then Some (0, st)
      else do {
        (i, st1) \<leftarrow> simple_get_inode cpu (d_sb (v_dentries st parent)) mode st;
        kassert (i \<noteq> 0);
        let st2 = (case iop of None \<Rightarrow> st1 | Some x \<Rightarrow> upd_inode i (\<lambda>y. y\<lparr>i_op := x\<rparr>) st1);
        let st3 = (case fop of None \<Rightarrow> st2 | Some x \<Rightarrow> upd_inode i (\<lambda>y. y\<lparr>i_fop := Some x\<rparr>) st2);
        (d, st4) \<leftarrow> d_alloc cpu parent name st3;
        kassert (d \<noteq> 0);
        Some (i, dentry_insert parent d (upd_dentry d (\<lambda>x. x\<lparr>d_inode := i\<rparr>) st4)) })"

section \<open>\<^verbatim>\<open>open\<close>, \<^verbatim>\<open>create\<close>, \<^verbatim>\<open>mkdir\<close>\<close>

text \<open>The \<^verbatim>\<open>open\<close> operations print a line and return 0; a table without one has a null pointer.\<close>

definition pipefs_file_open :: int where "pipefs_file_open = 0"
definition ttyfs_file_open :: int where "ttyfs_file_open = 0"
definition ramfs_file_open :: int where "ramfs_file_open = 0"

definition open_op :: "fops \<Rightarrow> int option" where
  "open_op ops =
     (case ops of
        pipefs_file_op \<Rightarrow> Some pipefs_file_open
      | ttyfs_file_op \<Rightarrow> Some ttyfs_file_open
      | ramfs_file_operations \<Rightarrow> Some ramfs_file_open
      | simple_file_operations \<Rightarrow> None
      | simple_dir_operations \<Rightarrow> None)"

definition open_file :: "nat \<Rightarrow> nat \<Rightarrow> u32 \<Rightarrow> u32 \<Rightarrow> nat \<Rightarrow> vfst \<Rightarrow> (nat \<times> vfst) option" where
  "open_file cpu dentry mode flags mnt st = do {
     (f, st1) \<leftarrow> alloc_file cpu st;
     let inode = d_inode (v_dentries st dentry);
     if f = 0 then Some (0, st1)
     else do {
       kassert (inode \<noteq> 0);
       let fop = i_fop (v_inodes st1 inode);
       let st2 = upd_file f (\<lambda>x. x\<lparr>f_mode := mode, f_flags := flags, f_count := 1, f_inode := inode,
                   f_op := fop, f_dentry := dentry, f_vfsmnt := mnt\<rparr>) st1;
       case Option.bind fop open_op of
         None \<Rightarrow> Some (f, st2)
       | Some res \<Rightarrow>
           if res < 0 then do { st3 \<leftarrow> free_file cpu f st2; Some (0, st3) } else Some (f, st2) } }"

definition vopen ::
  "nat \<Rightarrow> nat \<Rightarrow> fs_struct \<Rightarrow> u8 list \<Rightarrow> nameidata \<Rightarrow> u8 list \<Rightarrow> u32 \<Rightarrow> u32 \<Rightarrow> vfst \<Rightarrow> (int \<times> vfst) option"
where
  "vopen cpu ft fs junk nd pathname flags mode st =
     (let fd = get_unused_fd ft st in
      if fd < 0 then Some (fd, st)
      else do {
        (r, nd1) \<leftarrow> path_lookup junk pathname (LOOKUP_OPEN OR LOOKUP_FOLLOW) fs nd st;
        if r < 0 then Some (r, st)
        else do {
          (f, st1) \<leftarrow> open_file cpu (nd_dentry nd1) mode flags (nd_mnt nd1) st;
          if f \<noteq> 0 then Some (fd, set_fd ft (nat fd) f st1) else Some (- 1, st1) } })"

definition create ::
  "nat \<Rightarrow> fs_struct \<Rightarrow> u8 list \<Rightarrow> nameidata \<Rightarrow> u8 list \<Rightarrow> u32 \<Rightarrow> vfst \<Rightarrow> (int \<times> vfst) option" where
  "create cpu fs junk nd pathname mode st = do {
     (r, nd1) \<leftarrow> path_lookup junk pathname LOOKUP_PARENT fs nd st;
     if r < 0 then Some (r, st)
     else do {
       let parent = nd_dentry nd1;
       let inode = d_inode (v_dentries st parent);
       old \<leftarrow> dentry_lookup parent (nd_last nd1) st;
       if old \<noteq> 0 then Some (- errno_val EEXIST, st)
       else do {
         (d, st1) \<leftarrow> d_alloc cpu parent (nd_last nd1) st;
         if d = 0 then Some (- errno_val ENOMEM, st1)
         else do {
           (r1, st2) \<leftarrow> create_op cpu inode d mode st1;
           if r1 < 0 then Some (r1, st2) else Some (r1, dentry_insert parent d st2) } } } }"

text \<open>\<open>get_last\<close> is the part of the path that \<^verbatim>\<open>mkdir\<close> compares with the last component.\<close>

definition get_last :: "u8 list \<Rightarrow> u8 list" where
  "get_last pathname =
     (let p = rev (dropWhile (\<lambda>c. c = 0x2F) (rev pathname))
      in rev (takeWhile (\<lambda>c. c \<noteq> 0x2F) (rev p)) @ drop (length p) pathname)"

definition mkdir ::
  "nat \<Rightarrow> fs_struct \<Rightarrow> u8 list \<Rightarrow> nameidata \<Rightarrow> u8 list \<Rightarrow> u32 \<Rightarrow> vfst \<Rightarrow> (int \<times> vfst) option" where
  "mkdir cpu fs junk nd pathname mode st = do {
     (r, nd1) \<leftarrow> path_lookup junk pathname (LOOKUP_PARENT OR LOOKUP_FOLLOW) fs nd st;
     if r < 0 then Some (r, st)
     else do {
       let parent = nd_dentry nd1;
       let inode = d_inode (v_dentries st parent);
       if name_strncmp (q_name (nd_last nd1)) (get_last pathname @ [0]) (q_len (nd_last nd1)) \<noteq> 0
       then Some (r, st)
       else do {
         old \<leftarrow> dentry_lookup parent (nd_last nd1) st;
         if old \<noteq> 0 then Some (- errno_val EEXIST, st)
         else do {
           (d, st1) \<leftarrow> d_alloc cpu parent (nd_last nd1) st;
           if d = 0 then Some (- errno_val ENOMEM, st1)
           else do {
             (r1, st2) \<leftarrow> mkdir_op cpu inode d mode st1;
             if r1 < 0 then Some (r1, st2) else Some (r1, dentry_insert parent d st2) } } } } }"

end
