(* ===== verification/Vfs_Props.thy ===== *)
theory Vfs_Props
  imports Namei
begin

text \<open>
  Properties of the file layer: the reference counts of open files under duplication, fork
  and exit.
\<close>

section \<open>Reference counts\<close>

definition fd_slots :: "nat set \<Rightarrow> vfst \<Rightarrow> nat \<Rightarrow> (nat \<times> nat) set" where
  "fd_slots T st f = {(t, i). t \<in> T \<and> i < MAX_FILE \<and> v_fd st t i = f}"

text \<open>
  \<open>files_ok T U st\<close>: \<open>T\<close> are the descriptor tables in use, \<open>U\<close> the objects of the heap in use;
  every table and every file a table points to is an object of the heap, and the count of a
  file is the number of descriptors that point to it.
\<close>

definition files_ok :: "nat set \<Rightarrow> (nat \<times> nat) set \<Rightarrow> vfst \<Rightarrow> bool" where
  "files_ok T U st \<longleftrightarrow> finite T \<and> card T * 128 < 2 ^ 32 \<and> heap_state (v_sl st) U \<and>
     (\<forall>t \<in> T. (8, t) \<in> U) \<and>
     (\<forall>f. f \<noteq> 0 \<longrightarrow> fd_slots T st f \<noteq> {} \<longrightarrow>
        (2, f) \<in> U \<and> unat (f_count (v_files st f)) = card (fd_slots T st f))"

lemma files_okD:
  assumes "files_ok T U st"
  shows "finite T" "card T * 128 < 2 ^ 32" "heap_state (v_sl st) U" "t \<in> T \<Longrightarrow> (8, t) \<in> U"
    "f \<noteq> 0 \<Longrightarrow> s \<in> fd_slots T st f \<Longrightarrow> (2, f) \<in> U"
    "f \<noteq> 0 \<Longrightarrow> s \<in> fd_slots T st f \<Longrightarrow> unat (f_count (v_files st f)) = card (fd_slots T st f)"
  using assms unfolding files_ok_def by blast+

lemma files_okI:
  assumes "finite T" "card T * 128 < 2 ^ 32" "heap_state (v_sl st) U" "\<And>t. t \<in> T \<Longrightarrow> (8, t) \<in> U"
    and "\<And>f s. f \<noteq> 0 \<Longrightarrow> s \<in> fd_slots T st f \<Longrightarrow>
      (2, f) \<in> U \<and> unat (f_count (v_files st f)) = card (fd_slots T st f)"
  shows "files_ok T U st"
  using assms unfolding files_ok_def by blast

lemma finite_slots: "finite T \<Longrightarrow> finite (fd_slots T st f)"
  by (rule finite_subset [of _ "T \<times> {..<MAX_FILE}"]) (auto simp: fd_slots_def)

lemma card_slots:
  assumes "finite T"
  shows "card (fd_slots T st f) \<le> card T * 128"
proof -
  have "card (fd_slots T st f) \<le> card (T \<times> {..<MAX_FILE})"
    using assms by (intro card_mono) (auto simp: fd_slots_def)
  then show ?thesis by (simp add: card_cartesian_product MAX_FILE_def)
qed

lemma slots_set_fd:
  "t \<in> T \<Longrightarrow> i < MAX_FILE \<Longrightarrow> fd_slots T (set_fd t i g st) f =
     (if f = g then insert (t, i) (fd_slots T st f) else fd_slots T st f - {(t, i)})"
  by (auto simp: fd_slots_def set_fd_def split: if_splits)

lemma slots_upd_file [simp]: "fd_slots T (upd_file f g st) = fd_slots T st"
  by (simp add: fd_slots_def upd_file_def fun_eq_iff)

lemma set_fd_sel [simp]: "v_sl (set_fd t i g st) = v_sl st" "v_files (set_fd t i g st) = v_files st"
  by (simp_all add: set_fd_def)

lemma upd_file_sel [simp]: "v_sl (upd_file f g st) = v_sl st" "v_fd (upd_file f g st) = v_fd st"
  "v_files (upd_file f g st) h = (if h = f then g (v_files st f) else v_files st h)"
  by (simp_all add: upd_file_def)

lemma unat_inc: "card A = unat (c::u32) \<Longrightarrow> card A + 1 < 2 ^ 32 \<Longrightarrow> unat (c + 1) = card A + 1"
  by (simp add: unat_word_ariths(1))

text \<open>A descriptor that is not in use is pointed to an open file.\<close>

lemma share_file:
  assumes ok: "files_ok T U st" and t: "t \<in> T" "i < MAX_FILE" "v_fd st t i = 0"
    and f: "f \<noteq> 0" "s \<in> fd_slots T st f"
  shows "files_ok T U (upd_file f (\<lambda>x. x\<lparr>f_count := f_count x + 1\<rparr>) (set_fd t i f st))"
proof -
  note D = files_okD [OF ok]
  have n: "(t, i) \<notin> fd_slots T st g" if "g \<noteq> 0" for g using t(3) that by (auto simp: fd_slots_def)
  have sl: "fd_slots T (set_fd t i f st) g = (if g = f then insert (t, i) (fd_slots T st f) else fd_slots T st g)"
    if "g \<noteq> 0" for g using slots_set_fd [OF t(1,2), of f st g] n [OF that] by simp
  have c: "card (insert (t, i) (fd_slots T st f)) = card (fd_slots T st f) + 1"
    using n [OF f(1)] finite_slots [OF D(1), of st f] by simp
  have "card (fd_slots T st f) + 1 \<le> card T * 128"
    using card_slots [OF D(1), of "set_fd t i f st" f] sl [OF f(1)] c by simp
  then have "card (fd_slots T st f) + 1 < 2 ^ 32" using D(2) by (rule le_less_trans)
  then have u: "unat (f_count (v_files st f) + 1) = card (insert (t, i) (fd_slots T st f))"
    using unat_inc [OF D(6) [OF f, symmetric]] c by simp
  show ?thesis
  proof (rule files_okI)
    fix g r assume g: "g \<noteq> 0" "r \<in> fd_slots T (upd_file f (\<lambda>x. x\<lparr>f_count := f_count x + 1\<rparr>) (set_fd t i f st)) g"
    show "(2, g) \<in> U \<and> unat (f_count (v_files (upd_file f (\<lambda>x. x\<lparr>f_count := f_count x + 1\<rparr>) (set_fd t i f st)) g)) =
        card (fd_slots T (upd_file f (\<lambda>x. x\<lparr>f_count := f_count x + 1\<rparr>) (set_fd t i f st)) g)"
      using g sl [OF g(1)] u D(5) [OF f] D(5,6) [OF g(1), of r] by (cases "g = f") simp_all
  qed (use D(1-4) in simp_all)
qed

lemma flush_sel [simp]:
  "v_sl (flush f st) = v_sl st" "v_fd (flush f st) = v_fd st" "v_files (flush f st) = v_files st"
  by (simp_all add: flush_def pipefs_file_flush_def upd_pipe_def Let_def)

lemma clear_fd:
  assumes ok: "files_ok T U st" and t: "t \<in> T" "i < MAX_FILE" "v_fd st t i \<noteq> 0"
    and x: "v_fd x = v_fd st" "heap_state (v_sl x) V" "\<And>t. t \<in> T \<Longrightarrow> (8, t) \<in> V"
    and y: "\<And>g. g \<noteq> v_fd st t i \<Longrightarrow> (2, g) \<in> U \<Longrightarrow> (2, g) \<in> V"
      "\<And>g. g \<noteq> v_fd st t i \<Longrightarrow> v_files x g = v_files st g"
    and z: "fd_slots T st (v_fd st t i) \<noteq> {(t, i)} \<Longrightarrow>
      (2, v_fd st t i) \<in> V \<and> f_count (v_files x (v_fd st t i)) = f_count (v_files st (v_fd st t i)) - 1"
  shows "files_ok T V (set_fd t i 0 x)"
proof (rule files_okI)
  note D = files_okD [OF ok]
  let ?f = "v_fd st t i"
  fix g r assume g: "g \<noteq> 0" "r \<in> fd_slots T (set_fd t i 0 x) g"
  have sl: "fd_slots T (set_fd t i 0 x) g = fd_slots T st g - {(t, i)}"
    using slots_set_fd [OF t(1,2), of 0 x g] g(1) x(1) by (simp add: fd_slots_def)
  then have r: "r \<in> fd_slots T st g" "r \<noteq> (t, i)" using g(2) by auto
  show "(2, g) \<in> V \<and> unat (f_count (v_files (set_fd t i 0 x) g)) = card (fd_slots T (set_fd t i 0 x) g)"
  proof (cases "g = ?f")
    case False
    then have "fd_slots T st g - {(t, i)} = fd_slots T st g" by (auto simp: fd_slots_def)
    then show ?thesis using sl D(5,6) [OF g(1) r(1)] y [OF False] by simp
  next
    case True
    have m: "(t, i) \<in> fd_slots T st ?f" using t by (simp add: fd_slots_def)
    have e: "(2, ?f) \<in> V" "f_count (v_files x ?f) = f_count (v_files st ?f) - 1"
      using z r True by auto
    have c: "card (fd_slots T st ?f - {(t, i)}) = card (fd_slots T st ?f) - 1"
      using m finite_slots [OF D(1)] by simp
    have u: "unat (f_count (v_files st ?f)) = card (fd_slots T st ?f)" using D(6) [OF t(3) m] .
    have "0 < card (fd_slots T st ?f)" using m finite_slots [OF D(1)] card_gt_0_iff by blast
    then have "f_count (v_files st ?f) \<noteq> 0" using u by auto
    then show ?thesis
      using True sl c u e unat_minus_one [of "f_count (v_files st ?f)"] by simp
  qed
qed (use files_okD(1,2) [OF ok] x in simp_all)

lemma deref_file_ok:
  assumes ok: "files_ok T U st" and t: "t \<in> T" "i < MAX_FILE" and c: "cpu < CPUNUMS"
  shows "\<exists>U1 st1. deref_file cpu t (int i) st = Some st1 \<and> files_ok T U1 st1 \<and>
    v_fd st1 = (v_fd st)(t := (v_fd st t)(i := 0))"
proof (cases "v_fd st t i = 0")
  case True
  then have "(v_fd st)(t := (v_fd st t)(i := 0)) = v_fd st" by (simp add: fun_eq_iff)
  then show ?thesis using ok t True by (auto simp: deref_file_def Let_def)
next
  case False
  note D = files_okD [OF ok]
  let ?f = "v_fd st t i"
  let ?st2 = "upd_file ?f (\<lambda>x. x\<lparr>f_count := f_count x - 1\<rparr>) (flush ?f st)"
  have m: "(t, i) \<in> fd_slots T st ?f" using t by (simp add: fd_slots_def)
  note u = D(6) [OF False m] and fu = D(5) [OF False m]
  have one: "f_count (v_files st ?f) = 1 \<longleftrightarrow> fd_slots T st ?f = {(t, i)}"
  proof
    assume "f_count (v_files st ?f) = 1"
    then have "unat (f_count (v_files st ?f)) = 1" by (simp only: unat_1)
    then have "card (fd_slots T st ?f) = 1" by (simp only: u)
    then obtain s where "fd_slots T st ?f = {s}" by (rule card_1_singletonE)
    then show "fd_slots T st ?f = {(t, i)}" using m by (simp only: singleton_iff)
  next
    assume "fd_slots T st ?f = {(t, i)}"
    then have "unat (f_count (v_files st ?f)) = unat (1::u32)" by (simp add: u)
    then show "f_count (v_files st ?f) = 1" by (simp only: word_unat_eq_iff)
  qed
  show ?thesis
  proof (cases "f_count (v_files st ?f) = 1")
    case True
    obtain sl where k: "kfree cpu ?f (v_sl st) = Some sl" "heap_state sl (U - {(2, ?f)})"
      using kfree_spec [OF D(3) c fu] by blast
    have d: "deref_file cpu t (int i) st = Some (set_fd t i 0 (?st2\<lparr>v_sl := sl\<rparr>))"
      using t False True k(1) by (simp add: deref_file_def Let_def free_file_def vfree_def)
    have "files_ok T (U - {(2, ?f)}) (set_fd t i 0 (?st2\<lparr>v_sl := sl\<rparr>))"
      by (rule clear_fd [OF ok t False]) (use k(2) D(4) one True in simp_all)
    then show ?thesis using d by (auto simp: set_fd_def)
  next
    case nz: False
    then have "f_count (v_files st ?f) - 1 \<noteq> 0" by simp
    then have d: "deref_file cpu t (int i) st = Some (set_fd t i 0 ?st2)"
      using t False by (simp add: deref_file_def Let_def)
    have "files_ok T U (set_fd t i 0 ?st2)"
      by (rule clear_fd [OF ok t False]) (use D(3,4) fu in simp_all)
    then show ?thesis using d by (auto simp: set_fd_def)
  qed
qed


lemma unused_fd_Some:
  "unused_fd n i ft st = Some fd \<Longrightarrow> i \<le> fd \<and> fd < i + n \<and> v_fd st ft fd = 0"
proof (induction n arbitrary: i)
  case (Suc n)
  then show ?case by (cases "v_fd st ft i = 0") fastforce+
qed simp

lemma get_unused_fd_ok:
  "0 \<le> get_unused_fd ft st \<Longrightarrow> nat (get_unused_fd ft st) < MAX_FILE \<and> v_fd st ft (nat (get_unused_fd ft st)) = 0"
  using unused_fd_Some [of MAX_FILE 0 ft st]
  by (auto simp: get_unused_fd_def split: option.splits)

lemma dup_ok:
  assumes ok: "files_ok T U st" and t: "t \<in> T" "0 \<le> fd" "nat fd < MAX_FILE"
  shows "\<exists>r st1. dup t fd st = Some (r, st1) \<and> files_ok T U st1"
proof (cases "v_fd st t (nat fd) = 0 \<or> get_unused_fd t st < 0")
  case True
  then show ?thesis using t ok by (auto simp: dup_def find_file_def Let_def)
next
  case False
  let ?f = "v_fd st t (nat fd)" and ?n = "nat (get_unused_fd t st)"
  have "(t, nat fd) \<in> fd_slots T st ?f" using t by (simp add: fd_slots_def)
  then have "files_ok T U (upd_file ?f (\<lambda>x. x\<lparr>f_count := f_count x + 1\<rparr>) (set_fd t ?n ?f st))"
    using share_file [OF ok t(1)] get_unused_fd_ok [of t st] False by auto
  then show ?thesis using t False by (simp add: dup_def find_file_def Let_def)
qed

lemma dup2_ok:
  assumes ok: "files_ok T U st" and t: "t \<in> T" "0 \<le> a" "nat a < MAX_FILE" "0 \<le> b" "nat b < MAX_FILE"
    and c: "cpu < CPUNUMS"
  shows "\<exists>r U1 st1. dup2 cpu t a b st = Some (r, st1) \<and> files_ok T U1 st1"
proof (cases "a = b \<or> v_fd st t (nat a) = 0")
  case True
  then show ?thesis using t ok by (auto simp: dup2_def find_file_def Let_def)
next
  case False
  let ?f = "v_fd st t (nat a)"
  obtain U1 st1 where d: "deref_file cpu t b st = Some st1" "files_ok T U1 st1"
    "v_fd st1 = (v_fd st)(t := (v_fd st t)(nat b := 0))"
    using deref_file_ok [OF ok t(1,5) c] t(4) by auto
  have z: "v_fd st t (nat b) = 0 \<Longrightarrow> deref_file cpu t b st = Some st"
    using t by (simp add: deref_file_def Let_def)
  have r: "dup2 cpu t a b st = Some (0, upd_file ?f (\<lambda>x. x\<lparr>f_count := f_count x + 1\<rparr>) (set_fd t (nat b) ?f st1))"
    using False t d(1) z by (auto simp: dup2_def find_file_def Let_def)
  have "nat a \<noteq> nat b" using False t(2,4) by (simp add: eq_nat_nat_iff)
  then have "(t, nat a) \<in> fd_slots T st1 ?f" "v_fd st1 t (nat b) = 0"
    using d(3) t by (simp_all add: fd_slots_def)
  then show ?thesis using r share_file [OF d(2) t(1,5)] False by blast
qed

lemma exit_files_ok:
  assumes "files_ok T U st" "t \<in> T" "cpu < CPUNUMS" "i + n \<le> MAX_FILE"
  shows "\<exists>U1 st1. exit_files_from n i cpu t st = Some st1 \<and> files_ok T U1 st1 \<and>
    (\<forall>j. v_fd st1 t j = (if i \<le> j \<and> j < i + n then 0 else v_fd st t j))"
  using assms
proof (induction n arbitrary: i U st)
  case (Suc n)
  obtain U1 st1 where s1: "deref_file cpu t (int i) st = Some st1" "files_ok T U1 st1"
    "v_fd st1 = (v_fd st)(t := (v_fd st t)(i := 0))"
    using deref_file_ok [OF Suc.prems(1,2) _ Suc.prems(3), of i] Suc.prems(4) by auto
  obtain U2 st2 where "exit_files_from n (i + 1) cpu t st1 = Some st2" "files_ok T U2 st2"
    "\<forall>j. v_fd st2 t j = (if i + 1 \<le> j \<and> j < i + 1 + n then 0 else v_fd st1 t j)"
    using Suc.IH [OF s1(2) Suc.prems(2,3), of "i + 1"] Suc.prems(4) by auto
  then show ?case using s1(1,3) by auto
qed auto

lemma count_files_sel:
  "v_fd (count_files n i t st) = v_fd st" "v_sl (count_files n i t st) = v_sl st"
  by (induction n arbitrary: i st) (simp_all add: Let_def)

lemma count_files_count:
  "f \<noteq> 0 \<Longrightarrow> f_count (v_files (count_files n i t st) f) =
     f_count (v_files st f) + of_nat (card {j. i \<le> j \<and> j < i + n \<and> v_fd st t j = f})"
proof (induction n arbitrary: i st)
  case 0
  have "{j. i \<le> j \<and> j < i + 0 \<and> v_fd st t j = f} = {}" by auto
  then show ?case unfolding \<open>{j. i \<le> j \<and> j < i + 0 \<and> v_fd st t j = f} = {}\<close> by simp
next
  case (Suc n)
  let ?st = "if v_fd st t i \<noteq> 0 then upd_file (v_fd st t i) (\<lambda>x. x\<lparr>f_count := f_count x + 1\<rparr>) st else st"
  let ?A = "{j. i + 1 \<le> j \<and> j < i + 1 + n \<and> v_fd st t j = f}"
  have v: "v_fd ?st = v_fd st" by simp
  have "{j. i \<le> j \<and> j < i + Suc n \<and> v_fd st t j = f} = (if v_fd st t i = f then insert i ?A else ?A)"
    by (auto simp: Suc_le_eq le_less)
  moreover have "finite ?A" "i \<notin> ?A" by auto
  ultimately have "card {j. i \<le> j \<and> j < i + Suc n \<and> v_fd st t j = f} = card ?A + (if v_fd st t i = f then 1 else 0)"
    by simp
  then show ?case using Suc.IH [OF Suc.prems, of "i + 1" ?st] Suc.prems v
    by (auto simp: Let_def)
qed

lemma small_class:
  assumes "c < 12" "n \<le> cache_size c" "\<forall>j<c. cache_size j < n"
  shows "n = 16 \<Longrightarrow> c = 1" "n = 32 \<Longrightarrow> c = 2" "n = 512 \<Longrightarrow> c = 8"
proof -
  have e: "\<And>k. k < 12 \<Longrightarrow> n = cache_size k \<Longrightarrow> c = k"
  proof -
    fix k assume k: "k < 12" "n = cache_size k"
    have "sorted cache_sizes" "distinct cache_sizes" by (simp_all add: cache_sizes_def)
    moreover have "length cache_sizes = 12" by (simp add: cache_sizes_def)
    ultimately have m: "i < j \<Longrightarrow> j < 12 \<Longrightarrow> cache_size i < cache_size j" for i j
      using strict_sorted_iff [of cache_sizes] sorted_wrt_nth_less by metis
    show "c = k"
      using m [of k c] m [of c k] assms k by (metis linorder_neqE_nat not_le order_less_irrefl)
  qed
  show "n = 16 \<Longrightarrow> c = 1" "n = 32 \<Longrightarrow> c = 2" "n = 512 \<Longrightarrow> c = 8"
    using e [of 1] e [of 2] e [of 8] by (simp_all add: cache_sizes_def)
qed


text \<open>The new table of a forked task has the descriptors of the old one, and each is counted.\<close>

lemma copied_ok:
  assumes ok: "files_ok T U st" and t: "t \<in> T" and new: "files \<notin> T" and hs: "heap_state (v_sl s) W"
    and W: "insert (8, files) U \<subseteq> W" and n: "(card T + 1) * 128 < 2 ^ 32"
    and s: "v_fd s = (v_fd st)(files := v_fd st t)" "v_files s = v_files st"
  shows "files_ok (insert files T) W (count_files MAX_FILE 0 files s)"
proof (rule files_okI)
  note D = files_okD [OF ok]
  let ?T = "insert files T" and ?s = "count_files MAX_FILE 0 files s"
  show fin: "finite ?T" and cT: "card ?T * 128 < 2 ^ 32"
    using D(1) new n by simp_all
  show "heap_state (v_sl ?s) W" using hs by (simp add: count_files_sel)
  show "\<And>u. u \<in> ?T \<Longrightarrow> (8, u) \<in> W" using W D(4) by blast
  fix f r assume f: "f \<noteq> 0" "r \<in> fd_slots ?T ?s f"
  let ?B = "{j. j < MAX_FILE \<and> v_fd st t j = f}"
  have sp: "fd_slots ?T ?s f = fd_slots T st f \<union> Pair files ` ?B"
    using s(1) new by (auto simp: fd_slots_def count_files_sel)
  have e: "\<exists>q. q \<in> fd_slots T st f"
    using f(2) t by (auto simp: sp) (auto simp: fd_slots_def)
  then obtain q where q: "q \<in> fd_slots T st f" ..
  have dj: "fd_slots T st f \<inter> Pair files ` ?B = {}" using new by (auto simp: fd_slots_def)
  have card: "card (fd_slots ?T ?s f) = card (fd_slots T st f) + card ?B"
    using card_Un_disjoint [OF finite_slots [OF D(1), of st f] _ dj] card_image [of "Pair files" ?B]
    by (simp add: sp inj_on_def)
  have "f_count (v_files ?s f) = f_count (v_files st f) + of_nat (card ?B)"
    using count_files_count [OF f(1), of MAX_FILE 0 files s] s by simp
  then have "f_count (v_files ?s f) = of_nat (card (fd_slots ?T ?s f))"
    by (simp add: card flip: D(6) [OF f(1) q])
  moreover have "card (fd_slots ?T ?s f) < 2 ^ 32"
    using card_slots [OF fin, of ?s f] cT by linarith
  ultimately have "unat (f_count (v_files ?s f)) = card (fd_slots ?T ?s f)"
    by (simp add: unat_of_nat)
  then show "(2, f) \<in> W \<and> unat (f_count (v_files ?s f)) = card (fd_slots ?T ?s f)"
    using D(5) [OF f(1) q] W by blast
qed

lemma copy_files_ok:
  assumes ok: "files_ok T U st" and t: "t \<in> T" and c: "cpu < CPUNUMS" and n: "(card T + 1) * 128 < 2 ^ 32"
  shows "\<exists>r fs files U1 st1. copy_files cpu t st = Some (r, fs, files, st1) \<and>
    (if r = 0 then files_ok (insert files T) U1 st1 else files_ok T U1 st1)"
proof -
  note D = files_okD [OF ok]
  have mono: "files_ok T V (st\<lparr>v_sl := sl\<rparr>)" if "heap_state sl V" "U \<subseteq> V" for sl V
    by (rule files_okI) (use D that in \<open>auto simp: fd_slots_def\<close>)
  obtain fs sl c1 where k: "kmalloc cpu 16 (v_sl st) = Some (fs, sl)" "c1 < 12" "16 \<le> cache_size c1"
    "\<forall>j<c1. cache_size j < 16" "fs = 0 \<and> heap_state sl U \<or> fs \<noteq> 0 \<and> (c1, fs) \<notin> U \<and> heap_state sl (insert (c1, fs) U)"
    using kmalloc_spec [OF D(3) c, of 16] by auto
  show ?thesis
  proof (cases "fs = 0")
    case True
    then show ?thesis
      using k(1,5) mono [of sl U] by (auto simp: copy_files_def valloc_def SIZEOF_FS_def)
  next
    case False
    have c1: "c1 = 1" using small_class(1) [OF k(2-4)] by simp
    let ?V = "insert (1, fs) U"
    have h1: "heap_state sl ?V" "(1, fs) \<notin> U" using k(5) False c1 by auto
    obtain files sl2 c2 where k2: "kmalloc cpu 512 sl = Some (files, sl2)" "c2 < 12" "512 \<le> cache_size c2"
      "\<forall>j<c2. cache_size j < 512" "files = 0 \<and> heap_state sl2 ?V \<or>
         files \<noteq> 0 \<and> (c2, files) \<notin> ?V \<and> heap_state sl2 (insert (c2, files) ?V)"
      using kmalloc_spec [OF h1(1) c, of 512] by auto
    show ?thesis
    proof (cases "files = 0")
      case True
      then obtain sl3 where f: "kfree cpu fs sl2 = Some sl3" "heap_state sl3 (?V - {(1, fs)})"
        using kfree_spec [of sl2 ?V cpu 1 fs] k2(5) c by auto
      moreover have "?V - {(1, fs)} = U" using h1(2) by auto
      ultimately show ?thesis
        using k(1) False k2(1) True mono [of sl3 U]
        by (auto simp: copy_files_def valloc_def vfree_def SIZEOF_FS_def SIZEOF_FILES_def)
    next
      case nz: False
      have c2: "c2 = 8" using small_class(3) [OF k2(2-4)] by simp
      let ?W = "insert (8, files) ?V"
      let ?s = "st\<lparr>v_sl := sl2, v_fd := (v_fd st)(files := v_fd st t)\<rparr>"
      let ?s1 = "count_files MAX_FILE 0 files ?s"
      have h2: "heap_state sl2 ?W" "(8, files) \<notin> U" using k2(5) nz c2 by auto
      then have new: "files \<notin> T" using D(4) by blast
      have r: "copy_files cpu t st = Some (0, fs, files, ?s1)"
        using k(1) False k2(1) nz by (simp add: copy_files_def valloc_def SIZEOF_FS_def SIZEOF_FILES_def Let_def)
      have "files_ok (insert files T) ?W ?s1"
        by (rule copied_ok [OF ok t new _ _ n]) (use h2(1) in auto)
      then show ?thesis using r by auto
    qed
  qed
qed


section \<open>Sequences of calls\<close>

text \<open>
  What can happen to the descriptor tables \<open>T\<close>: calls of \<^verbatim>\<open>dup\<close>, \<^verbatim>\<open>dup2\<close> and \<^verbatim>\<open>close\<close> by a task,
  the copy that \<^verbatim>\<open>fork\<close> makes of the files, and the exit of a task. Descriptors are inside the table.
\<close>

definition fd_valid :: "int \<Rightarrow> bool" where
  "fd_valid fd \<longleftrightarrow> 0 \<le> fd \<and> nat fd < MAX_FILE"

inductive fd_step :: "nat set \<times> vfst \<Rightarrow> nat set \<times> vfst \<Rightarrow> bool" where
  step_dup: "\<lbrakk>t \<in> T; fd_valid fd; dup t fd st = Some (r, st1)\<rbrakk> \<Longrightarrow> fd_step (T, st) (T, st1)"
| step_dup2: "\<lbrakk>t \<in> T; fd_valid a; fd_valid b; cpu < CPUNUMS; dup2 cpu t a b st = Some (r, st1)\<rbrakk> \<Longrightarrow>
    fd_step (T, st) (T, st1)"
| step_close: "\<lbrakk>t \<in> T; fd_valid fd; close t fd st = Some st1\<rbrakk> \<Longrightarrow> fd_step (T, st) (T, st1)"
| step_deref: "\<lbrakk>t \<in> T; fd_valid fd; cpu < CPUNUMS; deref_file cpu t fd st = Some st1\<rbrakk> \<Longrightarrow>
    fd_step (T, st) (T, st1)"
| step_fork: "\<lbrakk>t \<in> T; cpu < CPUNUMS; (card T + 1) * 128 < 2 ^ 32; copy_files cpu t st = Some (0, fs, files, st1)\<rbrakk> \<Longrightarrow>
    fd_step (T, st) (insert files T, st1)"
| step_fork_failed: "\<lbrakk>t \<in> T; cpu < CPUNUMS; (card T + 1) * 128 < 2 ^ 32; copy_files cpu t st = Some (r, fs, files, st1); r \<noteq> 0\<rbrakk> \<Longrightarrow>
    fd_step (T, st) (T, st1)"
| step_exit: "\<lbrakk>t \<in> T; cpu < CPUNUMS; exit_files cpu t st = Some st1\<rbrakk> \<Longrightarrow> fd_step (T, st) (T, st1)"

lemma close_ok: "fd_valid fd \<Longrightarrow> close t fd st = Some st"
  by (simp add: close_def find_file_def fd_valid_def Let_def)

lemma fd_step_ok: "fd_step x y \<Longrightarrow> files_ok (fst x) U (snd x) \<Longrightarrow> \<exists>U1. files_ok (fst y) U1 (snd y)"
proof (induction rule: fd_step.induct)
  case (step_dup t T fd st r st1)
  then show ?case using dup_ok [of T U st t fd] by (auto simp: fd_valid_def)
next
  case (step_dup2 t T a b cpu st r st1)
  then show ?case using dup2_ok [of T U st t a b cpu] by (auto simp: fd_valid_def)
next
  case (step_close t T fd st st1)
  then show ?case using close_ok [of fd t st] by auto
next
  case (step_deref t T fd cpu st st1)
  then show ?case using deref_file_ok [of T U st t "nat fd" cpu] by (auto simp: fd_valid_def)
next
  case (step_fork t T cpu st fs files st1)
  then show ?case using copy_files_ok [of T U st t cpu] by auto
next
  case (step_fork_failed t T cpu st r fs files st1)
  then show ?case using copy_files_ok [of T U st t cpu] by auto
next
  case (step_exit t T cpu st st1)
  then show ?case using exit_files_ok [of T U st t cpu 0 MAX_FILE] by (auto simp: exit_files_def)
qed

lemma fd_steps_ok: "fd_step\<^sup>*\<^sup>* x y \<Longrightarrow> files_ok (fst x) U (snd x) \<Longrightarrow> \<exists>U1. files_ok (fst y) U1 (snd y)"
  by (induction rule: rtranclp_induct) (use fd_step_ok in blast)+

section \<open>Properties\<close>

text \<open>
  C37. The reference count of an open file is always the number of descriptors that point to
  it. From every state in which it is, whatever sequence of \<^verbatim>\<open>dup\<close>, \<^verbatim>\<open>dup2\<close>, \<^verbatim>\<open>close\<close>, dropping of
  descriptors, fork and exit follows, it still is, every file a descriptor points to is an
  object of the heap that has not been freed, and each of these calls returns on every table
  and every descriptor in range.
\<close>

theorem file_counts_exact:
  assumes "files_ok T U st" "fd_step\<^sup>*\<^sup>* (T, st) (T1, st1)"
  shows "(\<exists>U1. files_ok T1 U1 st1) \<and>
    (\<forall>t a b cpu. t \<in> T1 \<longrightarrow> fd_valid a \<longrightarrow> fd_valid b \<longrightarrow> cpu < CPUNUMS \<longrightarrow>
       dup t a st1 \<noteq> None \<and> dup2 cpu t a b st1 \<noteq> None \<and> close t a st1 \<noteq> None \<and>
       deref_file cpu t a st1 \<noteq> None \<and> exit_files cpu t st1 \<noteq> None \<and>
       ((card T1 + 1) * 128 < 2 ^ 32 \<longrightarrow> copy_files cpu t st1 \<noteq> None))"
proof -
  obtain U1 where ok: "files_ok T1 U1 st1" using fd_steps_ok [OF assms(2)] assms(1) by auto
  have p: "dup t a st1 \<noteq> None" "dup2 cpu t a b st1 \<noteq> None" "close t a st1 \<noteq> None"
    "deref_file cpu t a st1 \<noteq> None" "exit_files cpu t st1 \<noteq> None"
    "(card T1 + 1) * 128 < 2 ^ 32 \<longrightarrow> copy_files cpu t st1 \<noteq> None"
    if t: "t \<in> T1" and a: "fd_valid a" and b: "fd_valid b" and c: "cpu < CPUNUMS" for t a b cpu
    using dup_ok [OF ok t, of a] dup2_ok [OF ok t, of a b cpu] close_ok [OF a, of t st1]
      deref_file_ok [OF ok t _ c, of "nat a"] exit_files_ok [OF ok t c, of 0 MAX_FILE] copy_files_ok [OF ok t c] a b c
    unfolding fd_valid_def exit_files_def by force+
  show ?thesis by (intro conjI exI allI impI) (rule ok | rule p [rule_format]; assumption)+
qed


definition blank_vfs :: "slst \<Rightarrow> vfst" where
  "blank_vfs sl = \<lparr>v_sl = sl, v_files = (\<lambda>_. zero_file), v_fd = (\<lambda>_ _. 0),
     v_inodes = (\<lambda>_. \<lparr>i_num = 0, i_state = 0, i_dev = 0, i_mode = 0, i_nlink = 0, i_count = 0, i_op = empty_iops,
       i_fop = None, i_sb = 0, i_inode = 0, i_pipe = 0\<rparr>),
     v_supers = (\<lambda>_. \<lparr>s_dev = 0, s_op = root_super_op\<rparr>),
     v_dentries = (\<lambda>_. \<lparr>d_parent = 0, d_inode = 0, d_sb = 0, d_name = \<lparr>q_name = replicate 36 0, q_len = 0\<rparr>,
       d_count = 0, d_mounted = 0\<rparr>),
     v_pipes = (\<lambda>_. new_pipe_info), v_ram = (\<lambda>_. []), v_tty = read_q blank_kbd, v_out = [],
     v_dhash = \<lparr>hfirst = (\<lambda>_. None), hnext = (\<lambda>_. None), hpprev = (\<lambda>_. None)\<rparr>,
     v_mnts = (\<lambda>_. \<lparr>mnt_parent = 0, mnt_root = 0\<rparr>),
     v_mhash = \<lparr>hfirst = (\<lambda>_. None), hnext = (\<lambda>_. None), hpprev = (\<lambda>_. None)\<rparr>,
     last_ino = 0, inode_lock = 0, pipe_mnt = 0, pipe_sb = 0\<rparr>"

text \<open>A heap that holds one descriptor table and one file, and the state where descriptor 3 is that file.\<close>

lemma table_and_file: "\<exists>t f sl. f \<noteq> 0 \<and> heap_state sl {(8, t), (2, f)}"
proof -
  have cpu: "0 < CPUNUMS" by (simp add: CPUNUMS_def)
  obtain s where s: "heap_state (slab_init (boot_slab s)) {}" "spare (Suc 1) (slab_init (boot_slab s))"
    using boot_heap [of 2048] by (auto simp: numeral_2_eq_2)
  obtain t sl c where t: "c < 12" "512 \<le> cache_size c" "\<forall>j<c. cache_size j < 512" "heap_state sl {(c, t)}" "spare (Suc 0) sl"
    using kmalloc_spare [OF s(1) cpu, of 512] s(2) by auto
  obtain f sl1 c1 where f: "c1 < 12" "32 \<le> cache_size c1" "\<forall>j<c1. cache_size j < 32" "f \<noteq> 0"
    "heap_state sl1 {(c1, f), (c, t)}"
    using kmalloc_spare [OF t(4) cpu, of 32] t(5) by auto
  have "c = 8" "c1 = 2" using small_class(3) [OF t(1-3)] small_class(2) [OF f(1-3)] by simp_all
  then show ?thesis using f(4,5) by (metis insert_commute)
qed

definition one_file :: "nat \<Rightarrow> nat \<Rightarrow> slst \<Rightarrow> vfst" where
  "one_file t f sl = upd_file f (\<lambda>x. x\<lparr>f_count := 1\<rparr>) (set_fd t 3 f (blank_vfs sl))"

lemma one_file_ok:
  assumes "heap_state sl {(8, t), (2, f)}" "f \<noteq> 0"
  shows "files_ok {t} {(8, t), (2, f)} (one_file t f sl)"
proof (rule files_okI)
  have sl: "fd_slots {t} (one_file t f sl) g = (if g = f then {(t, 3)} else {})" if "g \<noteq> 0" for g
    using that assms(2) by (auto simp: one_file_def fd_slots_def set_fd_def upd_file_def blank_vfs_def MAX_FILE_def
        split: if_splits)
  show "(2, g) \<in> {(8, t), (2, f)} \<and>
      unat (f_count (v_files (one_file t f sl) g)) = card (fd_slots {t} (one_file t f sl) g)"
    if "g \<noteq> 0" "x \<in> fd_slots {t} (one_file t f sl) g" for g x
    using sl [OF that(1)] that(2) by (auto simp: one_file_def upd_file_def split: if_splits)
qed (use assms(1) in \<open>auto simp: one_file_def upd_file_def set_fd_def blank_vfs_def\<close>)

theorem file_counts_exact_witness:
  "\<exists>t f sl st1. files_ok {t} {(8, t), (2, f)} (one_file t f sl) \<and> dup t 3 (one_file t f sl) = Some (0, st1) \<and>
     (\<exists>U1. files_ok {t} U1 st1) \<and> f_count (v_files st1 f) = 2 \<and> deref_file 0 t 3 st1 \<noteq> None \<and> copy_files 0 t st1 \<noteq> None"
proof -
  obtain t f sl where h: "f \<noteq> 0" "heap_state sl {(8, t), (2, f)}" using table_and_file by blast
  let ?st = "one_file t f sl"
  have ok: "files_ok {t} {(8, t), (2, f)} ?st" by (rule one_file_ok [OF h(2,1)])
  have v: "fd_valid 3" "0 < CPUNUMS" by (simp_all add: fd_valid_def MAX_FILE_def CPUNUMS_def)
  obtain st1 where d: "dup t 3 ?st = Some (0, st1)" "f_count (v_files st1 f) = 2"
    using h(1) by (simp add: dup_def find_file_def get_unused_fd_def MAX_FILE_def one_file_def upd_file_def set_fd_def
        blank_vfs_def zero_file_def numeral_eq_Suc)
  have r: "fd_step\<^sup>*\<^sup>* ({t}, ?st) ({t}, st1)" using step_dup [of t "{t}" 3 ?st 0 st1] v(1) d(1) by auto
  have "(card {t} + 1) * 128 < (2::nat) ^ 32" by simp
  then show ?thesis using file_counts_exact [OF ok r] ok d v by blast
qed

end
