(* ===== verification/Namei_Props.thy ===== *)
theory Namei_Props
  imports Vfs_Props
begin

text \<open>
  Directory entries: the search of a hash chain, and the round trip from creating a file in
  the root directory to opening it.
\<close>

section \<open>The entry cache\<close>

definition matches :: "vfst \<Rightarrow> qstr \<Rightarrow> nat \<Rightarrow> bool" where
  "matches st q d \<longleftrightarrow> name_strncmp (q_name (d_name (v_dentries st d))) (q_name q) (q_len q) = 0"

lemma dentry_search_chain:
  "hchain (v_dhash st) sl ds \<Longrightarrow>
   dentry_search q (slot_get sl (v_dhash st)) st = Some (case find (matches st q) ds of None \<Rightarrow> 0 | Some d \<Rightarrow> d)"
proof (induction ds arbitrary: sl)
  case Nil
  then show ?case by (subst dentry_search.simps) simp
next
  case (Cons d ds)
  have n: "hnext (v_dhash st) d = slot_get (Next d) (v_dhash st)" by (simp add: slot_get_def)
  show ?case using Cons by (subst dentry_search.simps) (simp add: n flip: matches_def)
qed

text \<open>
  \<open>dcache_ok D U st\<close>: the hash table holds the chains \<open>D\<close> of entries, all of them objects of
  the heap in use.
\<close>

definition dcache_ok :: "(nat \<Rightarrow> nat list) \<Rightarrow> (nat \<times> nat) set \<Rightarrow> vfst \<Rightarrow> bool" where
  "dcache_ok D U st \<longleftrightarrow> htable hl (v_dhash st) D \<and> (\<forall>b. \<forall>d \<in> set (D b). d \<noteq> 0 \<and> (4, d) \<in> U)"

lemma dentry_lookup_chain:
  assumes "dcache_ok D U st"
  shows "dentry_lookup parent q st =
    Some (case find (matches st q) (D (dentry_bucket parent q)) of None \<Rightarrow> 0 | Some d \<Rightarrow> d)"
proof -
  have "hchain (v_dhash st) (First (dentry_bucket parent q)) (D (dentry_bucket parent q))"
    using assms by (simp add: dcache_ok_def htable_def hl_def)
  from dentry_search_chain [OF this, of q] show ?thesis by (simp add: dentry_lookup_def slot_get_def)
qed

lemma strncmp_same: "(\<And>i. i < n \<Longrightarrow> mem (p + i) = mem (q + i)) \<Longrightarrow> strncmp mem p q n = 0"
proof (induction n arbitrary: p q)
  case (Suc n)
  have "mem p = mem q" using Suc.prems [of 0] by simp
  moreover have "strncmp mem (p + 1) (q + 1) n = 0"
    using Suc.prems [of "Suc _"] by (intro Suc.IH) simp
  ultimately show ?case by simp
qed simp

lemma name_strncmp_same:
  assumes "n \<le> DNAME_LEN_MIN" "\<And>i. i < n \<Longrightarrow> a ! i = b ! i"
  shows "name_strncmp a b n = 0"
  unfolding name_strncmp_def by (rule strncmp_same) (use assms in simp)

lemma hl_init_node: "hl h b xs \<Longrightarrow> d \<notin> set xs \<Longrightarrow> hl (INIT_HLIST_NODE d h) b xs"
  using hchain_cong [of "First b" "INIT_HLIST_NODE d h" h xs]
  by (auto simp: hl_def INIT_HLIST_NODE_def set_pprev_def slot_set_def slot_get_def)

lemma htable_init_node: "htable hl h D \<Longrightarrow> \<forall>b. d \<notin> set (D b) \<Longrightarrow> htable hl (INIT_HLIST_NODE d h) D"
  by (simp add: htable_def hl_init_node)

section \<open>New objects\<close>

text \<open>
  What an allocation may do to the state: the heap grows or the object is \<open>NULL\<close>, and nothing
  else changes.
\<close>

lemma valloc_spec:
  assumes "heap_state (v_sl st) U" "cpu < CPUNUMS" "0 < n" "n \<le> 4096"
  shows "\<exists>p sl c. valloc cpu n st = Some (p, st\<lparr>v_sl := sl\<rparr>) \<and> n \<le> cache_size c \<and> (\<forall>j<c. cache_size j < n) \<and> c < 12 \<and>
    (\<forall>k. spare (Suc k) (v_sl st) \<longrightarrow> p \<noteq> 0 \<and> spare k sl) \<and>
    (p = 0 \<and> heap_state sl U \<or> p \<noteq> 0 \<and> (c, p) \<notin> U \<and> heap_state sl (insert (c, p) U))"
proof -
  obtain p sl c where k: "kmalloc cpu n (v_sl st) = Some (p, sl)" "c < 12" "n \<le> cache_size c" "\<forall>j<c. cache_size j < n"
    "\<forall>k. spare (Suc k) (v_sl st) \<longrightarrow> p \<noteq> 0 \<and> spare k sl"
    "p = 0 \<and> heap_state sl U \<or> p \<noteq> 0 \<and> (c, p) \<notin> U \<and> heap_state sl (insert (c, p) U)"
    using kmalloc_spare [OF assms] by blast
  then show ?thesis by (intro exI [of _ p] exI [of _ sl] exI [of _ c]) (simp add: valloc_def)
qed

lemma class_of:
  assumes "c < 12" "n \<le> cache_size c" "\<forall>j<c. cache_size j < n"
  shows "n = 80 \<Longrightarrow> c = 4" "n = 52 \<Longrightarrow> c = 3"
  using class_cases [OF assms(1)] assms(2) assms(3) [rule_format, of 4] assms(3) [rule_format, of 3]
  by (auto simp: cache_sizes_def)

lemma d_alloc_spec:
  assumes "heap_state (v_sl st) U" "cpu < CPUNUMS" "(4, parent) \<in> U" "parent \<noteq> 0"
  shows "\<exists>d st1 U1. d_alloc cpu parent name st = Some (d, st1) \<and> U \<subseteq> U1 \<and> heap_state (v_sl st1) U1 \<and>
    (\<forall>k. spare (Suc k) (v_sl st) \<longrightarrow> d \<noteq> 0 \<and> spare k (v_sl st1)) \<and>
    v_inodes st1 = v_inodes st \<and> v_supers st1 = v_supers st \<and> v_mhash st1 = v_mhash st \<and> inode_lock st1 = inode_lock st \<and>
    v_fd st1 = v_fd st \<and>
    (d \<noteq> 0 \<longrightarrow> (4, d) \<notin> U \<and> (4, d) \<in> U1 \<and> d_name (v_dentries st1 d) = name \<and>
       v_dhash st1 = INIT_HLIST_NODE d (v_dhash st) \<and>
       (\<forall>e. e \<noteq> d \<longrightarrow> d_name (v_dentries st1 e) = d_name (v_dentries st e) \<and>
          d_inode (v_dentries st1 e) = d_inode (v_dentries st e)))"
proof -
  obtain d sl c where v: "valloc cpu SIZEOF_DENTRY st = Some (d, st\<lparr>v_sl := sl\<rparr>)" "80 \<le> cache_size c"
    "\<forall>j<c. cache_size j < 80" "c < 12" "\<forall>k. spare (Suc k) (v_sl st) \<longrightarrow> d \<noteq> 0 \<and> spare k sl"
    "d = 0 \<and> heap_state sl U \<or> d \<noteq> 0 \<and> (c, d) \<notin> U \<and> heap_state sl (insert (c, d) U)"
    using valloc_spec [OF assms(1,2), of 80] by (auto simp: SIZEOF_DENTRY_def)
  have c: "c = 4" using class_of(1) [OF v(4,2,3)] by simp
  show ?thesis
  proof (cases "d = 0")
    case True
    then show ?thesis using v(1,5,6) by (auto simp: d_alloc_def)
  next
    case False
    then have u: "(4, d) \<notin> U" "heap_state sl (insert (4, d) U)" using v(6) c by auto
    then have "parent \<noteq> d" using assms(3) by auto
    then show ?thesis
      using v(1,5) False u assms(4)
      by (intro exI [of _ d] exI [of _ "snd (the (d_alloc cpu parent name st))"] exI [of _ "insert (4, d) U"])
        (auto simp: d_alloc_def Let_def upd_dentry_def dget_def)
  qed
qed

lemma simple_get_inode_spec:
  assumes "heap_state (v_sl st) U" "cpu < CPUNUMS" "inode_lock st = 0" "mode AND S_IFMT = S_IFREG"
    and "s_op (v_supers st sb) \<noteq> simple_super_operations"
  shows "\<exists>i st1 U1. simple_get_inode cpu sb mode st = Some (i, st1) \<and> U \<subseteq> U1 \<and> heap_state (v_sl st1) U1 \<and>
    (\<forall>k. spare (Suc k) (v_sl st) \<longrightarrow> i \<noteq> 0 \<and> spare k (v_sl st1)) \<and>
    v_dentries st1 = v_dentries st \<and> v_dhash st1 = v_dhash st \<and> v_mhash st1 = v_mhash st \<and> v_fd st1 = v_fd st \<and>
    (\<forall>j. j \<noteq> i \<longrightarrow> v_inodes st1 j = v_inodes st j) \<and> (i \<noteq> 0 \<longrightarrow> (3, i) \<notin> U \<and> i_mode (v_inodes st1 i) = mode)"
proof -
  obtain i sl c where v: "valloc cpu SIZEOF_INODE st = Some (i, st\<lparr>v_sl := sl\<rparr>)" "52 \<le> cache_size c"
    "\<forall>j<c. cache_size j < 52" "c < 12" "\<forall>k. spare (Suc k) (v_sl st) \<longrightarrow> i \<noteq> 0 \<and> spare k sl"
    "i = 0 \<and> heap_state sl U \<or> i \<noteq> 0 \<and> (c, i) \<notin> U \<and> heap_state sl (insert (c, i) U)"
    using valloc_spec [OF assms(1,2), of 52] by (auto simp: SIZEOF_INODE_def)
  have c: "c = 3" using class_of(2) [OF v(4,2,3)] by simp
  show ?thesis
  proof (cases "i = 0")
    case True
    then show ?thesis using v(1,5,6) assms(5) by (auto simp: simple_get_inode_def new_inode_def alloc_inode_def)
  next
    case False
    then show ?thesis using v(1,5,6) assms(3-5) c
      by (intro exI [of _ i] exI [of _ "snd (the (simple_get_inode cpu sb mode st))"] exI [of _ "insert (3, i) U"])
        (auto simp: simple_get_inode_def new_inode_def alloc_inode_def Let_def upd_inode_def)
  qed
qed


section \<open>Names in the root directory\<close>

definition plain_name :: "u8 list \<Rightarrow> bool" where
  "plain_name cs \<longleftrightarrow> cs \<noteq> [] \<and> length cs < DNAME_LEN_MIN \<and> 0x2F \<notin> set cs \<and> hd cs \<noteq> 0x2E"

definition name_of :: "u8 list \<Rightarrow> u8 list \<Rightarrow> qstr" where
  "name_of junk cs = \<lparr>q_name = cs @ 0 # drop (length cs + 1) junk, q_len = length cs\<rparr>"

definition no_mounts :: "vfst \<Rightarrow> bool" where
  "no_mounts st \<longleftrightarrow> (\<forall>b. hfirst (v_mhash st) b = None)"

lemma plain_name_walk:
  assumes "plain_name cs"
  shows "dropWhile (\<lambda>c. c = 0x2F) cs = cs" "takeWhile (\<lambda>c. c \<noteq> 0x2F) cs = cs"
    "dropWhile (\<lambda>c. c \<noteq> 0x2F) cs = []" "component junk cs = Some (name_of junk cs)"
    "q_name (name_of junk cs) ! 0 \<noteq> 0x2E" "cs \<noteq> []"
proof -
  show "takeWhile (\<lambda>c. c \<noteq> 0x2F) cs = cs" "dropWhile (\<lambda>c. c \<noteq> 0x2F) cs = []"
    using assms by (auto simp: plain_name_def takeWhile_eq_all_conv)
  show "component junk cs = Some (name_of junk cs)"
    using assms by (simp add: component_def name_of_def plain_name_def)
  show "dropWhile (\<lambda>c. c = 0x2F) cs = cs" "cs \<noteq> []" "q_name (name_of junk cs) ! 0 \<noteq> 0x2E"
    using assms by (cases cs; simp add: plain_name_def name_of_def)+
qed

lemma lookup_parent:
  assumes "plain_name cs" "flags AND LOOKUP_PARENT \<noteq> 0"
  shows "\<exists>nd1. path_lookup junk (0x2F # cs) flags fs nd st = Some (0, nd1) \<and> nd_dentry nd1 = fs_root fs \<and>
    nd_last nd1 = name_of junk cs"
  using assms(2)
  by (simp add: path_lookup_def link_path_lookup_def walk_path.simps last_component_def Let_def
      plain_name_walk [OF assms(1)])

lemma follow_none: "no_mounts st \<Longrightarrow> follow_mount m d st = Some (m, d)"
  by (simp add: follow_mount.simps lookup_vfsmnt_def mnt_search.simps no_mounts_def)

lemma lookup_entry:
  assumes "plain_name cs" "flags AND LOOKUP_PARENT = 0" "no_mounts st"
    and "dentry_lookup (fs_root fs) (name_of junk cs) st = Some d" "d \<noteq> 0"
  shows "\<exists>nd1. path_lookup junk (0x2F # cs) flags fs nd st = Some (0, nd1) \<and> nd_dentry nd1 = d"
  using assms(2-5)
  by (simp add: path_lookup_def link_path_lookup_def walk_path.simps last_component_def Let_def
      is_dot_def is_dotdot_def do_lookup_def follow_none plain_name_walk [OF assms(1)])

lemma name_of_match:
  assumes "plain_name cs" "d_name (v_dentries st d) = name_of junk cs"
  shows "matches st (name_of junk1 cs) d"
  using assms by (auto simp: matches_def name_of_def plain_name_def nth_append intro!: name_strncmp_same)

lemma name_of_bucket: "dentry_bucket p (name_of junk cs) = dentry_bucket p (name_of junk1 cs)"
  by (simp add: dentry_bucket_def name_of_def hash_def)

text \<open>A new entry at the head of its chain is the one the next search finds.\<close>

lemma insert_found:
  assumes "dcache_ok D U st" "plain_name cs" "d_name (v_dentries st d) = name_of junk cs" "d \<noteq> 0"
    and "\<forall>b. d \<notin> set (D b)" "(4, d) \<in> U"
  shows "\<exists>D1. dcache_ok D1 U (dentry_insert p d st) \<and>
    dentry_lookup p (name_of junk1 cs) (dentry_insert p d st) = Some d"
proof -
  let ?b = "dentry_bucket p (name_of junk cs)" and ?s = "dentry_insert p d st"
  let ?D = "D(?b := d # D ?b)"
  have "htable hl (v_dhash ?s) ?D"
    using khl.table_add [of "v_dhash st" D d ?b] assms(1,3,5) by (simp add: dcache_ok_def dentry_insert_def)
  then have ok: "dcache_ok ?D U ?s" using assms(1,4,6) by (auto simp: dcache_ok_def)
  have "matches ?s (name_of junk1 cs) d"
    using name_of_match [OF assms(2), of ?s d junk] assms(3) by (simp add: dentry_insert_def)
  then show ?thesis
    using ok dentry_lookup_chain [OF ok, of p "name_of junk1 cs"] name_of_bucket [of p junk1 cs junk] by auto
qed


section \<open>Creating and opening\<close>

text \<open>The root directory is an entry in use, and its inode is one of the root file system.\<close>

definition root_dir :: "fs_struct \<Rightarrow> (nat \<times> nat) set \<Rightarrow> vfst \<Rightarrow> bool" where
  "root_dir fs U st \<longleftrightarrow> fs_root fs \<noteq> 0 \<and> (4, fs_root fs) \<in> U \<and>
     (let ino = v_inodes st (d_inode (v_dentries st (fs_root fs)))
      in i_op ino = simple_dir_inode_operations \<and> s_op (v_supers st (i_sb ino)) \<noteq> simple_super_operations)"

text \<open>
  \<open>file_created U mode i st st1\<close>: from \<open>st\<close> to \<open>st1\<close> the inode \<open>i\<close> was made, in memory that was not
  in use, with the mode \<open>mode\<close>; no other inode and no descriptor changed, and at most two of the
  free 4 MB blocks were used up.
\<close>

definition file_created :: "(nat \<times> nat) set \<Rightarrow> u32 \<Rightarrow> nat \<Rightarrow> vfst \<Rightarrow> vfst \<Rightarrow> bool" where
  "file_created U mode i st st1 \<longleftrightarrow>
     i \<noteq> 0 \<and> (3, i) \<notin> U \<and> i_mode (v_inodes st1 i) = mode \<and> (\<forall>j. j \<noteq> i \<longrightarrow> v_inodes st1 j = v_inodes st j) \<and>
     v_fd st1 = v_fd st \<and> (\<forall>k. spare (Suc (Suc k)) (v_sl st) \<longrightarrow> spare k (v_sl st1))"

definition holds_file :: "nat \<Rightarrow> u8 list \<Rightarrow> nat \<Rightarrow> vfst \<Rightarrow> bool" where
  "holds_file dir cs i st \<longleftrightarrow>
     (\<exists>d. d \<noteq> 0 \<and> d_inode (v_dentries st d) = i \<and> (\<forall>junk. dentry_lookup dir (name_of junk cs) st = Some d))"

lemma mode_regular: "mode AND S_IFMT = 0 \<Longrightarrow> (mode OR S_IFREG) AND S_IFMT = S_IFREG"
  by (simp add: bit.conj_disj_distrib2) (simp add: S_IFREG_def S_IFMT_def)

text \<open>The new entry after its inode was hung in: it is found from now on.\<close>

lemma entry_added:
  fixes i p :: nat
  assumes ok: "dcache_ok D U st" and hs: "heap_state (v_sl st2) U2" and U: "U \<subseteq> U2" "(4, d) \<notin> U" "(4, d) \<in> U2" "d \<noteq> 0"
    and h: "v_dhash st2 = INIT_HLIST_NODE d (v_dhash st)" and nm: "d_name (v_dentries st2 d) = name_of junk cs"
    and n: "plain_name cs"
  defines "s \<equiv> dentry_insert p d (upd_dentry d (\<lambda>x. x\<lparr>d_inode := i, d_count := 1\<rparr>) st2)"
  shows "holds_file p cs i s \<and> heap_state (v_sl s) U2"
proof -
  let ?s = "upd_dentry d (\<lambda>x. x\<lparr>d_inode := i, d_count := 1\<rparr>) st2"
  have new: "\<forall>b. d \<notin> set (D b)" using ok U(2) by (auto simp: dcache_ok_def)
  have "htable hl (v_dhash ?s) D"
    using htable_init_node [of "v_dhash st" D d] ok h new by (simp add: dcache_ok_def upd_dentry_def)
  then have ds: "dcache_ok D U2 ?s" using ok U(1) by (auto simp: dcache_ok_def)
  have "d_name (v_dentries ?s d) = name_of junk cs" using nm by (simp add: upd_dentry_def)
  from insert_found [OF ds n this U(4) new U(3)]
  have "dentry_lookup p (name_of junk1 cs) s = Some d" for junk1 unfolding s_def by blast
  then show ?thesis using hs U(4) by (auto simp: holds_file_def s_def dentry_insert_def upd_dentry_def)
qed

lemma create_spec:
  assumes ok: "dcache_ok D U st" and hs: "heap_state (v_sl st) U" and c: "cpu < CPUNUMS"
    and lk: "inode_lock st = 0" and rt: "root_dir fs U st" and n: "plain_name cs" and m: "mode AND S_IFMT = 0"
  shows "\<exists>r st1. create cpu fs junk nd (0x2F # cs) mode st = Some (r, st1) \<and>
    (if dentry_lookup (fs_root fs) (name_of junk cs) st = Some 0
     then r = 0 \<or> r \<in> {- errno_val ENOMEM, - errno_val ENOSPC} \<and> \<not> spare 2 (v_sl st)
     else r = - errno_val EEXIST \<and> st1 = st) \<and>
    (r = 0 \<longrightarrow> (\<exists>i U1. file_created U (mode OR S_IFREG) i st st1 \<and> holds_file (fs_root fs) cs i st1 \<and>
       heap_state (v_sl st1) U1 \<and> v_mhash st1 = v_mhash st))"
proof -
  let ?p = "fs_root fs" and ?q = "name_of junk cs"
  obtain nd1 where l: "path_lookup junk (0x2F # cs) LOOKUP_PARENT fs nd st = Some (0, nd1)"
    "nd_dentry nd1 = ?p" "nd_last nd1 = ?q"
    using lookup_parent [OF n, of LOOKUP_PARENT junk fs nd st] by (auto simp: LOOKUP_PARENT_def)
  obtain old where old: "dentry_lookup ?p ?q st = Some old" using dentry_lookup_chain [OF ok] by blast
  obtain d st1 U1 where a: "d_alloc cpu ?p ?q st = Some (d, st1)" "U \<subseteq> U1" "heap_state (v_sl st1) U1"
    "\<forall>k. spare (Suc k) (v_sl st) \<longrightarrow> d \<noteq> 0 \<and> spare k (v_sl st1)"
    "v_inodes st1 = v_inodes st" "v_supers st1 = v_supers st" "v_mhash st1 = v_mhash st" "inode_lock st1 = inode_lock st"
    "v_fd st1 = v_fd st"
    "d \<noteq> 0 \<longrightarrow> (4, d) \<notin> U \<and> (4, d) \<in> U1 \<and> d_name (v_dentries st1 d) = ?q \<and>
       v_dhash st1 = INIT_HLIST_NODE d (v_dhash st) \<and>
       (\<forall>e. e \<noteq> d \<longrightarrow> d_name (v_dentries st1 e) = d_name (v_dentries st e) \<and>
          d_inode (v_dentries st1 e) = d_inode (v_dentries st e))"
    using d_alloc_spec [OF hs c, of ?p ?q] rt by (auto simp: root_dir_def)
  consider "old \<noteq> 0" | "old = 0" "d = 0" | "old = 0" "d \<noteq> 0" by blast
  then show ?thesis
  proof cases
    case 1
    then show ?thesis using l old by (simp add: create_def)
  next
    case 2
    then show ?thesis using l old a(1,4) by (auto simp: create_def numeral_2_eq_2)
  next
    case 3
    let ?i = "d_inode (v_dentries st ?p)"
    have op: "create_op cpu ?i d mode st1 = simple_dir_inode_mknod cpu ?i d (mode OR S_IFREG) st1"
      using rt a(5) by (simp add: create_op_def simple_dir_inode_create_def root_dir_def Let_def)
    have lk1: "inode_lock st1 = 0" "s_op (v_supers st1 (i_sb (v_inodes st1 ?i))) \<noteq> simple_super_operations"
      using lk rt a(5,6,8) by (auto simp: root_dir_def Let_def)
    obtain i st2 U2 where g: "simple_get_inode cpu (i_sb (v_inodes st1 ?i)) (mode OR S_IFREG) st1 = Some (i, st2)"
      "U1 \<subseteq> U2" "heap_state (v_sl st2) U2" "\<forall>k. spare (Suc k) (v_sl st1) \<longrightarrow> i \<noteq> 0 \<and> spare k (v_sl st2)"
      "v_dentries st2 = v_dentries st1" "v_dhash st2 = v_dhash st1" "v_mhash st2 = v_mhash st1" "v_fd st2 = v_fd st1"
      "\<forall>j. j \<noteq> i \<longrightarrow> v_inodes st2 j = v_inodes st1 j" "i \<noteq> 0 \<longrightarrow> (3, i) \<notin> U1 \<and> i_mode (v_inodes st2 i) = mode OR S_IFREG"
      using simple_get_inode_spec [OF a(3) c lk1(1) mode_regular [OF m] lk1(2)] by blast
    have sp: "spare k (v_sl st2) \<and> i \<noteq> 0" if "spare (Suc (Suc k)) (v_sl st)" for k using a(4) g(4) that by blast
    show ?thesis
    proof (cases "i = 0")
      case True
      then show ?thesis using l old a(1) 3 op g(1) sp [of 0]
        by (auto simp: create_def simple_dir_inode_mknod_def hook_inode_def numeral_2_eq_2)
    next
      case False
      let ?s = "dentry_insert ?p d (upd_dentry d (\<lambda>x. x\<lparr>d_inode := i, d_count := 1\<rparr>) st2)"
      have "create cpu fs junk nd (0x2F # cs) mode st = Some (0, ?s)"
        using l old a(1) 3 op g(1) False by (simp add: create_def simple_dir_inode_mknod_def hook_inode_def)
      moreover have "holds_file ?p cs i ?s \<and> heap_state (v_sl ?s) U2"
        by (rule entry_added [OF ok g(3) _ _ _ 3(2) _ _ n]) (use a(2,10) g(2,5,6) 3 in auto)
      moreover have "file_created U (mode OR S_IFREG) i st ?s" "v_mhash ?s = v_mhash st"
        using False a(2,5,7,9) g(7-10) sp by (auto simp: file_created_def dentry_insert_def upd_dentry_def)
      ultimately show ?thesis using old 3 by auto
    qed
  qed
qed

lemma open_spec:
  assumes hs: "heap_state (v_sl st) U" and c: "cpu < CPUNUMS" and h: "holds_file (fs_root fs) cs i st" "i \<noteq> 0"
    and n: "plain_name cs" and nm: "no_mounts st"
  shows "\<exists>fd st1. vopen cpu ft fs junk nd (0x2F # cs) flags fmode st = Some (fd, st1) \<and>
    (if fd < 0 then get_unused_fd ft st < 0 \<or> \<not> spare 1 (v_sl st)
     else let f = v_files st1 (v_fd st1 ft (nat fd))
          in f_inode f = i \<and> f_count f = 1 \<and> f_flags f = flags \<and> v_inodes st1 = v_inodes st)"
proof (cases "get_unused_fd ft st < 0")
  case True
  then show ?thesis by (simp add: vopen_def Let_def)
next
  case False
  obtain d where d: "d \<noteq> 0" "d_inode (v_dentries st d) = i"
    "dentry_lookup (fs_root fs) (name_of junk cs) st = Some d" using h by (auto simp: holds_file_def)
  obtain nd1 where l: "path_lookup junk (0x2F # cs) (LOOKUP_OPEN OR LOOKUP_FOLLOW) fs nd st = Some (0, nd1)"
    "nd_dentry nd1 = d"
    using lookup_entry [OF n _ nm d(3,1), of "LOOKUP_OPEN OR LOOKUP_FOLLOW" nd]
    by (auto simp: LOOKUP_OPEN_def LOOKUP_FOLLOW_def LOOKUP_PARENT_def)
  obtain f sl where v: "valloc cpu SIZEOF_FILE st = Some (f, st\<lparr>v_sl := sl\<rparr>)" "spare 1 (v_sl st) \<longrightarrow> f \<noteq> 0"
    using valloc_spec [OF hs c, of SIZEOF_FILE] by (auto simp: SIZEOF_FILE_def)
  have "open_op ops = None \<or> open_op ops = Some 0" for ops
    by (cases ops) (simp_all add: open_op_def pipefs_file_open_def ttyfs_file_open_def ramfs_file_open_def)
  then have op: "Option.bind x open_op = None \<or> Option.bind x open_op = Some 0" for x by (cases x) auto
  show ?thesis
  proof (cases "f = 0")
    case True
    then show ?thesis using False l v d h(2) by (simp add: vopen_def Let_def open_file_def alloc_file_def)
  next
    case nz: False
    have "open_file cpu d fmode flags (nd_mnt nd1) st = Some (f, upd_file f (\<lambda>_. zero_file\<lparr>f_mode := fmode, f_flags := flags,
        f_count := 1, f_inode := i, f_op := i_fop (v_inodes st i), f_dentry := d, f_vfsmnt := nd_mnt nd1\<rparr>) (st\<lparr>v_sl := sl\<rparr>))"
      using v(1) nz d(2) h(2) op [of "i_fop (v_inodes st i)"] by (auto simp: open_file_def alloc_file_def upd_file_def)
    then show ?thesis using False l v nz by (simp add: vopen_def Let_def upd_file_def set_fd_def)
  qed
qed

section \<open>Property\<close>

text \<open>
  C38. Creating a file in the root directory and opening it is a round trip. Assumed are a
  well-formed cache of directory entries and heap, a root directory of the root file system,
  no mounted file system, a free inode lock, a name of 1 to 35 bytes without a slash and not
  starting with a dot (a longer one overflows the buffer of the code), and a mode without
  file type bits. Then \<^verbatim>\<open>create\<close> returns. It gives \<open>-EEXIST\<close> and changes nothing exactly if the
  cache finds an entry for the name; otherwise it returns 0, or \<open>-ENOMEM\<close> or \<open>-ENOSPC\<close> when fewer
  than two blocks of 4 MB are free. When it returns 0 it has made one new inode, regular and of
  the given mode, and changed no other inode and no descriptor; creating the name again gives
  \<open>-EEXIST\<close>; and \<^verbatim>\<open>open\<close> of the name gives a descriptor of a new file on that very inode, with
  one reference and the flags of the call, or fails when the table of descriptors is full or
  no block is free.
\<close>

theorem create_then_open:
  assumes "dcache_ok D U st" "heap_state (v_sl st) U" "cpu < CPUNUMS" "inode_lock st = 0"
    and "root_dir fs U st" "plain_name cs" "mode AND S_IFMT = 0" "no_mounts st"
  shows "\<exists>r st1. create cpu fs junk nd (0x2F # cs) mode st = Some (r, st1) \<and>
    (if dentry_lookup (fs_root fs) (name_of junk cs) st = Some 0
     then r = 0 \<or> r \<in> {- errno_val ENOMEM, - errno_val ENOSPC} \<and> \<not> spare 2 (v_sl st)
     else r = - errno_val EEXIST \<and> st1 = st) \<and>
    (r = 0 \<longrightarrow> (\<exists>i. file_created U (mode OR S_IFREG) i st st1 \<and>
      (\<forall>junk1 nd1 mode1. create cpu fs junk1 nd1 (0x2F # cs) mode1 st1 = Some (- errno_val EEXIST, st1)) \<and>
      (\<forall>junk1 nd1 ft flags fmode. \<exists>fd st2. vopen cpu ft fs junk1 nd1 (0x2F # cs) flags fmode st1 = Some (fd, st2) \<and>
        (if fd < 0 then get_unused_fd ft st1 < 0 \<or> \<not> spare 1 (v_sl st1)
         else let f = v_files st2 (v_fd st2 ft (nat fd))
              in f_inode f = i \<and> f_count f = 1 \<and> f_flags f = flags \<and> v_inodes st2 = v_inodes st1))))"
proof -
  obtain r st1 where r: "create cpu fs junk nd (0x2F # cs) mode st = Some (r, st1)"
    "if dentry_lookup (fs_root fs) (name_of junk cs) st = Some 0
     then r = 0 \<or> r \<in> {- errno_val ENOMEM, - errno_val ENOSPC} \<and> \<not> spare 2 (v_sl st)
     else r = - errno_val EEXIST \<and> st1 = st"
    "r = 0 \<longrightarrow> (\<exists>i U1. file_created U (mode OR S_IFREG) i st st1 \<and> holds_file (fs_root fs) cs i st1 \<and>
       heap_state (v_sl st1) U1 \<and> v_mhash st1 = v_mhash st)"
    using create_spec [OF assms(1-7), of junk nd] by blast
  show ?thesis
  proof (cases "r = 0")
    case True
    then obtain i U1 where i: "file_created U (mode OR S_IFREG) i st st1" "holds_file (fs_root fs) cs i st1"
      "heap_state (v_sl st1) U1" "v_mhash st1 = v_mhash st" using r(3) by blast
    have nm: "no_mounts st1" and nz: "i \<noteq> 0" using assms(8) i(1,4) by (simp_all add: no_mounts_def file_created_def)
    have "create cpu fs junk1 nd1 (0x2F # cs) mode1 st1 = Some (- errno_val EEXIST, st1)" for junk1 nd1 mode1
      using lookup_parent [OF assms(6), of LOOKUP_PARENT junk1 fs nd1 st1] i(2)
      by (auto simp: create_def holds_file_def LOOKUP_PARENT_def)
    then show ?thesis using r(1,2) i(1) open_spec [OF i(3) assms(3) i(2) nz assms(6) nm] by blast
  qed (use r(1,2) in simp)
qed

definition root_vfs :: "slst \<Rightarrow> vfst" where
  "root_vfs sl = (let b = blank_vfs sl in b\<lparr>v_inodes := (\<lambda>i. (v_inodes b i)\<lparr>i_op := simple_dir_inode_operations\<rparr>)\<rparr>)"

definition root_fs :: "nat \<Rightarrow> fs_struct" where
  "root_fs d = \<lparr>fs_root = d, fs_mnt_root = 0, fs_pwd = d, fs_mnt_pwd = 0\<rparr>"

definition blank_nd :: nameidata where
  "blank_nd = \<lparr>nd_dentry = 0, nd_mnt = 0, nd_last = \<lparr>q_name = [], q_len = 0\<rparr>, nd_flags = 0, nd_last_type = 0\<rparr>"

text \<open>On a machine with 16 MB whose heap holds only the entry of the root directory.\<close>

theorem create_then_open_witness:
  "\<exists>d sl st1 fd st2. create 0 (root_fs d) (replicate 36 0) blank_nd [0x2F, 0x61] 0x1A4 (root_vfs sl) = Some (0, st1) \<and>
    create 0 (root_fs d) (replicate 36 7) blank_nd [0x2F, 0x61] 0 st1 = Some (- errno_val EEXIST, st1) \<and>
    vopen 0 9 (root_fs d) (replicate 36 7) blank_nd [0x2F, 0x61] O_RDWR 0 st1 = Some (fd, st2) \<and> 0 \<le> fd \<and>
    i_mode (v_inodes st2 (f_inode (v_files st2 (v_fd st2 9 (nat fd))))) = 0x81A4"
proof -
  have cpu: "0 < CPUNUMS" by (simp add: CPUNUMS_def)
  obtain s0 where s0: "heap_state (slab_init (boot_slab s0)) {}" "spare 4 (slab_init (boot_slab s0))"
    using boot_heap [of 4096] by auto
  obtain d sl c where k: "c < 12" "80 \<le> cache_size c" "\<forall>j<c. cache_size j < 80" "d \<noteq> 0" "heap_state sl {(c, d)}" "spare 3 sl"
    using kmalloc_spare [OF s0(1) cpu, of 80] s0(2) by (auto simp: eval_nat_numeral)
  have c: "c = 4" using class_of(1) [OF k(1-3)] by simp
  let ?st = "root_vfs sl"
  have st: "v_sl ?st = sl" "v_fd ?st = (\<lambda>_ _. 0)" by (simp_all add: root_vfs_def blank_vfs_def Let_def)
  have 1: "dcache_ok (\<lambda>_. []) {(4, d)} ?st"
    by (simp add: dcache_ok_def htable_def hl_def root_vfs_def blank_vfs_def Let_def slot_get_def)
  have 2: "heap_state (v_sl ?st) {(4, d)}" "inode_lock ?st = 0"
    using k(5) c by (simp_all add: root_vfs_def blank_vfs_def Let_def)
  have 3: "root_dir (root_fs d) {(4, d)} ?st" "no_mounts ?st"
    using k(4) by (simp_all add: root_dir_def root_fs_def no_mounts_def root_vfs_def blank_vfs_def Let_def)
  have 4: "plain_name [0x61]" "(0x1A4::u32) AND S_IFMT = 0"
    by (simp_all add: plain_name_def DNAME_LEN_MIN_def S_IFMT_def)
  have free: "dentry_lookup (fs_root (root_fs d)) (name_of (replicate 36 0) [0x61]) ?st = Some 0"
    using dentry_lookup_chain [OF 1] by simp
  note t = create_then_open [OF 1 2(1) cpu 2(2) 3(1) 4 3(2), of "replicate 36 0" blank_nd]
  have sp: "spare 2 (v_sl ?st)" using spare_mono [OF k(6), of 2] st(1) by simp
  obtain st1 i where r: "create 0 (root_fs d) (replicate 36 0) blank_nd [0x2F, 0x61] 0x1A4 ?st = Some (0, st1)"
    "file_created {(4, d)} (0x1A4 OR S_IFREG) i ?st st1"
    "\<And>junk1 nd1 mode1. create 0 (root_fs d) junk1 nd1 [0x2F, 0x61] mode1 st1 = Some (- errno_val EEXIST, st1)"
    "\<And>junk1 nd1 ft flags fmode. \<exists>fd st2. vopen 0 ft (root_fs d) junk1 nd1 [0x2F, 0x61] flags fmode st1 = Some (fd, st2) \<and>
        (if fd < 0 then get_unused_fd ft st1 < 0 \<or> \<not> spare 1 (v_sl st1)
         else let f = v_files st2 (v_fd st2 ft (nat fd))
              in f_inode f = i \<and> f_count f = 1 \<and> f_flags f = flags \<and> v_inodes st2 = v_inodes st1)"
    using t unfolding free using sp by auto
  have s1: "spare 1 (v_sl st1)" "v_fd st1 = (\<lambda>_ _. 0)" "i_mode (v_inodes st1 i) = 0x1A4 OR S_IFREG"
    using r(2) k(6) st by (auto simp: file_created_def eval_nat_numeral)
  have "\<not> get_unused_fd 9 st1 < 0" by (simp add: get_unused_fd_def MAX_FILE_def s1(2) eval_nat_numeral)
  then show ?thesis
    using r(1,3) r(4) [of 9 "replicate 36 7" blank_nd O_RDWR 0] s1(1,3)
    by (auto simp: Let_def S_IFREG_def split: if_splits intro!: exI [of _ d] exI [of _ sl])
qed

end
