(* ===== verification/Spec2Isabelle.thy ===== *)
theory Spec2Isabelle
  imports Aspace Pidmap Sched Printfmt Namei_Props
begin

text \<open>
  A verification development of fuckOS, a small Unix-like kernel for 32-bit x86 with PAE
  paging, together with the string and formatting functions it shares with its user programs.

  \<^bold>\<open>The program.\<close> At boot \<^verbatim>\<open>kernel/mm/bootmm.c\<close> reads the memory map, lays out an array of page
  descriptors and hands the free frames to the buddy allocator \<^verbatim>\<open>kernel/mm/zone.c\<close>. On top of it
  stand the page interface and the page tables of \<^verbatim>\<open>kernel/mm/page.c\<close>, and the object allocator
  \<^verbatim>\<open>kernel/mm/slab.c\<close>, from which all other kernel structures come. An address space
  (\<^verbatim>\<open>kernel/mm/mm.c\<close>) is a set of areas in a search tree (\<^verbatim>\<open>kernel/rbtree.c\<close>) and a page table; it
  is filled by page faults (\<^verbatim>\<open>kernel/trap/page_fault.c\<close>), shared copy-on-write by \<^verbatim>\<open>fork.c\<close>, and
  taken down by \<^verbatim>\<open>exit.c\<close>. Tasks get ids from \<^verbatim>\<open>kernel/pidmap.c\<close> and run under \<^verbatim>\<open>kernel/sched.c\<close>.
  Keys go from the interrupt through \<^verbatim>\<open>kernel/char/keyboard.c\<close> into the terminal queue of
  \<^verbatim>\<open>tty_io.c\<close>, and are read from there, like pipes and files, through the descriptors and inodes
  of \<^verbatim>\<open>fs\<close>.

  \<^bold>\<open>Conventions.\<close> Machine integers are words of their width (\<open>u8\<close> to \<open>u64\<close>), with the wrap-around
  of the code; an index or count that the code keeps small is a natural number. A state is a
  record, passed and returned. A structure in memory has an address, 0 is the null pointer, and
  the structures of one type are a function from addresses to records. \<open>None\<close> stands for a
  machine that does not go on: a panic, a failed assertion (the debug configuration is the one
  modelled), a lock that is already held, a loop that never ends, or an access outside an array.
  So a theorem that a call gives \<open>Some\<close> says that it returns. Error codes are the negative
  integers of the code. Loops are structural recursion, terminating functions, or
  \<^theory_text>\<open>partial_function (option)\<close>; there is no fuel: where the number of rounds is given as a number,
  it is the bound of the loop in the code (\<^verbatim>\<open>MAX_FILE\<close>, \<^verbatim>\<open>MAXORDER\<close>, the size of a zone). The
  model has one processor running at a time; \<open>cpu\<close> says whose slab is used.

  \<^bold>\<open>Theories and what they show.\<close>

  \<^item> \<open>Kprelude\<close>: types, \<^verbatim>\<open>errno.h\<close>, spin locks and counters of \<^verbatim>\<open>atomic.h\<close>, rounding, constants of
    \<^verbatim>\<open>layout.h\<close>, and the shared lemmas on words, options and lists.
  \<^item> \<open>Klist\<close>, \<open>Hlist\<close>: the lists and hash chains of \<^verbatim>\<open>list.h\<close> as pointer heaps, with the contracts
    \<open>intrusive_list\<close> and \<open>hash_chain\<close> as locales, interpreted on the pointer operations.
  \<^item> \<open>Strings\<close>, \<open>Printfmt\<close>: \<^verbatim>\<open>lib/string.c\<close>, \<^verbatim>\<open>lib/printfmt.c\<close>, \<^verbatim>\<open>lib/printf.c\<close>, \<^verbatim>\<open>kernel/printk.c\<close>. The
    block operations equal their specification for every overlap; the string functions are
    right and stay inside their buffers; \<^verbatim>\<open>strtol\<close> reads back what \<^verbatim>\<open>%d\<close> prints; the minus flag pads
    numbers on the wrong side.
  \<^item> \<open>Buddy\<close>, \<open>Buddy_Inv\<close>, \<open>Buddy_Free\<close>, \<open>Bootmm\<close>, \<open>Buddy_Props\<close>: \<^verbatim>\<open>zone.c\<close>, the allocation half of
    \<^verbatim>\<open>page.c\<close>, and \<^verbatim>\<open>bootmm.c\<close>. The invariant \<open>binv\<close> ties lists, order fields and counters together
    and forbids unmerged buddies. Allocation and freeing are exact; boot makes exactly the RAM
    above the kernel free, on memory maps that the \<^verbatim>\<open>int\<close>s of the code can describe.
  \<^item> \<open>Paging\<close>, \<open>Paging_Inv\<close>, \<open>Paging_Walk\<close>, \<open>Paging_Insert\<close>, \<open>Paging_Props\<close>, \<open>Cow\<close>, \<open>Fork_Pages\<close>: the
    entry helpers of \<^verbatim>\<open>pages.h\<close>, the rest of \<^verbatim>\<open>page.c\<close>, \<^verbatim>\<open>do_wp_fault\<close> and the page loop of
    \<^verbatim>\<open>copy_task\<close>. \<open>mmu\<close> is what the processor reads from the tables; the invariant \<open>pinv\<close> says that
    reference counts are the number of mappings. Inserting, removing, copying on write and
    sharing change exactly the translations they should.
  \<^item> \<open>Slab\<close>, \<open>Slab_Inv\<close>, \<open>Slab_Ops\<close>, \<open>Slab_Alloc\<close>, \<open>Slab_Free\<close>, \<open>Slab_Props\<close>: \<^verbatim>\<open>slab.c\<close>, with the free
    chains in the words of physical memory. \<open>heap_state st U\<close> is the invariant with the objects
    \<open>U\<close> in use; the locale \<open>object_heap\<close> is the contract of an allocator, interpreted on \<open>kmalloc\<close> and
    \<open>kfree\<close>. Every program of calls runs and holds disjoint memory; \<open>spare k\<close> free 4 MB blocks make
    the next \<open>k\<close> allocations succeed.
  \<^item> \<open>Rbtree\<close>, \<open>Vma\<close>, \<open>Vma_Props\<close>, \<open>Aspace\<close>: \<^verbatim>\<open>rbtree.c\<close>, \<^verbatim>\<open>mm.c\<close>, \<^verbatim>\<open>brk.c\<close>, and the set-up, fork,
    faults, user pointers and end of an address space. Searching and creating areas is right
    for ranges that do not wrap; deleting a tree node with two children, the order of the
    area list and the upper end of a user buffer are not, and this is proved too.
  \<^item> \<open>Pidmap\<close>, \<open>Sched\<close>: the id bitmap and the scheduler. The timer path refines a round-robin queue,
    every runnable task runs within a computed number of ticks, and \<^verbatim>\<open>wait\<close> meets \<^verbatim>\<open>exit\<close>.
  \<^item> \<open>Channel\<close>, \<open>Keyboard\<close>, \<open>Pipe\<close>: the locale \<open>channel\<close> is the contract of a bounded queue; the
    terminal queue and the ring of \<^verbatim>\<open>pipe_inode.c\<close> are interpretations of it. Any input leaves the
    keyboard state well typed; an extended key that meets an empty ring is lost.
  \<^item> \<open>Vfs\<close>, \<open>Vfs_Props\<close>, \<open>Namei\<close>, \<open>Namei_Props\<close>: \<^verbatim>\<open>file.c\<close>, \<^verbatim>\<open>inode.c\<close>, \<^verbatim>\<open>dcache.c\<close>, \<^verbatim>\<open>namei.c\<close>, \<^verbatim>\<open>vfsmount.c\<close>,
    \<^verbatim>\<open>libfs.c\<close>, the operations of \<^verbatim>\<open>ttyfs\<close>, \<^verbatim>\<open>pipefs\<close> and \<^verbatim>\<open>ramfs\<close>, and the system calls on files. The
    count of a file is the number of its descriptors under all sequences of calls, given as the
    step relation \<open>fd_step\<close>; a file that was created is the file that opening its name finds.

  \<^bold>\<open>Bounds.\<close> A theorem states in its text every condition on its inputs. The numeric ones are: 8 TB
  of memory (frame numbers in an \<^verbatim>\<open>int\<close>), 5000 address spaces and fewer than \<open>2\<^sup>2\<^sup>5\<close> descriptor tables
  (reference counts in 32 bits), 4 GB through one pipe (positions in 32 bits), names below 36
  bytes (a longer one overruns an array), ranges that do not wrap around, and descriptors inside
  their table (the code does not check them).

  \<^bold>\<open>Not modelled.\<close> Assembly, descriptor tables, interrupt controllers, the clock, the console and
  the disk and PCI drivers, because they are device and register accesses; the kernel page table
  built at boot, which is a fixed mapping; \<^verbatim>\<open>do_fork\<close>, \<^verbatim>\<open>execve\<close>, \<^verbatim>\<open>task_create\<close> and \<^verbatim>\<open>load_icode\<close>, which
  string modelled operations together around register frames and linked ELF images; the switch
  over system call numbers; the registration of file systems, which runs once before the states
  the theorems start from; the buffer cache and the Minix file system, which are never
  initialised or registered; the directory \<^verbatim>\<open>kernel/123\<close>, which is not built; and the user programs
  and the remaining user library, which are outside the kernel. Several processors at once and
  the translation look-aside buffer are not modelled either. Debug printers are left out.
\<close>

end
